(* ===== verification/Prelude.thy ===== *)
theory Prelude
  imports Main "HOL-Library.Word" "HOL-Library.List_Lexorder"
begin

text \<open>
  Shared vocabulary of the development: the machine integers the daemon uses, Rust text as a
  list of Unicode scalar values with its UTF-8 byte measure, character boundaries and byte
  slicing, the result type of fallible operations, and generic list lemmas the components share.

  Rust lengths and counters of type \<open>usize\<close> and \<open>u64\<close> are natural numbers; where the code
  saturates or checks for overflow the bound is written out (\<open>sat_add\<close>, \<open>checked_add_u64\<close>).
\<close>

named_theorems text_simps \<open>measure and slicing of Rust text\<close>

section \<open>Machine integers\<close>

type_synonym byte = "8 word"

definition u64_max :: nat where
  "u64_max = 18446744073709551615"

abbreviation usize_max :: nat where
  "usize_max \<equiv> u64_max"

definition checked_add_u64 :: "nat \<Rightarrow> nat \<Rightarrow> nat option" where
  "checked_add_u64 a b = (if a + b \<le> u64_max then Some (a + b) else None)"

definition sat_add :: "nat \<Rightarrow> nat \<Rightarrow> nat" where
  "sat_add a b = min (a + b) usize_max"

lemma checked_add_u64_SomeD:
  "checked_add_u64 a b = Some c \<Longrightarrow> c = a + b \<and> c \<le> u64_max"
  by (auto simp: checked_add_u64_def split: if_splits)

lemma checked_add_u64_one: "checked_add_u64 a (Suc 0) = Some c \<longleftrightarrow> c = Suc a \<and> Suc a \<le> u64_max"
  by (auto simp: checked_add_u64_def)

lemma checked_add_u64_None: "checked_add_u64 a b = None \<longleftrightarrow> u64_max < a + b"
  by (auto simp: checked_add_u64_def)

lemma sat_add_le_iff: "budget < usize_max \<Longrightarrow> sat_add a b \<le> budget \<longleftrightarrow> a + b \<le> budget"
  by (auto simp: sat_add_def)

lemma sat_add_mono: "a \<le> a' \<Longrightarrow> sat_add a b \<le> sat_add a' b"
  by (auto simp: sat_add_def)

lemma sat_add_le: "sat_add a b \<le> a + b"
  by (simp add: sat_add_def)

section \<open>Results\<close>

text \<open>A fallible operation returns \<open>Inl\<close> the error or \<open>Inr\<close> the value.\<close>

type_synonym ('e, 'a) res = "'e + 'a"

fun is_ok :: "('e, 'a) res \<Rightarrow> bool" where
  "is_ok (Inr _) = True"
| "is_ok (Inl _) = False"

lemma is_ok_iff: "is_ok r \<longleftrightarrow> (\<exists>x. r = Inr x)"
  by (cases r) auto

section \<open>Rust text\<close>

text \<open>
  A Rust \<open>char\<close> is a Unicode scalar value, here its code point; a \<open>str\<close> is the list of its
  characters. \<open>str::len\<close> counts UTF-8 bytes, so it is the sum of the characters' encoded sizes.
\<close>

type_synonym uchar = nat
type_synonym rtext = "uchar list"

definition len_utf8 :: "uchar \<Rightarrow> nat" where
  "len_utf8 c = (if c < 128 then 1 else if c < 2048 then 2 else if c < 65536 then 3 else 4)"

definition str_len :: "rtext \<Rightarrow> nat" where
  "str_len t = sum_list (map len_utf8 t)"

text \<open>An ASCII literal as text.\<close>

definition lit :: "string \<Rightarrow> rtext" where
  "lit s = map of_char s"

lemma len_utf8_pos [simp]: "0 < len_utf8 c"
  by (simp add: len_utf8_def)

lemma len_utf8_ge1 [simp]: "Suc 0 \<le> len_utf8 c"
  by (simp add: len_utf8_def)

lemma len_utf8_nz [simp]: "len_utf8 c \<noteq> 0"
  by (simp add: len_utf8_def)

lemma str_len_Nil [simp]: "str_len [] = 0"
  by (simp add: str_len_def)

lemma str_len_Cons [simp]: "str_len (c # t) = len_utf8 c + str_len t"
  by (simp add: str_len_def)

lemma str_len_append [simp]: "str_len (s @ t) = str_len s + str_len t"
  by (simp add: str_len_def)

lemma str_len_rev [simp]: "str_len (rev t) = str_len t"
  by (induction t) simp_all

lemma str_len_0 [simp]: "str_len t = 0 \<longleftrightarrow> t = []"
  by (cases t) auto

lemma str_len_pos: "0 < str_len t \<longleftrightarrow> t \<noteq> []"
  by (cases t) auto

lemma length_le_str_len: "length t \<le> str_len t"
proof (induction t)
  case (Cons c t)
  have "1 \<le> len_utf8 c" by simp
  with Cons show ?case unfolding str_len_Cons list.size by linarith
qed simp

text \<open>
  \<open>split_bytes t n\<close> is \<open>str::split_at_checked\<close>: the two parts around byte \<open>n\<close>, or \<open>None\<close> when
  \<open>n\<close> is past the end or inside a character.
\<close>

fun split_bytes :: "rtext \<Rightarrow> nat \<Rightarrow> (rtext \<times> rtext) option" where
  "split_bytes [] n = (if n = 0 then Some ([], []) else None)"
| "split_bytes (c # t) n =
     (if n = 0 then Some ([], c # t)
      else if n < len_utf8 c then None
      else map_option (\<lambda>(a, b). (c # a, b)) (split_bytes t (n - len_utf8 c)))"

definition is_char_boundary :: "rtext \<Rightarrow> nat \<Rightarrow> bool" where
  "is_char_boundary t n \<longleftrightarrow> split_bytes t n \<noteq> None"

definition bytes_from :: "rtext \<Rightarrow> nat \<Rightarrow> rtext" where
  "bytes_from t n = (case split_bytes t n of Some (_, b) \<Rightarrow> b | None \<Rightarrow> [])"

definition bytes_upto :: "rtext \<Rightarrow> nat \<Rightarrow> rtext" where
  "bytes_upto t n = (case split_bytes t n of Some (a, _) \<Rightarrow> a | None \<Rightarrow> [])"

lemma split_bytes_append: "split_bytes (a @ b) (str_len a) = Some (a, b)"
proof (induction a)
  case Nil
  then show ?case by (cases b) auto
next
  case (Cons c a)
  then show ?case by simp
qed

lemma split_bytes_SomeD: "split_bytes t n = Some (a, b) \<Longrightarrow> t = a @ b \<and> str_len a = n"
proof (induction t n arbitrary: a b rule: split_bytes.induct)
  case (1 n)
  then show ?case by (auto split: if_splits)
next
  case (2 c t n)
  then show ?case by (auto split: if_splits)
qed

lemma split_bytes_iff: "split_bytes t n = Some (a, b) \<longleftrightarrow> t = a @ b \<and> str_len a = n"
  using split_bytes_append split_bytes_SomeD by blast

lemma is_char_boundary_iff:
  "is_char_boundary t n \<longleftrightarrow> (\<exists>a b. t = a @ b \<and> str_len a = n)"
  by (auto simp: is_char_boundary_def split_bytes_iff)

lemma is_char_boundary_0 [simp]: "is_char_boundary t 0"
  by (auto simp: is_char_boundary_iff)

lemma is_char_boundary_len [simp]: "is_char_boundary t (str_len t)"
  unfolding is_char_boundary_iff by (metis append_Nil2)

lemma is_char_boundary_append [simp]: "is_char_boundary (a @ b) (str_len a)"
  by (auto simp: is_char_boundary_iff)

lemma is_char_boundary_le: "is_char_boundary t n \<Longrightarrow> n \<le> str_len t"
  by (auto simp: is_char_boundary_iff)

lemma bytes_from_append [simp]: "bytes_from (a @ b) (str_len a) = b"
  by (simp add: bytes_from_def split_bytes_append)

lemma bytes_upto_append [simp]: "bytes_upto (a @ b) (str_len a) = a"
  by (simp add: bytes_upto_def split_bytes_append)

lemma bytes_from_0 [simp]: "bytes_from t 0 = t"
  using bytes_from_append [of "[]" t] by simp

lemma bytes_from_len [simp]: "bytes_from t (str_len t) = []"
  using bytes_from_append [of t "[]"] by simp

lemma bytes_split:
  "is_char_boundary t n \<Longrightarrow> bytes_upto t n @ bytes_from t n = t"
  by (auto simp: is_char_boundary_iff)

lemma str_len_bytes_upto: "is_char_boundary t n \<Longrightarrow> str_len (bytes_upto t n) = n"
  by (auto simp: is_char_boundary_iff)

lemma str_len_bytes_from: "is_char_boundary t n \<Longrightarrow> str_len (bytes_from t n) = str_len t - n"
  by (auto simp: is_char_boundary_iff)

lemmas boundary_simps = bytes_split str_len_bytes_upto str_len_bytes_from

declare boundary_simps [text_simps]

text \<open>\<open>str::split\<close> on the newline, and \<open>char::is_whitespace\<close> (the Unicode property \<open>White_Space\<close>).\<close>

fun split_nl :: "rtext \<Rightarrow> rtext list" where
  "split_nl [] = [[]]"
| "split_nl (c # t) =
     (if c = 10 then [] # split_nl t
      else case split_nl t of [] \<Rightarrow> [[c]] | l # ls \<Rightarrow> (c # l) # ls)"

definition is_whitespace :: "uchar \<Rightarrow> bool" where
  "is_whitespace c \<longleftrightarrow> 9 \<le> c \<and> c \<le> 13 \<or> c \<in> {32, 133, 160, 5760} \<or> 8192 \<le> c \<and> c \<le> 8202 \<or>
     c \<in> {8232, 8233, 8239, 8287, 12288}"

text \<open>\<open>str::trim\<close> and \<open>str::split_once\<close>.\<close>

definition trim :: "rtext \<Rightarrow> rtext" where
  "trim t = rev (dropWhile is_whitespace (rev (dropWhile is_whitespace t)))"

fun split_once :: "uchar \<Rightarrow> rtext \<Rightarrow> (rtext \<times> rtext) option" where
  "split_once c [] = None"
| "split_once c (x # t) =
     (if x = c then Some ([], t) else map_option (\<lambda>(l, r). (x # l, r)) (split_once c t))"

lemma set_trim: "set (trim t) \<subseteq> set t"
  by (auto simp: trim_def dest!: set_dropWhileD)

lemma str_len_dropWhile_le: "str_len (dropWhile P t) \<le> str_len t"
  by (induction t) auto

lemma str_len_trim_le: "str_len (trim t) \<le> str_len t"
proof -
  have "str_len (trim t) \<le> str_len (dropWhile is_whitespace t)"
    using str_len_dropWhile_le [of is_whitespace "rev (dropWhile is_whitespace t)"] by (simp add: trim_def)
  with str_len_dropWhile_le [of is_whitespace t] show ?thesis by simp
qed


section \<open>Decimal numbers\<close>

text \<open>\<open>u64::to_string\<close> and \<open>str::parse::<u64>\<close>, which accepts a leading plus sign.\<close>

fun dec_string :: "nat \<Rightarrow> rtext" where
  "dec_string n = (if n < 10 then [48 + n] else dec_string (n div 10) @ [48 + n mod 10])"

declare dec_string.simps [simp del]

definition is_ascii_digit :: "uchar \<Rightarrow> bool" where
  "is_ascii_digit c \<longleftrightarrow> 48 \<le> c \<and> c \<le> 57"

fun digits_val :: "nat \<Rightarrow> rtext \<Rightarrow> nat option" where
  "digits_val acc [] = Some acc"
| "digits_val acc (c # t) =
     (if is_ascii_digit c \<and> acc * 10 + (c - 48) \<le> u64_max then digits_val (acc * 10 + (c - 48)) t else None)"

definition parse_u64 :: "rtext \<Rightarrow> nat option" where
  "parse_u64 t = (let d = (if t \<noteq> [] \<and> hd t = 43 then tl t else t) in
     if d = [] then None else digits_val 0 d)"

lemma dec_string_nonempty [simp]: "dec_string n \<noteq> []"
  by (subst dec_string.simps) simp

lemma dec_string_digits: "c \<in> set (dec_string n) \<Longrightarrow> is_ascii_digit c"
proof (induction n rule: dec_string.induct)
  case (1 n)
  have "n mod 10 < 10" by simp
  then show ?case
    using 1 by (subst (asm) (2) dec_string.simps) (auto simp: is_ascii_digit_def split: if_splits)
qed

lemma digits_val_append:
  "digits_val acc (s @ t) = Option.bind (digits_val acc s) (\<lambda>a. digits_val a t)"
  by (induction s arbitrary: acc) auto

lemma digits_val_le: "digits_val acc t = Some n \<Longrightarrow> acc \<le> u64_max \<Longrightarrow> n \<le> u64_max"
  by (induction t arbitrary: acc) (auto split: if_splits)

lemma digits_val_dec_string: "n \<le> u64_max \<Longrightarrow> digits_val 0 (dec_string n) = Some n"
proof (induction n rule: dec_string.induct)
  case (1 n)
  have m: "n mod 10 < 10" by simp
  show ?case
  proof (cases "n < 10")
    case True
    then show ?thesis using 1 by (simp add: dec_string.simps is_ascii_digit_def)
  next
    case False
    with 1 have "digits_val 0 (dec_string (n div 10)) = Some (n div 10)" by simp
    with False m 1 show ?thesis
      by (subst dec_string.simps) (simp add: digits_val_append is_ascii_digit_def)
  qed
qed

lemma parse_dec_string [simp]: "n \<le> u64_max \<Longrightarrow> parse_u64 (dec_string n) = Some n"
proof -
  assume n: "n \<le> u64_max"
  have "hd (dec_string n) \<noteq> 43"
    using dec_string_digits [of "hd (dec_string n)" n] by (auto simp: is_ascii_digit_def)
  with n show ?thesis by (simp add: parse_u64_def digits_val_dec_string)
qed

lemma parse_u64_le: "parse_u64 t = Some n \<Longrightarrow> n \<le> u64_max"
  by (auto simp: parse_u64_def Let_def split: if_splits dest: digits_val_le)

section \<open>Lists\<close>

lemma takeWhile_less_sorted:
  assumes "sorted_wrt (<) (xs :: nat list)" and "i < length xs"
  shows "length (takeWhile (\<lambda>y. y < xs ! i) xs) = i"
  using assms
proof (induction xs arbitrary: i)
  case Nil
  then show ?case by simp
next
  case (Cons x xs)
  show ?case
  proof (cases i)
    case 0
    then show ?thesis by simp
  next
    case (Suc j)
    with Cons.prems have "x < xs ! j" and "j < length xs" by auto
    with Cons Suc show ?thesis by simp
  qed
qed

lemma sorted_wrt_less_distinct: "sorted_wrt (<) (xs :: 'a::linorder list) \<Longrightarrow> distinct xs"
  by (induction xs) auto

end
