(* ===== verification/Transition.thy ===== *)
theory Transition
  imports Prelude
begin

text \<open>
  Runs of operations and the three contracts the stateful components share: a step function that
  keeps an invariant, one that only moves forward in a preorder, and a partial step function that
  simulates an abstract one. Each component interprets the contracts it meets on its own step.
\<close>

text \<open>\<open>None\<close> is a panic: the run stops there.\<close>

fun run_opt :: "('s \<Rightarrow> 'o \<Rightarrow> 's option) \<Rightarrow> 's \<Rightarrow> 'o list \<Rightarrow> 's option" where
  "run_opt step s [] = Some s"
| "run_opt step s (x # xs) = (case step s x of None \<Rightarrow> None | Some s' \<Rightarrow> run_opt step s' xs)"

lemma run_opt_append:
  "run_opt step s (xs @ ys) = (case run_opt step s xs of None \<Rightarrow> None | Some s' \<Rightarrow> run_opt step s' ys)"
  by (induction xs arbitrary: s) (auto split: option.splits)

text \<open>Some step of the run satisfies a predicate of the state it acts on and its operation.\<close>

fun sometime :: "('s \<Rightarrow> 'o \<Rightarrow> 's) \<Rightarrow> ('s \<Rightarrow> 'o \<Rightarrow> bool) \<Rightarrow> 's \<Rightarrow> 'o list \<Rightarrow> bool" where
  "sometime step P s [] \<longleftrightarrow> False"
| "sometime step P s (x # xs) \<longleftrightarrow> P s x \<or> sometime step P (step s x) xs"

locale step_invariant =
  fixes step :: "'s \<Rightarrow> 'o \<Rightarrow> 's" and inv :: "'s \<Rightarrow> bool"
  assumes step_inv: "inv s \<Longrightarrow> inv (step s x)"
begin

lemma run_inv: "inv s \<Longrightarrow> inv (foldl step s xs)"
  by (induction xs arbitrary: s) (auto intro: step_inv)

text \<open>A property that only the steps in \<open>Q\<close> end, and that no step restores.\<close>

lemma run_until:
  assumes "\<And>s x. inv s \<Longrightarrow> P (step s x) \<longleftrightarrow> P s \<and> \<not> Q s x" and "inv s"
  shows "P (foldl step s xs) \<longleftrightarrow> P s \<and> \<not> sometime step Q s xs"
  using assms(2) by (induction xs arbitrary: s) (auto simp: assms(1) step_inv)

end

locale step_monotone = step_invariant step inv
  for step :: "'s \<Rightarrow> 'o \<Rightarrow> 's" and inv :: "'s \<Rightarrow> bool" +
  fixes below :: "'s \<Rightarrow> 's \<Rightarrow> bool"
  assumes below_refl: "below s s"
    and below_trans: "below s t \<Longrightarrow> below t u \<Longrightarrow> below s u"
    and step_below: "inv s \<Longrightarrow> below s (step s x)"
begin

lemma run_below: "inv s \<Longrightarrow> below s (foldl step s xs)"
proof (induction xs arbitrary: s)
  case Nil
  then show ?case by (simp add: below_refl)
next
  case (Cons x xs)
  then show ?case
    using below_trans step_below step_inv by simp blast
qed

end

locale partial_simulation =
  fixes step :: "'s \<Rightarrow> 'o \<Rightarrow> 's option" and spec :: "'a \<Rightarrow> 'o \<Rightarrow> 'a" and rel :: "'s \<Rightarrow> 'a \<Rightarrow> bool"
  assumes simulates: "rel s a \<Longrightarrow> step s x = Some s' \<Longrightarrow> rel s' (spec a x)"
begin

lemma run_simulates: "rel s a \<Longrightarrow> run_opt step s xs = Some s' \<Longrightarrow> rel s' (foldl spec a xs)"
proof (induction xs arbitrary: s a)
  case Nil
  then show ?case by simp
next
  case (Cons x xs)
  then show ?case by (auto split: option.splits dest: simulates)
qed

end

end
