(* ===== verification/Scrollback.thy ===== *)
theory Scrollback
  imports Transition
begin

text \<open>
  The bounded scrollback of a pseudo-terminal, from \<open>crates/intent-pty/src/scrollback.rs\<close>: a byte
  ring with absolute stream offsets, an index of newline positions maintained on append, and the
  snapshot operations a subscriber back-fills from. A panic of the source (offset overflow, a range
  out of bounds) is the value \<open>None\<close>.

  Shown: every operation keeps the ring's invariant, the ring refines the abstract history of all
  bytes ever produced, and a line window is exactly the requested lines, found without scanning.
\<close>

section \<open>State and operations\<close>

definition DEFAULT_SCROLLBACK_BYTES :: nat where
  "DEFAULT_SCROLLBACK_BYTES = 512 * 1024"

record output_chunk =
  oc_bytes :: "byte list"
  oc_start_offset :: nat
  oc_end_offset :: nat

record line_snapshot =
  ls_bytes :: "byte list"
  ls_total_lines :: nat
  ls_start_line :: nat
  ls_end_line :: nat
  ls_retained_has_non_whitespace :: bool

definition line_count :: "line_snapshot \<Rightarrow> nat" where
  "line_count ls = ls_end_line ls - ls_start_line ls"

record scrollback =
  sb_buf :: "byte list"
  sb_max_bytes :: nat
  sb_newlines :: "nat list"
  sb_stream_offset :: nat
  sb_non_whitespace_bytes :: nat
  sb_line_snapshot_calls :: nat
  sb_line_snapshot_scanned_bytes :: nat

definition sb_new :: "nat \<Rightarrow> scrollback" where
  "sb_new m = \<lparr>sb_buf = [], sb_max_bytes = m, sb_newlines = [], sb_stream_offset = 0,
     sb_non_whitespace_bytes = 0, sb_line_snapshot_calls = 0, sb_line_snapshot_scanned_bytes = 0\<rparr>"

definition is_ascii_whitespace :: "byte \<Rightarrow> bool" where
  "is_ascii_whitespace b \<longleftrightarrow> b \<in> {32, 9, 10, 12, 13}"

definition non_ws :: "byte list \<Rightarrow> nat" where
  "non_ws bs = length (filter (\<lambda>b. \<not> is_ascii_whitespace b) bs)"

definition newline_offsets :: "nat \<Rightarrow> byte list \<Rightarrow> nat list" where
  "newline_offsets base bs = map fst (filter (\<lambda>(_, b). b = 10) (enumerate base bs))"

definition sb_push :: "scrollback \<Rightarrow> byte list \<Rightarrow> scrollback option" where
  "sb_push s data =
     (case checked_add_u64 (sb_stream_offset s) (length data) of
        None \<Rightarrow> None
      | Some off \<Rightarrow>
          if sb_max_bytes s = 0 then Some (s\<lparr>sb_stream_offset := off\<rparr>)
          else
            let data_start = sb_stream_offset s;
                tail = (if sb_max_bytes s < length data
                        then drop (length data - sb_max_bytes s) data else data);
                tail_start = data_start + (length data - length tail);
                newlines = sb_newlines s @ newline_offsets tail_start tail;
                non_whitespace = sb_non_whitespace_bytes s + non_ws tail;
                extended = sb_buf s @ tail;
                overflow = length extended - sb_max_bytes s;
                buf = drop overflow extended;
                retained_start = off - length buf
            in Some (s\<lparr>sb_stream_offset := off,
                 sb_buf := buf,
                 sb_non_whitespace_bytes :=
                   (if 0 < overflow then non_whitespace - non_ws (take overflow extended)
                    else non_whitespace),
                 sb_newlines := dropWhile (\<lambda>p. p < retained_start) newlines\<rparr>))"

definition copy_range :: "scrollback \<Rightarrow> nat \<Rightarrow> nat \<Rightarrow> byte list option" where
  "copy_range s start end =
     (if start \<le> end \<and> end \<le> length (sb_buf s)
      then Some (take (end - start) (drop start (sb_buf s))) else None)"

definition snapshot :: "scrollback \<Rightarrow> byte list option" where
  "snapshot s = copy_range s 0 (length (sb_buf s))"

definition snapshot_tail :: "scrollback \<Rightarrow> nat \<Rightarrow> byte list option" where
  "snapshot_tail s k = copy_range s (length (sb_buf s) - k) (length (sb_buf s))"

definition positioned_snapshot :: "scrollback \<Rightarrow> nat \<Rightarrow> output_chunk option" where
  "positioned_snapshot s k =
     (case snapshot_tail s k of
        None \<Rightarrow> None
      | Some bytes \<Rightarrow>
          Some \<lparr>oc_bytes = bytes,
            oc_start_offset = sb_stream_offset s - length bytes,
            oc_end_offset = sb_stream_offset s\<rparr>)"

definition end_offset :: "scrollback \<Rightarrow> nat" where
  "end_offset s = sb_stream_offset s"

definition line_start :: "scrollback \<Rightarrow> nat \<Rightarrow> nat \<Rightarrow> nat" where
  "line_start s line retained_start =
     (if line = 0 then 0
      else if length (sb_newlines s) < line then length (sb_buf s)
      else sb_newlines s ! (line - 1) + 1 - retained_start)"

text \<open>
  The backward scan for an unmatched OSC opener. \<open>index\<close> is the loop variable before its decrement;
  the second component counts the scanned bytes.
\<close>

fun osc_scan :: "byte list \<Rightarrow> nat \<Rightarrow> nat \<Rightarrow> nat \<Rightarrow> nat option \<times> nat" where
  "osc_scan b byte_start 0 scanned = (None, scanned)"
| "osc_scan b byte_start (Suc i) scanned =
     (if b ! i = 7 \<or> (0 < i \<and> b ! (i - 1) = 27 \<and> b ! i = 92) then (None, scanned + 1)
      else if i + 1 < byte_start \<and> b ! i = 27 \<and> b ! (i + 1) = 93 then (Some i, scanned + 1)
      else osc_scan b byte_start i (scanned + 1))"

definition open_osc_start :: "scrollback \<Rightarrow> nat \<Rightarrow> nat option \<times> scrollback" where
  "open_osc_start s byte_start =
     (let (found, scanned) = osc_scan (sb_buf s) byte_start byte_start 0
      in (found, s\<lparr>sb_line_snapshot_scanned_bytes :=
                   (sb_line_snapshot_scanned_bytes s + scanned) mod (u64_max + 1)\<rparr>))"

definition snapshot_lines ::
  "scrollback \<Rightarrow> nat \<Rightarrow> nat option \<Rightarrow> (line_snapshot \<times> scrollback) option" where
  "snapshot_lines s0 max_lines end_line_opt =
     (let s = s0\<lparr>sb_line_snapshot_calls := (sb_line_snapshot_calls s0 + 1) mod (u64_max + 1)\<rparr>;
          total_lines = (if sb_buf s = [] then 0 else length (sb_newlines s) + 1);
          end_line = min (case end_line_opt of None \<Rightarrow> total_lines | Some e \<Rightarrow> e) total_lines;
          start_line = end_line - max_lines;
          retained_start = sb_stream_offset s - length (sb_buf s);
          byte_start = line_start s start_line retained_start;
          byte_end = line_start s end_line retained_start;
          (osc, s') = open_osc_start s byte_start;
          context_start = (case osc of None \<Rightarrow> byte_start | Some i \<Rightarrow> i)
      in case copy_range s' context_start byte_end of
           None \<Rightarrow> None
         | Some bytes \<Rightarrow>
             Some (\<lparr>ls_bytes = bytes, ls_total_lines = total_lines, ls_start_line = start_line,
                ls_end_line = end_line,
                ls_retained_has_non_whitespace = 0 < sb_non_whitespace_bytes s'\<rparr>, s'))"

definition line_snapshot_metrics :: "scrollback \<Rightarrow> nat \<times> nat" where
  "line_snapshot_metrics s = (sb_line_snapshot_calls s, sb_line_snapshot_scanned_bytes s)"

definition sb_clear :: "scrollback \<Rightarrow> scrollback" where
  "sb_clear s = s\<lparr>sb_buf := [], sb_newlines := [], sb_non_whitespace_bytes := 0\<rparr>"

section \<open>The invariant\<close>

text \<open>
  The retained bytes fit the budget and the stream, the newline index holds exactly the absolute
  positions of the retained newlines, and the non-whitespace counter is exact.
\<close>

definition sb_inv :: "scrollback \<Rightarrow> bool" where
  "sb_inv s \<longleftrightarrow>
     length (sb_buf s) \<le> sb_max_bytes s \<and>
     length (sb_buf s) \<le> sb_stream_offset s \<and>
     sb_stream_offset s \<le> u64_max \<and>
     sb_newlines s = newline_offsets (sb_stream_offset s - length (sb_buf s)) (sb_buf s) \<and>
     sb_non_whitespace_bytes s = non_ws (sb_buf s)"

lemma newline_offsets_Nil [simp]: "newline_offsets base [] = []"
  by (simp add: newline_offsets_def)

lemma newline_offsets_Cons:
  "newline_offsets base (b # bs) =
     (if b = 10 then base # newline_offsets (Suc base) bs else newline_offsets (Suc base) bs)"
  by (simp add: newline_offsets_def)

lemma newline_offsets_append:
  "newline_offsets base (a @ b) = newline_offsets base a @ newline_offsets (base + length a) b"
  by (simp add: newline_offsets_def enumerate_append_eq)

lemma newline_offsets_bounds:
  "x \<in> set (newline_offsets base bs) \<Longrightarrow> base \<le> x \<and> x < base + length bs"
  by (auto simp: newline_offsets_def in_set_enumerate_eq)

lemma dropWhile_newline_offsets:
  "dropWhile (\<lambda>p. p < base + k) (newline_offsets base bs) = newline_offsets (base + k) (drop k bs)"
proof (induction bs arbitrary: base k)
  case Nil
  then show ?case by simp
next
  case (Cons b bs)
  show ?case
  proof (cases k)
    case 0
    have "x \<in> set (newline_offsets base (b # bs)) \<Longrightarrow> \<not> x < base" for x
      using newline_offsets_bounds [of x base "b # bs"] by simp
    then have "dropWhile (\<lambda>p. p < base) (newline_offsets base (b # bs)) = newline_offsets base (b # bs)"
      by (cases "newline_offsets base (b # bs)") auto
    with 0 show ?thesis by simp
  next
    case (Suc j)
    with Cons.IH [of "Suc base" j] show ?thesis
      by (simp add: newline_offsets_Cons)
  qed
qed

lemma non_ws_append [simp]: "non_ws (a @ b) = non_ws a + non_ws b"
  by (simp add: non_ws_def)

lemma non_ws_take_drop: "non_ws bs - non_ws (take n bs) = non_ws (drop n bs)"
  by (metis add_diff_cancel_left' append_take_drop_id non_ws_append)

lemma non_ws_pos: "0 < non_ws bs \<longleftrightarrow> (\<exists>b \<in> set bs. \<not> is_ascii_whitespace b)"
  by (auto simp: non_ws_def filter_empty_conv)

lemma sb_inv_new [simp]: "sb_inv (sb_new m)"
  by (simp add: sb_inv_def sb_new_def non_ws_def)

lemma sb_inv_clear: "sb_inv s \<Longrightarrow> sb_inv (sb_clear s)"
  by (simp add: sb_inv_def sb_clear_def non_ws_def)


text \<open>
  Appending: whatever the chunk's size, the new ring is the trailing \<open>sb_max_bytes\<close> bytes of the
  old ring followed by the chunk.
\<close>

lemma sb_push_buf:
  assumes "sb_inv s" and "sb_push s data = Some s'"
  shows "sb_buf s' = drop (length (sb_buf s @ data) - sb_max_bytes s) (sb_buf s @ data)"
proof (cases "sb_max_bytes s = 0")
  case True
  with assms show ?thesis
    by (auto simp: sb_push_def sb_inv_def split: option.splits)
next
  case False
  with assms show ?thesis
    by (auto simp: sb_push_def sb_inv_def Let_def split: option.splits if_splits)
qed

lemma sb_push_offset:
  assumes "sb_push s data = Some s'"
  shows "sb_stream_offset s' = sb_stream_offset s + length data" and "sb_stream_offset s' \<le> u64_max"
    and "sb_max_bytes s' = sb_max_bytes s"
  using assms by (auto simp: sb_push_def Let_def dest: checked_add_u64_SomeD
      split: option.splits if_splits)

lemma sb_push_newlines:
  assumes "sb_inv s" and "sb_push s data = Some s'"
  shows "sb_newlines s' = newline_offsets (sb_stream_offset s' - length (sb_buf s')) (sb_buf s')"
proof -
  let ?m = "sb_max_bytes s" and ?o = "sb_stream_offset s" and ?b = "sb_buf s"
  have nl: "sb_newlines s = newline_offsets (?o - length ?b) ?b" and le: "length ?b \<le> ?m" "length ?b \<le> ?o"
    using assms(1) by (auto simp: sb_inv_def)
  consider (zero) "?m = 0" | (long) "0 < ?m" "?m < length data" | (short) "0 < ?m" "length data \<le> ?m"
    by linarith
  then show ?thesis
  proof cases
    case zero
    with assms nl le show ?thesis by (auto simp: sb_push_def split: option.splits)
  next
    case long
    let ?t = "drop (length data - ?m) data" and ?ts = "?o + (length data - ?m)"
    have t: "length ?t = ?m" using long by simp
    have s': "sb_newlines s' = dropWhile (\<lambda>p. p < ?ts) (sb_newlines s @ newline_offsets ?ts ?t)"
      "sb_buf s' = ?t" "sb_stream_offset s' = ?o + length data"
      using assms(2) long le
      by (auto simp: sb_push_def Let_def dest!: checked_add_u64_SomeD split: option.splits)
    have old: "dropWhile (\<lambda>p. p < ?ts) (sb_newlines s @ ys) = dropWhile (\<lambda>p. p < ?ts) ys" for ys
      using newline_offsets_bounds [of _ "?o - length ?b" ?b] le nl
      by (intro dropWhile_append2) fastforce
    have "dropWhile (\<lambda>p. p < ?ts) (newline_offsets ?ts ?t) = newline_offsets ?ts ?t"
      using dropWhile_newline_offsets [of ?ts 0 ?t] by simp
    with s' old t long show ?thesis by simp
  next
    case short
    let ?e = "?b @ data"
    let ?v = "length ?e - ?m"
    have "newline_offsets (?o - length ?b) ?b @ newline_offsets ?o data =
        newline_offsets (?o - length ?b) ?e"
      using le by (simp add: newline_offsets_append)
    moreover have "sb_stream_offset s' - length (sb_buf s') = (?o - length ?b) + ?v"
      and "sb_buf s' = drop ?v ?e"
      and "sb_newlines s' = dropWhile (\<lambda>p. p < sb_stream_offset s' - length (sb_buf s'))
             (newline_offsets (?o - length ?b) ?b @ newline_offsets ?o data)"
      using assms(2) short le nl
      by (auto simp: sb_push_def Let_def dest!: checked_add_u64_SomeD split: option.splits)
    ultimately show ?thesis
      by (simp only: dropWhile_newline_offsets)
  qed
qed

lemma sb_push_non_ws:
  assumes "sb_inv s" and "sb_push s data = Some s'"
  shows "sb_non_whitespace_bytes s' = non_ws (sb_buf s')"
proof (cases "sb_max_bytes s = 0")
  case True
  with assms show ?thesis
    by (auto simp: sb_push_def sb_inv_def non_ws_def split: option.splits)
next
  case False
  define tail where
    "tail = (if sb_max_bytes s < length data then drop (length data - sb_max_bytes s) data else data)"
  define ext where "ext = sb_buf s @ tail"
  define v where "v = length ext - sb_max_bytes s"
  have "sb_non_whitespace_bytes s' = (if 0 < v then non_ws ext - non_ws (take v ext) else non_ws ext)"
    and "sb_buf s' = drop v ext"
    using assms False
    by (auto simp: sb_push_def sb_inv_def Let_def tail_def [symmetric] ext_def v_def
        split: option.splits)
  then show ?thesis by (simp add: non_ws_take_drop)
qed

theorem sb_push_inv:
  assumes "sb_inv s" and "sb_push s data = Some s'"
  shows "sb_inv s'"
  using sb_push_buf [OF assms] sb_push_offset [OF assms(2)] sb_push_newlines [OF assms]
    sb_push_non_ws [OF assms] assms(1)
  by (auto simp: sb_inv_def)


lemma sb_push_None: "sb_push s data = None \<longleftrightarrow> u64_max < sb_stream_offset s + length data"
  by (auto simp: sb_push_def Let_def checked_add_u64_None [symmetric] split: option.splits)

section \<open>Refinement: the ring is a window on the whole stream\<close>

text \<open>
  The abstract state is every byte the process ever produced and the position of the last clear.
\<close>

datatype sb_op = Push "byte list" | Clear

fun sb_step :: "scrollback \<Rightarrow> sb_op \<Rightarrow> scrollback option" where
  "sb_step s (Push d) = sb_push s d"
| "sb_step s Clear = Some (sb_clear s)"

type_synonym history = "byte list \<times> nat"

fun history_step :: "history \<Rightarrow> sb_op \<Rightarrow> history" where
  "history_step (h, c) (Push d) = (h @ d, c)"
| "history_step (h, c) Clear = (h, length h)"

fun sb_refines :: "scrollback \<Rightarrow> history \<Rightarrow> bool" where
  "sb_refines s (h, c) \<longleftrightarrow>
     sb_inv s \<and> sb_stream_offset s = length h \<and> c \<le> length h \<and>
     sb_buf s = drop (max c (length h - sb_max_bytes s)) h"

lemma drop_window:
  assumes "c \<le> length h"
  shows "drop (length (drop (max c (length h - m)) h @ d) - m) (drop (max c (length h - m)) h @ d) =
    drop (max c (length (h @ d) - m)) (h @ d)"
proof -
  let ?k = "max c (length h - m)"
  have k: "?k \<le> length h" using assms by simp
  then have e: "drop ?k h @ d = drop ?k (h @ d)" by simp
  have "length (drop ?k h @ d) - m + ?k = max c (length (h @ d) - m)"
    using k by (auto simp: max_def)
  then show ?thesis by (simp only: e drop_drop)
qed

lemma sb_step_refines:
  assumes "sb_refines s a" and "sb_step s x = Some s'"
  shows "sb_refines s' (history_step a x)"
proof -
  obtain h c where a: "a = (h, c)" by fastforce
  show ?thesis
  proof (cases x)
    case (Push d)
    with assms a have inv: "sb_inv s" and p: "sb_push s d = Some s'" and c: "c \<le> length h"
      and b: "sb_buf s = drop (max c (length h - sb_max_bytes s)) h" and "sb_stream_offset s = length h"
      by auto
    with Push a show ?thesis
      using sb_push_inv [OF inv p] sb_push_buf [OF inv p] sb_push_offset [OF p] drop_window [OF c]
      by simp
  next
    case Clear
    with assms a show ?thesis by (auto simp: sb_inv_clear) (simp_all add: sb_clear_def)
  qed
qed

interpretation ring: partial_simulation sb_step history_step sb_refines
  by unfold_locales (rule sb_step_refines)

lemma sb_refines_new: "sb_refines (sb_new m) ([], 0)"
  using sb_inv_new [of m] by (simp add: sb_new_def)

lemma sb_step_max_bytes: "sb_step s x = Some s' \<Longrightarrow> sb_max_bytes s' = sb_max_bytes s"
  by (cases x) (auto simp: sb_clear_def sb_push_offset)

lemma sb_run_max_bytes: "run_opt sb_step s xs = Some s' \<Longrightarrow> sb_max_bytes s' = sb_max_bytes s"
  by (induction xs arbitrary: s) (auto split: option.splits dest: sb_step_max_bytes)

lemma sb_run_refines:
  "run_opt sb_step (sb_new m) ops = Some s \<Longrightarrow> sb_refines s (foldl history_step ([], 0) ops)"
  using ring.run_simulates sb_refines_new by blast

section \<open>Line windows\<close>

text \<open>The reference: the retained bytes cut after every newline.\<close>

fun raw_lines :: "byte list \<Rightarrow> byte list list" where
  "raw_lines [] = [[]]"
| "raw_lines (b # bs) =
     (if b = 10 then [b] # raw_lines bs
      else case raw_lines bs of [] \<Rightarrow> [[b]] | l # ls \<Rightarrow> (b # l) # ls)"

definition line_pos :: "byte list \<Rightarrow> nat \<Rightarrow> nat" where
  "line_pos bs l = length (concat (take l (raw_lines bs)))"

lemma raw_lines_nonempty [simp]: "raw_lines bs \<noteq> []"
  by (cases bs) (auto split: list.splits)

lemma concat_raw_lines [simp]: "concat (raw_lines bs) = bs"
  by (induction bs) (auto split: list.splits)

lemma length_raw_lines: "length (raw_lines bs) = length (newline_offsets base bs) + 1"
  by (induction bs arbitrary: base) (auto simp: newline_offsets_Cons split: list.splits)

lemma line_pos_Cons:
  "line_pos (b # bs) (Suc l) = (if b = 10 then Suc (line_pos bs l) else Suc (line_pos bs (Suc l)))"
  using raw_lines_nonempty [of bs] by (auto simp: line_pos_def split: list.splits)

lemma nth_newline_offsets:
  "l < length (newline_offsets base bs) \<Longrightarrow>
     newline_offsets base bs ! l + 1 = base + line_pos bs (Suc l)"
proof (induction bs arbitrary: base l)
  case Nil
  then show ?case by simp
next
  case (Cons b bs)
  show ?case
  proof (cases "b = 10")
    case True
    show ?thesis
    proof (cases l)
      case 0
      with True show ?thesis by (simp add: newline_offsets_Cons line_pos_Cons line_pos_def)
    next
      case (Suc k)
      with True Cons show ?thesis
        by (fastforce simp: newline_offsets_Cons line_pos_Cons)
    qed
  next
    case False
    with Cons show ?thesis by (fastforce simp: newline_offsets_Cons line_pos_Cons)
  qed
qed

lemma line_pos_all: "length (raw_lines bs) \<le> l \<Longrightarrow> line_pos bs l = length bs"
  by (simp add: line_pos_def)

lemma line_pos_le: "line_pos bs l \<le> length bs"
proof -
  have "length (concat (take l (raw_lines bs)) @ concat (drop l (raw_lines bs))) = length bs"
    by (simp flip: concat_append)
  then show ?thesis by (simp add: line_pos_def)
qed

lemma concat_slice:
  assumes "s \<le> e"
  shows "take (length (concat (take e ls)) - length (concat (take s ls)))
           (drop (length (concat (take s ls))) (concat ls)) = concat (take (e - s) (drop s ls))"
proof -
  have ls: "concat ls = concat (take s ls) @ concat (take (e - s) (drop s ls)) @ concat (drop e ls)"
    using assms by (metis append_take_drop_id concat_append drop_drop le_add_diff_inverse2)
  have "take e ls = take s ls @ take (e - s) (drop s ls)"
    using assms by (metis le_add_diff_inverse take_add)
  then have "concat (take e ls) = concat (take s ls) @ concat (take (e - s) (drop s ls))" by simp
  with ls show ?thesis by simp
qed

lemma line_pos_mono: "s \<le> e \<Longrightarrow> line_pos bs s \<le> line_pos bs e"
proof -
  assume "s \<le> e"
  then have "take e (raw_lines bs) = take s (raw_lines bs) @ take (e - s) (drop s (raw_lines bs))"
    by (metis le_add_diff_inverse take_add)
  then show ?thesis by (simp add: line_pos_def)
qed

lemma line_start_eq:
  assumes "sb_inv s"
  shows "line_start s l (sb_stream_offset s - length (sb_buf s)) = line_pos (sb_buf s) l"
proof -
  let ?base = "sb_stream_offset s - length (sb_buf s)"
  have nl: "sb_newlines s = newline_offsets ?base (sb_buf s)"
    using assms by (simp add: sb_inv_def)
  consider "l = 0" | "0 < l" "length (sb_newlines s) < l" | "0 < l" "l \<le> length (sb_newlines s)"
    by linarith
  then show ?thesis
  proof cases
    case 1
    then show ?thesis by (simp add: line_start_def line_pos_def)
  next
    case 2
    with nl length_raw_lines [of "sb_buf s" ?base] show ?thesis
      by (simp add: line_start_def line_pos_all)
  next
    case 3
    with nl nth_newline_offsets [of "l - 1" ?base "sb_buf s"] show ?thesis
      by (simp add: line_start_def)
  qed
qed


text \<open>
  An open OSC opener before a boundary: \<open>ESC ]\<close> with neither BEL nor ST (\<open>ESC \\\<close>) after it.
\<close>

definition osc_terminator :: "byte list \<Rightarrow> nat \<Rightarrow> bool" where
  "osc_terminator b k \<longleftrightarrow> b ! k = 7 \<or> (0 < k \<and> b ! (k - 1) = 27 \<and> b ! k = 92)"

definition open_opener :: "byte list \<Rightarrow> nat \<Rightarrow> nat \<Rightarrow> bool" where
  "open_opener b bound j \<longleftrightarrow>
     j + 1 < bound \<and> b ! j = 27 \<and> b ! (j + 1) = 93 \<and> (\<forall>k. j < k \<and> k < bound \<longrightarrow> \<not> osc_terminator b k)"

lemma osc_scan_found:
  "osc_scan b bound i n = (Some j, m) \<Longrightarrow>
     (\<forall>k. i \<le> k \<and> k < bound \<longrightarrow> \<not> osc_terminator b k) \<Longrightarrow>
     (\<forall>k. i \<le> k \<longrightarrow> \<not> open_opener b bound k) \<Longrightarrow>
     j < i \<and> open_opener b bound j \<and> (\<forall>k. open_opener b bound k \<longrightarrow> k \<le> j)"
proof (induction b bound i n rule: osc_scan.induct)
  case (1 b bound n)
  then show ?case by simp
next
  case (2 b bound i n)
  show ?case
  proof (cases "i + 1 < bound \<and> b ! i = 27 \<and> b ! (i + 1) = 93")
    case True
    moreover from this 2 have "j = i" by (simp split: if_splits)
    moreover have "\<forall>k. open_opener b bound k \<longrightarrow> k \<le> i"
      using "2.prems"(3) not_less_eq_eq by blast
    ultimately show ?thesis
      using "2.prems"(2) by (auto simp: open_opener_def)
  next
    case False
    with "2.prems"(1) have nt: "\<not> osc_terminator b i"
      and rec: "osc_scan b bound i (n + 1) = (Some j, m)"
      by (auto simp: osc_terminator_def split: if_splits)
    have a: "\<forall>k. i \<le> k \<and> k < bound \<longrightarrow> \<not> osc_terminator b k"
      using "2.prems"(2) nt by (metis Suc_leI le_neq_implies_less)
    have b: "\<forall>k. i \<le> k \<longrightarrow> \<not> open_opener b bound k"
      using "2.prems"(3) False by (metis Suc_leI le_neq_implies_less open_opener_def)
    have c: "\<not> (b ! i = 7 \<or> 0 < i \<and> b ! (i - 1) = 27 \<and> b ! i = 92)"
      using nt by (auto simp: osc_terminator_def)
    show ?thesis using "2.IH" [OF c False rec a b] by simp
  qed
qed

lemma osc_scan_none:
  "osc_scan b bound i n = (None, m) \<Longrightarrow> (\<forall>k. i \<le> k \<longrightarrow> \<not> open_opener b bound k) \<Longrightarrow> i \<le> bound \<Longrightarrow>
     \<not> open_opener b bound j"
proof (induction b bound i n rule: osc_scan.induct)
  case (1 b bound n)
  then show ?case by simp
next
  case (2 b bound i n)
  show ?case
  proof (cases "osc_terminator b i")
    case True
    then have "b ! i \<noteq> 27" by (auto simp: osc_terminator_def)
    then have "\<not> open_opener b bound i" by (simp add: open_opener_def)
    moreover have "\<not> open_opener b bound k" if "k < i" for k
      using True that "2.prems"(3) by (auto simp: open_opener_def)
    ultimately show ?thesis using "2.prems"(2) by (metis linorder_neqE_nat Suc_leI)
  next
    case False
    then have c: "\<not> (b ! i = 7 \<or> 0 < i \<and> b ! (i - 1) = 27 \<and> b ! i = 92)"
      by (auto simp: osc_terminator_def)
    with "2.prems"(1) have d: "\<not> (i + 1 < bound \<and> b ! i = 27 \<and> b ! (i + 1) = 93)"
      and rec: "osc_scan b bound i (n + 1) = (None, m)"
      by (auto split: if_splits)
    have "\<forall>k. i \<le> k \<longrightarrow> \<not> open_opener b bound k"
      using "2.prems"(2) d by (metis Suc_leI le_neq_implies_less open_opener_def)
    then show ?thesis using "2.IH" [OF c d rec] "2.prems"(3) by simp
  qed
qed

lemma open_opener_bound: "open_opener b bound j \<Longrightarrow> j < bound"
  by (simp add: open_opener_def)

lemma open_osc_start_spec:
  assumes "open_osc_start s bound = (found, s')"
  shows "case found of
           None \<Rightarrow> \<forall>j. \<not> open_opener (sb_buf s) bound j
         | Some j \<Rightarrow> open_opener (sb_buf s) bound j \<and> (\<forall>k. open_opener (sb_buf s) bound k \<longrightarrow> k \<le> j)"
    and "sb_buf s' = sb_buf s" and "sb_non_whitespace_bytes s' = sb_non_whitespace_bytes s"
proof -
  obtain n where scan: "osc_scan (sb_buf s) bound bound 0 = (found, n)"
    using assms by (auto simp: open_osc_start_def split: prod.splits)
  have none: "\<forall>k\<ge>bound. \<not> open_opener (sb_buf s) bound k"
    by (auto dest: open_opener_bound)
  show "case found of
           None \<Rightarrow> \<forall>j. \<not> open_opener (sb_buf s) bound j
         | Some j \<Rightarrow> open_opener (sb_buf s) bound j \<and> (\<forall>k. open_opener (sb_buf s) bound k \<longrightarrow> k \<le> j)"
  proof (cases found)
    case None
    with scan osc_scan_none [OF _ none] show ?thesis by auto
  next
    case (Some j)
    with scan osc_scan_found [OF _ _ none] show ?thesis by fastforce
  qed
  show "sb_buf s' = sb_buf s" and "sb_non_whitespace_bytes s' = sb_non_whitespace_bytes s"
    using assms by (auto simp: open_osc_start_def split: prod.splits)
qed

text \<open>
  The bytes of a line window are the requested lines, preceded only when an OSC sequence is open at
  the boundary by that sequence's opener and hidden prefix.
\<close>

definition window_context :: "byte list \<Rightarrow> nat \<Rightarrow> byte list \<Rightarrow> bool" where
  "window_context b bound ctx \<longleftrightarrow>
     (if \<exists>j. open_opener b bound j
      then \<exists>j. open_opener b bound j \<and> (\<forall>k. open_opener b bound k \<longrightarrow> k \<le> j) \<and>
             ctx = take (bound - j) (drop j b)
      else ctx = [])"

definition line_total :: "byte list \<Rightarrow> nat" where
  "line_total b = (if b = [] then 0 else length (raw_lines b))"

definition window_last :: "byte list \<Rightarrow> nat option \<Rightarrow> nat" where
  "window_last b e = min (case e of None \<Rightarrow> line_total b | Some l \<Rightarrow> l) (line_total b)"

definition line_window :: "byte list \<Rightarrow> nat \<Rightarrow> nat \<Rightarrow> byte list" where
  "line_window b first_line last_line =
     concat (take (last_line - first_line) (drop first_line (raw_lines b)))"

lemma take_drop_split:
  assumes "i \<le> j" and "j \<le> l"
  shows "take (l - i) (drop i xs) = take (j - i) (drop i xs) @ take (l - j) (drop j xs)"
proof -
  have "take (l - i) (drop i xs) = take (j - i) (drop i xs) @ take (l - i - (j - i)) (drop (j - i) (drop i xs))"
    using assms by (metis diff_le_mono le_add_diff_inverse take_add)
  then show ?thesis using assms by simp
qed

lemma snapshot_lines_ok:
  fixes s :: scrollback and k :: nat and e :: "nat option"
  assumes inv: "sb_inv s"
  defines "last_line \<equiv> window_last (sb_buf s) e"
  defines "first_line \<equiv> last_line - k"
  shows "\<exists>snap s' ctx. snapshot_lines s k e = Some (snap, s') \<and>
     ls_total_lines snap = line_total (sb_buf s) \<and>
     ls_start_line snap = first_line \<and> ls_end_line snap = last_line \<and>
     ls_bytes snap = ctx @ line_window (sb_buf s) first_line last_line \<and>
     window_context (sb_buf s) (line_pos (sb_buf s) first_line) ctx \<and>
     ls_retained_has_non_whitespace snap = (\<exists>b \<in> set (sb_buf s). \<not> is_ascii_whitespace b)"
proof -
  let ?b = "sb_buf s" and ?rs = "sb_stream_offset s - length (sb_buf s)"
  define s1 where "s1 = s\<lparr>sb_line_snapshot_calls := (sb_line_snapshot_calls s + 1) mod (u64_max + 1)\<rparr>"
  have s1: "sb_buf s1 = ?b" "sb_newlines s1 = sb_newlines s" "sb_stream_offset s1 = sb_stream_offset s"
    "sb_non_whitespace_bytes s1 = sb_non_whitespace_bytes s" "sb_inv s1"
    using inv by (simp_all add: s1_def sb_inv_def)
  have tot: "(if sb_buf s1 = [] then 0 else length (sb_newlines s1) + 1) = line_total ?b"
    using inv length_raw_lines [of ?b ?rs] by (simp add: line_total_def s1 sb_inv_def)
  have pos: "line_start s1 l ?rs = line_pos ?b l" for l
    using line_start_eq [OF s1(5), of l] s1 by simp
  obtain found s' where osc: "open_osc_start s1 (line_pos ?b first_line) = (found, s')"
    by fastforce
  note spec = open_osc_start_spec [OF osc]
  define ctx0 where "ctx0 = (case found of None \<Rightarrow> line_pos ?b first_line | Some i \<Rightarrow> i)"
  have c0: "ctx0 \<le> line_pos ?b first_line"
    using spec(1) by (auto simp: ctx0_def dest!: open_opener_bound split: option.splits)
  have fl: "line_pos ?b first_line \<le> line_pos ?b last_line"
    by (simp add: line_pos_mono first_line_def)
  let ?ctx = "take (line_pos ?b first_line - ctx0) (drop ctx0 ?b)"
  have "take (line_pos ?b last_line - ctx0) (drop ctx0 ?b) =
      ?ctx @ take (line_pos ?b last_line - line_pos ?b first_line) (drop (line_pos ?b first_line) ?b)"
    using c0 fl by (rule take_drop_split)
  also have "take (line_pos ?b last_line - line_pos ?b first_line) (drop (line_pos ?b first_line) ?b) =
      line_window ?b first_line last_line"
    using concat_slice [of first_line last_line "raw_lines ?b"]
    by (simp add: line_pos_def first_line_def line_window_def)
  finally have bytes: "copy_range s' ctx0 (line_pos ?b last_line) =
      Some (?ctx @ line_window ?b first_line last_line)"
    using c0 fl line_pos_le [of ?b last_line] by (simp add: copy_range_def spec(2) s1)
  have ctx: "window_context ?b (line_pos ?b first_line) ?ctx"
    using spec(1) by (auto simp: window_context_def ctx0_def s1 split: option.splits)
  have "snapshot_lines s k e = Some (\<lparr>ls_bytes = ?ctx @ line_window ?b first_line last_line,
      ls_total_lines = line_total ?b, ls_start_line = first_line, ls_end_line = last_line,
      ls_retained_has_non_whitespace = 0 < sb_non_whitespace_bytes s'\<rparr>, s')"
    unfolding snapshot_lines_def s1_def [symmetric] Let_def tot
    using osc bytes
    by (cases found) (simp_all add: s1 pos window_last_def [symmetric] last_line_def [symmetric]
        first_line_def [symmetric] ctx0_def)
  then show ?thesis
    using ctx spec(3) inv by (auto simp: s1 non_ws_pos sb_inv_def)
qed


section \<open>Properties\<close>

lemmas sb_eval = sb_push_def sb_clear_def sb_new_def checked_add_u64_def u64_max_def Let_def
  newline_offsets_def non_ws_def is_ascii_whitespace_def

lemma run_opt_sb_total:
  "sb_stream_offset s + (\<Sum>x\<leftarrow>ops. case x of Push d \<Rightarrow> length d | Clear \<Rightarrow> 0) \<le> u64_max \<Longrightarrow>
     \<exists>s'. run_opt sb_step s ops = Some s'"
proof (induction ops arbitrary: s)
  case Nil
  then show ?case by simp
next
  case (Cons x ops)
  show ?case
  proof (cases "sb_step s x")
    case None
    with Cons.prems show ?thesis by (cases x) (auto simp: sb_push_None)
  next
    case (Some s')
    then have "sb_stream_offset s' = sb_stream_offset s + (case x of Push d \<Rightarrow> length d | Clear \<Rightarrow> 0)"
      by (cases x) (auto simp: sb_clear_def sb_push_offset)
    with Cons.IH [of s'] Some Cons.prems show ?thesis by simp
  qed
qed

lemma snapshot_refines:
  assumes "sb_refines s (h, c)"
  shows "positioned_snapshot s k =
     Some \<lparr>oc_bytes = drop (max (max c (length h - sb_max_bytes s)) (length h - k)) h,
       oc_start_offset = max (max c (length h - sb_max_bytes s)) (length h - k),
       oc_end_offset = length h\<rparr>"
proof -
  let ?m = "sb_max_bytes s"
  from assms have b: "sb_buf s = drop (max c (length h - ?m)) h" and off: "sb_stream_offset s = length h"
    and c: "c \<le> length h" by simp_all
  have "length (sb_buf s) - k + max c (length h - ?m) = max (max c (length h - ?m)) (length h - k)"
    using c by (auto simp: b max_def)
  then have "drop (length (sb_buf s) - k) (sb_buf s) = drop (max (max c (length h - ?m)) (length h - k)) h"
    using b by (simp add: add.commute)
  moreover have "snapshot_tail s k = Some (drop (length (sb_buf s) - k) (sb_buf s))"
    by (simp add: snapshot_tail_def copy_range_def)
  ultimately show ?thesis
    using off c by (simp add: positioned_snapshot_def)
qed

text \<open>
  C5. The bounded ring loses nothing it promises to keep: after any sequence of appended chunks and
  clears starting from an empty ring, a positioned snapshot of at most \<open>k\<close> bytes is exactly the
  part of the whole stream from the later of the last clear, the byte budget and \<open>k\<close>, and it carries
  the absolute position of those bytes in the stream.
\<close>

theorem positioned_snapshot_of_stream:
  assumes "run_opt sb_step (sb_new m) ops = Some s"
    and "foldl history_step ([], 0) ops = (h, c)"
  shows "positioned_snapshot s k =
     Some \<lparr>oc_bytes = drop (max (max c (length h - m)) (length h - k)) h,
       oc_start_offset = max (max c (length h - m)) (length h - k),
       oc_end_offset = length h\<rparr>"
proof -
  have m: "sb_max_bytes s = m" using sb_run_max_bytes [OF assms(1)] by (simp add: sb_new_def)
  have "sb_refines s (h, c)" using sb_run_refines [OF assms(1)] assms(2) by simp
  from snapshot_refines [OF this, of k] m show ?thesis by simp
qed

theorem positioned_snapshot_of_stream_witness:
  "positioned_snapshot (the (run_opt sb_step (sb_new 2) [Push [97, 10, 98], Clear, Push [99, 100, 101]])) 1 =
     Some \<lparr>oc_bytes = [101], oc_start_offset = 5, oc_end_offset = 6\<rparr>"
proof -
  let ?ops = "[Push [97, 10, 98], Clear, Push [99, 100, 101]]"
  have run: "run_opt sb_step (sb_new 2) ?ops = Some (the (run_opt sb_step (sb_new 2) ?ops))"
    by (simp add: sb_eval)
  have hist: "foldl history_step ([], 0) ?ops = ([97, 10, 98, 99, 100, 101], 3)"
    by simp
  show ?thesis using positioned_snapshot_of_stream [OF run hist, of 1] by simp
qed

text \<open>
  C7. The ring never panics while the process has produced fewer than \<open>2 ^ 64\<close> bytes, and then its
  memory is bounded by the budget with its indexes exact: every run of operations whose chunks fit
  the stream counter succeeds and ends in a state that satisfies the invariant.
\<close>

theorem scrollback_run_total:
  assumes "(\<Sum>x\<leftarrow>ops. case x of Push d \<Rightarrow> length d | Clear \<Rightarrow> 0) \<le> u64_max"
  shows "\<exists>s. run_opt sb_step (sb_new m) ops = Some s \<and> sb_inv s \<and> length (sb_buf s) \<le> m"
proof -
  obtain s where s: "run_opt sb_step (sb_new m) ops = Some s"
    using run_opt_sb_total [of "sb_new m" ops] assms by (auto simp: sb_new_def)
  obtain h c where "foldl history_step ([], 0) ops = (h, c)" by fastforce
  then have "sb_inv s" using sb_run_refines [OF s] by simp
  moreover have "sb_max_bytes s = m" using sb_run_max_bytes [OF s] by (simp add: sb_new_def)
  ultimately show ?thesis using s by (auto simp: sb_inv_def)
qed

theorem scrollback_run_total_witness:
  "\<exists>s. run_opt sb_step (sb_new 4) [Push [1, 2, 3], Push [4, 10, 6], Clear, Push [7]] = Some s \<and>
     sb_inv s \<and> length (sb_buf s) \<le> 4"
  by (rule scrollback_run_total) (simp add: u64_max_def)

text \<open>
  C6. A line window read through the newline index is the requested window of the retained lines:
  it ends at the requested line (or the newest), holds at most \<open>k\<close> lines, reports the number of
  retained lines, and its bytes are those lines, preceded only by the hidden prefix of an OSC
  sequence that is still open at the window's first byte. It never panics.
\<close>

theorem snapshot_lines_window:
  assumes "sb_inv s"
  shows "\<exists>snap s' ctx. snapshot_lines s k e = Some (snap, s') \<and>
     ls_total_lines snap = line_total (sb_buf s) \<and>
     ls_start_line snap = window_last (sb_buf s) e - k \<and> ls_end_line snap = window_last (sb_buf s) e \<and>
     ls_bytes snap = ctx @ line_window (sb_buf s) (ls_start_line snap) (ls_end_line snap) \<and>
     window_context (sb_buf s) (line_pos (sb_buf s) (ls_start_line snap)) ctx \<and>
     ls_retained_has_non_whitespace snap = (\<exists>b \<in> set (sb_buf s). \<not> is_ascii_whitespace b)"
  using snapshot_lines_ok [OF assms, of k e] by fastforce

theorem snapshot_lines_window_witness:
  "\<exists>snap s' ctx. snapshot_lines (the (sb_push (sb_new 8) [97, 10, 98, 10, 99])) 1 (Some 2) = Some (snap, s') \<and>
     ls_total_lines snap = 3 \<and> ls_start_line snap = 1 \<and> ls_end_line snap = 2 \<and>
     ls_bytes snap = ctx @ [98, 10]"
proof -
  let ?s = "the (sb_push (sb_new 8) [97, 10, 98, 10, 99])"
  have "sb_push (sb_new 8) [97, 10, 98, 10, 99] = Some ?s" by (simp add: sb_eval)
  then have inv: "sb_inv ?s" by (rule sb_push_inv [OF sb_inv_new])
  have b: "sb_buf ?s = [97, 10, 98, 10, 99]" by (simp add: sb_eval)
  have l: "raw_lines (sb_buf ?s) = [[97, 10], [98, 10], [99]]" by (simp add: b)
  have w: "window_last (sb_buf ?s) (Some 2) = 2" and t: "line_total (sb_buf ?s) = 3"
    by (simp_all add: window_last_def line_total_def l b)
  obtain snap s' ctx where "snapshot_lines ?s 1 (Some 2) = Some (snap, s')"
    "ls_total_lines snap = 3" "ls_start_line snap = 1" "ls_end_line snap = 2"
    "ls_bytes snap = ctx @ line_window (sb_buf ?s) (ls_start_line snap) (ls_end_line snap)"
    using snapshot_lines_window [OF inv, of 1 "Some 2"] unfolding w t by auto
  then show ?thesis by (intro exI [of _ snap] exI [of _ s'] exI [of _ ctx]) (simp add: line_window_def l)
qed

end
