(* ===== verification/Json.thy ===== *)
theory Json
  imports Prelude
begin

text \<open>
  The JSON values the daemon passes around (\<open>serde_json::Value\<close> with insertion-ordered objects) and
  the accessors the components use, and the \<open>Event\<close> of \<open>crates/intent-core/src/model.rs\<close>.

  An object is the association list of its members in insertion order: inserting an existing key
  replaces the value in place, a new key is appended, and removing a key moves the last member into
  the hole. Keys are byte strings, string values are Rust text.
\<close>

section \<open>Values\<close>

datatype jnum = PosInt nat | NegInt int | Float "64 word"

datatype json =
    JNull
  | JBool bool
  | JNum jnum
  | JStr rtext
  | JArr "json list"
  | JObj "(string \<times> json) list"

type_synonym jmap = "(string \<times> json) list"

fun json_get :: "json \<Rightarrow> string \<Rightarrow> json option" where
  "json_get (JObj m) k = map_of m k"
| "json_get _ k = None"

fun as_str :: "json \<Rightarrow> rtext option" where
  "as_str (JStr s) = Some s"
| "as_str _ = None"

fun as_u64 :: "json \<Rightarrow> nat option" where
  "as_u64 (JNum (PosInt n)) = Some n"
| "as_u64 _ = None"

fun as_array :: "json \<Rightarrow> json list option" where
  "as_array (JArr xs) = Some xs"
| "as_array _ = None"

fun as_object :: "json \<Rightarrow> jmap option" where
  "as_object (JObj m) = Some m"
| "as_object _ = None"

definition get_str :: "json \<Rightarrow> string \<Rightarrow> rtext option" where
  "get_str v k = Option.bind (json_get v k) as_str"

abbreviation jnat :: "nat \<Rightarrow> json" where
  "jnat n \<equiv> JNum (PosInt n)"

section \<open>Objects\<close>

fun obj_insert :: "string \<Rightarrow> json \<Rightarrow> jmap \<Rightarrow> jmap" where
  "obj_insert k v [] = [(k, v)]"
| "obj_insert k v ((k', v') # m) = (if k' = k then (k, v) # m else (k', v') # obj_insert k v m)"

fun obj_remove :: "string \<Rightarrow> jmap \<Rightarrow> jmap" where
  "obj_remove k [] = []"
| "obj_remove k ((k', v') # m) =
     (if k' = k then (if m = [] then [] else last m # butlast m) else (k', v') # obj_remove k m)"

fun json_insert :: "string \<Rightarrow> json \<Rightarrow> json \<Rightarrow> json" where
  "json_insert k v (JObj m) = JObj (obj_insert k v m)"
| "json_insert k v j = j"

definition obj_wf :: "jmap \<Rightarrow> bool" where
  "obj_wf m \<longleftrightarrow> distinct (map fst m)"

lemma map_of_obj_insert [simp]: "map_of (obj_insert k v m) = (map_of m)(k \<mapsto> v)"
  by (induction m) (auto simp: fun_eq_iff)

lemma obj_insert_idem [simp]: "obj_insert k v (obj_insert k w m) = obj_insert k v m"
  by (induction m) auto

lemma obj_insert_same: "map_of m k = Some v \<Longrightarrow> obj_insert k v m = m"
  by (induction m) auto

lemma fst_set_obj_insert [simp]: "fst ` set (obj_insert k v m) = insert k (fst ` set m)"
proof (induction m)
  case Nil
  then show ?case by simp
next
  case (Cons p m)
  then show ?case by (cases p) (simp add: insert_commute)
qed

lemma obj_wf_insert [simp]: "obj_wf m \<Longrightarrow> obj_wf (obj_insert k v m)"
  unfolding obj_wf_def
proof (induction m)
  case Nil
  then show ?case by simp
next
  case (Cons p m)
  then show ?case by (cases p) auto
qed

lemma set_last_butlast: "m \<noteq> [] \<Longrightarrow> set (last m # butlast m) = set m"
  by (induction m) auto

lemma distinct_last_butlast: "m \<noteq> [] \<Longrightarrow> distinct (map fst (last m # butlast m)) = distinct (map fst m)"
  by (cases m rule: rev_cases) auto

lemma set_obj_remove:
  "obj_wf m \<Longrightarrow> set (obj_remove k m) = {p \<in> set m. fst p \<noteq> k}"
proof (induction m)
  case Nil
  then show ?case by simp
next
  case (Cons p m)
  obtain k' v' where p: "p = (k', v')" by fastforce
  show ?case
  proof (cases "k' = k")
    case True
    with Cons.prems p have "\<forall>q \<in> set m. fst q \<noteq> k" by (auto simp: obj_wf_def)
    with True p show ?thesis
      using set_last_butlast [of m] by auto
  next
    case False
    with Cons p show ?thesis by (auto simp: obj_wf_def)
  qed
qed

lemma obj_wf_remove [simp]: "obj_wf m \<Longrightarrow> obj_wf (obj_remove k m)"
proof (induction m)
  case Nil
  then show ?case by simp
next
  case (Cons p m)
  obtain k' v' where p: "p = (k', v')" by fastforce
  have wf: "obj_wf m" using Cons.prems by (simp add: obj_wf_def)
  show ?case
  proof (cases "k' = k")
    case True
    with wf p show ?thesis
      using distinct_last_butlast [of m] by (auto simp: obj_wf_def)
  next
    case False
    with Cons wf p set_obj_remove [OF wf, of k] show ?thesis
      by (auto simp: obj_wf_def)
  qed
qed

lemma map_of_obj_remove [simp]: "obj_wf m \<Longrightarrow> map_of (obj_remove k m) = (map_of m)(k := None)"
proof
  fix k'
  assume wf: "obj_wf m"
  then have d: "distinct (map fst (obj_remove k m))" "distinct (map fst m)"
    using obj_wf_remove [OF wf, of k] by (simp_all add: obj_wf_def)
  show "map_of (obj_remove k m) k' = ((map_of m)(k := None)) k'"
  proof (cases "k' = k")
    case True
    then show ?thesis
      using set_obj_remove [OF wf, of k] by (auto simp: map_of_eq_None_iff)
  next
    case False
    then have "map_of (obj_remove k m) k' = Some v \<longleftrightarrow> map_of m k' = Some v" for v
      using set_obj_remove [OF wf, of k] d by (auto simp: map_of_eq_Some_iff)
    then show ?thesis using False by (cases "map_of m k'") (auto intro: option.expand)
  qed
qed

section \<open>Events\<close>

datatype actor_type = ActorUser | ActorAgent | ActorSystem | ActorExternal | ActorTool

record event_actor =
  ea_actor_type :: actor_type
  ea_id :: "rtext option"
  ea_name :: "rtext option"
  ea_email :: "rtext option"
  ea_model :: "rtext option"
  ea_metadata :: "json option"

record event =
  ev_id :: rtext
  ev_workspace_id :: rtext
  ev_timestamp :: rtext
  ev_event_type :: rtext
  ev_actor :: event_actor
  ev_session_id :: "rtext option"
  ev_correlation_id :: "rtext option"
  ev_parent_event_id :: "rtext option"
  ev_metadata :: "json option"
  ev_data :: json

end
