(* ===== verification/Conflate.thy ===== *)
theory Conflate
  imports Json Transition "HOL-Library.Sublist"
begin

text \<open>
  The ordered conflation buffer of \<open>crates/intent-transport/src/conflate.rs\<close>: a FIFO of pending
  entries with a key index, merging same-key items in place. The \<open>Conflate\<close> trait is the contract
  \<open>conflatable\<close>: the operations \<open>merge\<close> and \<open>cost\<close> with the laws an implementation must keep; the
  buffer's lemmas are proved once under it and used by both implementations (\<open>ConflateItems\<close>).

  \<open>None\<close> is the panic of an index out of range. The entry counter wraps at \<open>2 ^ 64\<close> as in a release
  build.
\<close>

section \<open>Keys\<close>

datatype key =
    Activity rtext
  | Terminal rtext rtext
  | File rtext rtext
  | ChatBlock rtext

definition MAX_PENDING_ENTRIES :: nat where
  "MAX_PENDING_ENTRIES = 256"

definition MAX_PENDING_BYTES :: nat where
  "MAX_PENDING_BYTES = 8 * 1024 * 1024"

section \<open>The buffer\<close>

text \<open>An entry is \<open>(id, key, cost, item)\<close>.\<close>

type_synonym 't entry = "nat \<times> key \<times> nat \<times> 't"

record 't conflation_buffer =
  cb_entries :: "'t entry list"
  cb_index :: "key \<Rightarrow> nat option"
  cb_next_id :: nat
  cb_cost :: nat
  cb_max_entries :: nat
  cb_max_bytes :: nat

definition cb_bounded :: "nat \<Rightarrow> nat \<Rightarrow> 't conflation_buffer" where
  "cb_bounded max_entries max_bytes =
     \<lparr>cb_entries = [], cb_index = (\<lambda>_. None), cb_next_id = 0, cb_cost = 0,
      cb_max_entries = max_entries, cb_max_bytes = max_bytes\<rparr>"

definition cb_new :: "'t conflation_buffer" where
  "cb_new = cb_bounded MAX_PENDING_ENTRIES MAX_PENDING_BYTES"

definition cb_is_empty :: "'t conflation_buffer \<Rightarrow> bool" where
  "cb_is_empty b \<longleftrightarrow> cb_entries b = []"

definition cb_alloc :: "'t conflation_buffer \<Rightarrow> nat \<times> 't conflation_buffer" where
  "cb_alloc b = (let n = (cb_next_id b + 1) mod (u64_max + 1) in (n, b\<lparr>cb_next_id := n\<rparr>))"

text \<open>The common tail of \<open>push\<close>: allocate an id, append the entry and make it the key's merge target.\<close>

definition cb_append :: "('t \<Rightarrow> nat) \<Rightarrow> key \<Rightarrow> 't \<Rightarrow> 't conflation_buffer \<Rightarrow> 't conflation_buffer" where
  "cb_append cost key item b =
     (let (n, b') = cb_alloc b in
      b'\<lparr>cb_cost := cb_cost b' + cost item,
         cb_entries := cb_entries b' @ [(n, key, cost item, item)],
         cb_index := (cb_index b')(key \<mapsto> n)\<rparr>)"

text \<open>
  \<open>push\<close>: the handed-back item, if any, and the new buffer. \<open>merge\<close> returns the merged item and the
  refused newer one. The ids ascend, so \<open>partition_point\<close> is the length of the prefix of smaller ids.
\<close>

definition cb_push ::
  "('t \<Rightarrow> 't \<Rightarrow> 't \<times> 't option) \<Rightarrow> ('t \<Rightarrow> nat) \<Rightarrow> key \<Rightarrow> 't \<Rightarrow> 't conflation_buffer
     \<Rightarrow> ('t option \<times> 't conflation_buffer) option" where
  "cb_push merge cost key item b =
     (if cb_cost b + cost item > cb_max_bytes b then Some (Some item, b)
      else case cb_index b key of
        Some i \<Rightarrow>
          (let pos = length (takeWhile (\<lambda>e. fst e < i) (cb_entries b)) in
           if pos < length (cb_entries b) then
             (case cb_entries b ! pos of (eid, ekey, ecost, cur) \<Rightarrow>
              (case merge cur item of
                 (cur', None) \<Rightarrow>
                   Some (None, b\<lparr>cb_cost := cb_cost b - ecost + cost cur',
                                 cb_entries := (cb_entries b)[pos := (eid, ekey, cost cur', cur')]\<rparr>)
               | (cur', Some refused) \<Rightarrow>
                   (let b' = b\<lparr>cb_entries := (cb_entries b)[pos := (eid, ekey, ecost, cur')]\<rparr> in
                    if length (cb_entries b') \<ge> cb_max_entries b' then Some (Some refused, b')
                    else Some (None, cb_append cost key refused b'))))
           else None)
      | None \<Rightarrow>
          if length (cb_entries b) \<ge> cb_max_entries b then Some (Some item, b)
          else Some (None, cb_append cost key item b))"

definition cb_pop :: "'t conflation_buffer \<Rightarrow> ('t \<times> 't conflation_buffer) option" where
  "cb_pop b =
     (case cb_entries b of
        [] \<Rightarrow> None
      | (i, key, cost, item) # rest \<Rightarrow>
          Some (item, b\<lparr>cb_entries := rest, cb_cost := cb_cost b - cost,
                        cb_index := (if cb_index b key = Some i then (cb_index b)(key := None)
                                     else cb_index b)\<rparr>))"

text \<open>
  The outbound lane is a bounded channel of the async runtime. \<open>send\<close> waits for room and delivers the
  frame, or returns \<open>None\<close> when the receiver is gone; \<open>try_reserve\<close> answers at once.
\<close>

datatype 'l reserve = Reserved 'l | LaneFull | LaneClosed

lemma cb_pop_length: "cb_pop b = Some (x, b') \<Longrightarrow> length (cb_entries b') < length (cb_entries b)"
  by (auto simp: cb_pop_def split: list.splits prod.splits)

function drain_all ::
  "('l \<Rightarrow> 'f \<Rightarrow> 'l option) \<Rightarrow> ('t \<Rightarrow> 'f) \<Rightarrow> 't conflation_buffer \<Rightarrow> 'l
     \<Rightarrow> bool \<times> 't conflation_buffer \<times> 'l" where
  "drain_all send build b lane =
     (case cb_pop b of
        None \<Rightarrow> (True, b, lane)
      | Some (item, b') \<Rightarrow>
          (case send lane (build item) of
             None \<Rightarrow> (False, b', lane)
           | Some lane' \<Rightarrow> drain_all send build b' lane'))"
  by pat_completeness auto
termination
  by (relation "measure (\<lambda>(_, _, b, _). length (cb_entries b))") (auto dest: cb_pop_length)

declare drain_all.simps [simp del]

datatype 't enqueue = Sent | Buffered | Overflow 't | Closed

definition offer ::
  "('t \<Rightarrow> 't \<Rightarrow> 't \<times> 't option) \<Rightarrow> ('t \<Rightarrow> nat) \<Rightarrow> ('l \<Rightarrow> 'f \<Rightarrow> 'l reserve) \<Rightarrow> ('t \<Rightarrow> 'f)
     \<Rightarrow> 't conflation_buffer \<Rightarrow> key \<Rightarrow> 't \<Rightarrow> 'l \<Rightarrow> ('t enqueue \<times> 't conflation_buffer \<times> 'l) option" where
  "offer merge cost reserve_send build b key item lane =
     (case (if cb_is_empty b then reserve_send lane (build item) else LaneFull) of
        Reserved lane' \<Rightarrow> Some (Sent, b, lane')
      | LaneClosed \<Rightarrow> Some (Closed, b, lane)
      | LaneFull \<Rightarrow>
          (case cb_push merge cost key item b of
             None \<Rightarrow> None
           | Some (None, b') \<Rightarrow> Some (Buffered, b', lane)
           | Some (Some rejected, b') \<Rightarrow> Some (Overflow rejected, b', lane)))"

section \<open>Invariant\<close>

text \<open>The id of the last entry of a key, which is the one \<open>index\<close> must name.\<close>

fun last_id :: "key \<Rightarrow> 't entry list \<Rightarrow> nat option" where
  "last_id k [] = None"
| "last_id k ((i, k', _, _) # es) =
     (case last_id k es of Some j \<Rightarrow> Some j | None \<Rightarrow> if k' = k then Some i else None)"

abbreviation entry_key :: "'t entry \<Rightarrow> key" where
  "entry_key e \<equiv> fst (snd e)"

abbreviation entry_cost :: "'t entry \<Rightarrow> nat" where
  "entry_cost e \<equiv> fst (snd (snd e))"

abbreviation entry_item :: "'t entry \<Rightarrow> 't" where
  "entry_item e \<equiv> snd (snd (snd e))"

definition cb_inv :: "('t \<Rightarrow> nat) \<Rightarrow> 't conflation_buffer \<Rightarrow> bool" where
  "cb_inv cost b \<longleftrightarrow>
     sorted_wrt (<) (map fst (cb_entries b)) \<and>
     (\<forall>e \<in> set (cb_entries b). fst e \<le> cb_next_id b \<and> entry_cost e = cost (entry_item e)) \<and>
     (\<forall>k. cb_index b k = last_id k (cb_entries b)) \<and>
     cb_cost b = sum_list (map entry_cost (cb_entries b)) \<and>
     length (cb_entries b) \<le> cb_max_entries b"

lemma last_id_append:
  "last_id k (es @ es') = (case last_id k es' of Some j \<Rightarrow> Some j | None \<Rightarrow> last_id k es)"
  by (induction es) (auto split: option.splits)

lemma last_id_SomeD:
  "last_id k es = Some i \<Longrightarrow>
     \<exists>p c x. p < length es \<and> es ! p = (i, k, c, x) \<and> (\<forall>q. p < q \<longrightarrow> q < length es \<longrightarrow> entry_key (es ! q) \<noteq> k)"
proof (induction es)
  case Nil
  then show ?case by simp
next
  case (Cons e es)
  obtain i' k' c' x' where e: "e = (i', k', c', x')" by (cases e) auto
  show ?case
  proof (cases "last_id k es")
    case None
    then have no: "\<forall>q < length es. entry_key (es ! q) \<noteq> k"
      by (induction es) (auto simp: nth_Cons split: option.splits if_splits nat.splits)
    with Cons.prems e None show ?thesis
      by - (rule exI [of _ 0], auto simp: nth_Cons split: if_splits nat.splits)
  next
    case (Some j)
    with Cons e obtain p c x where "p < length es" "es ! p = (i, k, c, x)"
      "\<forall>q. p < q \<longrightarrow> q < length es \<longrightarrow> entry_key (es ! q) \<noteq> k"
      by auto
    then show ?thesis
      by - (rule exI [of _ "Suc p"], auto simp: nth_Cons split: nat.splits)
  qed
qed

lemma last_id_update:
  "p < length es \<Longrightarrow> es ! p = (i, k', c, x) \<Longrightarrow> last_id k (es[p := (i, k', c', x')]) = last_id k es"
proof (induction es arbitrary: p)
  case Nil
  then show ?case by simp
next
  case (Cons e es)
  then show ?case by (cases p; cases e) (auto split: option.splits)
qed

lemma cb_inv_bounded [simp]: "cb_inv cost (cb_bounded n m)"
  by (simp add: cb_inv_def cb_bounded_def)

lemma push_target:
  assumes "cb_inv cost b" and "cb_index b k = Some i"
  obtains es1 x es2 where "cb_entries b = es1 @ (i, k, cost x, x) # es2"
    and "length (takeWhile (\<lambda>e. fst e < i) (cb_entries b)) = length es1"
    and "\<forall>e \<in> set es2. entry_key e \<noteq> k"
proof -
  let ?es = "cb_entries b"
  from assms have "last_id k ?es = Some i" by (simp add: cb_inv_def)
  then obtain p c x where p: "p < length ?es" "?es ! p = (i, k, c, x)"
    and later: "\<forall>q. p < q \<longrightarrow> q < length ?es \<longrightarrow> entry_key (?es ! q) \<noteq> k"
    by (blast dest: last_id_SomeD)
  from assms p have c: "c = cost x"
    by (auto simp: cb_inv_def dest!: nth_mem)
  have "length (takeWhile (\<lambda>y. y < map fst ?es ! p) (map fst ?es)) = p"
    using assms p by (intro takeWhile_less_sorted) (auto simp: cb_inv_def)
  then have pos: "length (takeWhile (\<lambda>e. fst e < i) ?es) = p"
    using p by (simp add: takeWhile_map comp_def)
  have split: "?es = take p ?es @ (i, k, cost x, x) # drop (Suc p) ?es"
    using p c id_take_nth_drop by metis
  have "\<forall>e \<in> set (drop (Suc p) ?es). entry_key e \<noteq> k"
  proof
    fix e
    assume "e \<in> set (drop (Suc p) ?es)"
    then obtain q where "q < length ?es - Suc p" "e = ?es ! Suc (p + q)"
      by (auto simp: in_set_conv_nth)
    with later show "entry_key e \<noteq> k" by simp
  qed
  with split pos p show thesis by (intro that) auto
qed

text \<open>The three accepting shapes of \<open>push\<close>, and the rejecting one.\<close>

lemma cb_push_cases:
  assumes "cb_inv cost b"
  obtains
    (over_bytes) "cb_push merge cost k x b = Some (Some x, b)"
      "cb_cost b + cost x > cb_max_bytes b"
  | (full) "cb_push merge cost k x b = Some (Some x, b)"
      "cb_index b k = None" "length (cb_entries b) = cb_max_entries b"
  | (fresh) "cb_push merge cost k x b = Some (None, cb_append cost k x b)"
      "cb_index b k = None" "length (cb_entries b) < cb_max_entries b"
      "cb_cost b + cost x \<le> cb_max_bytes b"
  | (merged) es1 i y es2 y' where
      "cb_push merge cost k x b = Some (None, b\<lparr>cb_cost := cb_cost b - cost y + cost y',
         cb_entries := es1 @ (i, k, cost y', y') # es2\<rparr>)"
      "cb_entries b = es1 @ (i, k, cost y, y) # es2" "\<forall>e \<in> set es2. entry_key e \<noteq> k"
      "merge y x = (y', None)" "cb_cost b + cost x \<le> cb_max_bytes b"
  | (refused_full) es1 i y es2 y' r where
      "cb_push merge cost k x b = Some (Some r, b\<lparr>cb_entries := es1 @ (i, k, cost y, y') # es2\<rparr>)"
      "cb_entries b = es1 @ (i, k, cost y, y) # es2"
      "merge y x = (y', Some r)"
  | (sealed) es1 i y es2 y' r where
      "cb_push merge cost k x b =
         Some (None, cb_append cost k r (b\<lparr>cb_entries := es1 @ (i, k, cost y, y') # es2\<rparr>))"
      "cb_entries b = es1 @ (i, k, cost y, y) # es2"
      "length (cb_entries b) < cb_max_entries b"
      "merge y x = (y', Some r)" "cb_cost b + cost x \<le> cb_max_bytes b"
proof (cases "cb_cost b + cost x > cb_max_bytes b")
  case True
  then show thesis by (intro over_bytes) (simp_all add: cb_push_def)
next
  case fits: False
  show thesis
  proof (cases "cb_index b k")
    case None
    show thesis
    proof (cases "length (cb_entries b) \<ge> cb_max_entries b")
      case True
      with assms fits None show thesis
        by (intro full) (auto simp: cb_push_def cb_inv_def)
    next
      case False
      with fits None show thesis by (intro fresh) (simp_all add: cb_push_def)
    qed
  next
    case (Some i)
    with assms obtain es1 y es2 where es: "cb_entries b = es1 @ (i, k, cost y, y) # es2"
      and pos: "length (takeWhile (\<lambda>e. fst e < i) (cb_entries b)) = length es1"
      and later: "\<forall>e \<in> set es2. entry_key e \<noteq> k"
      by (rule push_target)
    note unfold = cb_push_def Let_def Some pos [unfolded es] es
    obtain y' r where m: "merge y x = (y', r)" by fastforce
    show thesis
    proof (cases r)
      case None
      with fits m show thesis
        by - (rule merged [OF _ es later], simp_all add: unfold)
    next
      case (Some r')
      show thesis
      proof (cases "length (cb_entries b) \<ge> cb_max_entries b")
        case True
        with fits m Some show thesis
          by - (rule refused_full [OF _ es], simp_all add: unfold)
      next
        case False
        with fits m Some show thesis
          by - (rule sealed [OF _ es], simp_all add: unfold)
      qed
    qed
  qed
qed

lemma append_inv:
  assumes "cb_inv cost b" "length (cb_entries b) < cb_max_entries b" "cb_next_id b < u64_max"
  shows "cb_inv cost (cb_append cost k x b)"
  using assms
  by (auto simp: cb_inv_def cb_append_def cb_alloc_def Let_def sorted_wrt_append last_id_append
      less_Suc_eq_le le_SucI)

lemma replace_inv:
  assumes "cb_inv cost b" "cb_entries b = es1 @ (i, k, cost y, y) # es2"
  shows "cb_inv cost (b\<lparr>cb_cost := cb_cost b - cost y + cost y',
           cb_entries := es1 @ (i, k, cost y', y') # es2\<rparr>)"
proof -
  have "last_id k' (es1 @ (i, k, cost y', y') # es2) = last_id k' (cb_entries b)" for k'
    using assms(2) by (simp add: last_id_append)
  with assms show ?thesis by (auto simp: cb_inv_def sorted_wrt_append)
qed

lemma pop_inv: "cb_inv cost b \<Longrightarrow> cb_pop b = Some (x, b') \<Longrightarrow> cb_inv cost b'"
proof -
  assume inv: "cb_inv cost b" and pop: "cb_pop b = Some (x, b')"
  from pop obtain i k c rest where es: "cb_entries b = (i, k, c, x) # rest"
    and b': "b' = b\<lparr>cb_entries := rest, cb_cost := cb_cost b - c,
      cb_index := (if cb_index b k = Some i then (cb_index b)(k := None) else cb_index b)\<rparr>"
    by (auto simp: cb_pop_def split: list.splits)
  have later: "last_id k rest = Some j \<Longrightarrow> i < j" for j
    using inv es by (auto simp: cb_inv_def dest!: last_id_SomeD) (metis fst_conv nth_mem)
  have "cb_index b' k' = last_id k' rest" for k'
    using inv es b' later by (cases "last_id k rest") (fastforce simp: cb_inv_def split: option.splits)+
  then show ?thesis using inv es b' by (auto simp: cb_inv_def)
qed

section \<open>What conflation promises\<close>

text \<open>
  Content of a run of items merged in order, and the abstract specification: the frames are the
  accepted pushes grouped. Every frame stands for one group of same-key pushes, its content is the
  content of the group merged in arrival order, each key's groups in order are all its pushes, and
  the frames are in the order their first pushes arrived.
\<close>

definition group_content :: "('t \<Rightarrow> 'm) \<Rightarrow> ('m \<Rightarrow> 'm \<Rightarrow> 'm) \<Rightarrow> 't list \<Rightarrow> 'm" where
  "group_content content comb g = foldl (\<lambda>m x. comb m (content x)) (content (hd g)) (tl g)"

definition groups_of :: "key \<Rightarrow> (key \<times> 'a list) list \<Rightarrow> 'a list" where
  "groups_of k gs = concat (map snd (filter (\<lambda>g. fst g = k) gs))"

definition items_of :: "key \<Rightarrow> (key \<times> 'a) list \<Rightarrow> 'a list" where
  "items_of k xs = map snd (filter (\<lambda>x. fst x = k) xs)"

definition conflates ::
  "('t \<Rightarrow> 'm) \<Rightarrow> ('m \<Rightarrow> 'm \<Rightarrow> 'm) \<Rightarrow> (key \<times> 't) list \<Rightarrow> (key \<times> 't) list \<Rightarrow> bool" where
  "conflates content comb accepted frames \<longleftrightarrow>
     (\<exists>gs. list_all2 (\<lambda>f g. fst f = fst g \<and> snd g \<noteq> [] \<and>
                       content (snd f) = group_content content comb (snd g)) frames gs \<and>
           subseq (map (\<lambda>g. (fst g, hd (snd g))) gs) accepted \<and>
           (\<forall>k. groups_of k gs = items_of k accepted))"

lemma group_content_single [simp]: "group_content content comb [x] = content x"
  by (simp add: group_content_def)

lemma group_content_snoc [simp]:
  "g \<noteq> [] \<Longrightarrow> group_content content comb (g @ [x]) = comb (group_content content comb g) (content x)"
  by (simp add: group_content_def)

lemma groups_of_simps [simp]:
  "groups_of k [] = []"
  "groups_of k (g # gs) = (if fst g = k then snd g else []) @ groups_of k gs"
  "groups_of k (gs @ hs) = groups_of k gs @ groups_of k hs"
  by (simp_all add: groups_of_def)

lemma items_of_simps [simp]:
  "items_of k [] = []"
  "items_of k (x # xs) = (if fst x = k then [snd x] else []) @ items_of k xs"
  "items_of k (xs @ ys) = items_of k xs @ items_of k ys"
  by (simp_all add: items_of_def)

lemma groups_of_none: "\<forall>g \<in> set gs. fst g \<noteq> k \<Longrightarrow> groups_of k gs = []"
  by (induction gs) auto

lemma conflates_Nil [simp]: "conflates content comb [] []"
  by (auto simp: conflates_def intro!: exI [of _ "[]"])

lemma conflates_append:
  assumes "conflates content comb acc fs" "content r = content x"
  shows "conflates content comb (acc @ [(k, x)]) (fs @ [(k, r)])"
proof -
  from assms(1) obtain gs where
    "list_all2 (\<lambda>f g. fst f = fst g \<and> snd g \<noteq> [] \<and>
       content (snd f) = group_content content comb (snd g)) fs gs"
    "subseq (map (\<lambda>g. (fst g, hd (snd g))) gs) acc" "\<forall>k. groups_of k gs = items_of k acc"
    by (auto simp: conflates_def)
  with assms(2) show ?thesis
    unfolding conflates_def
    by (intro exI [of _ "gs @ [(k, [x])]"]) (auto simp: list_all2_appendI list_emb_append_mono)
qed

lemma conflates_merge:
  assumes "conflates content comb acc (fs1 @ (k, y) # fs2)"
    and later: "\<forall>f \<in> set fs2. fst f \<noteq> k"
    and y': "content y' = comb (content y) (content x)"
  shows "conflates content comb (acc @ [(k, x)]) (fs1 @ (k, y') # fs2)"
proof -
  let ?P = "\<lambda>f g. fst f = fst g \<and> snd g \<noteq> [] \<and> content (snd f) = group_content content comb (snd g)"
  from assms(1) obtain gs where gs: "list_all2 ?P (fs1 @ (k, y) # fs2) gs"
    and sub: "subseq (map (\<lambda>g. (fst g, hd (snd g))) gs) acc"
    and all: "\<forall>k. groups_of k gs = items_of k acc"
    by (auto simp: conflates_def)
  from gs obtain gs1 g gs2 where split: "gs = gs1 @ g # gs2"
    and l1: "list_all2 ?P fs1 gs1" and g: "?P (k, y) g" and l2: "list_all2 ?P fs2 gs2"
    by (auto simp: list_all2_append1 list_all2_Cons1)
  from l2 later have "\<forall>g' \<in> set gs2. fst g' \<noteq> k"
    by (induction rule: list_all2_induct) auto
  then have none: "groups_of k gs2 = []" by (rule groups_of_none)
  let ?gs = "gs1 @ (k, snd g @ [x]) # gs2"
  have "list_all2 ?P (fs1 @ (k, y') # fs2) ?gs"
    using l1 l2 g y' by (auto intro!: list_all2_appendI)
  moreover have "subseq (map (\<lambda>g. (fst g, hd (snd g))) ?gs) (acc @ [(k, x)])"
    using sub split g by (auto intro: subseq_rev_drop_many)
  moreover have "groups_of k' ?gs = items_of k' (acc @ [(k, x)])" for k'
    using all [rule_format, of k'] split g none by (cases "k' = k") auto
  ultimately show ?thesis unfolding conflates_def by blast
qed

text \<open>
  Two readings of the specification. A part of the content that composes by appending is delivered
  whole and in order, whatever the grouping; a part where the newest wins ends at the newest push.
\<close>

lemma conflates_stream:
  assumes con: "conflates content comb acc frames"
    and hom: "\<And>a b. h (comb a b) = h a @ h b"
  shows "concat (map (h \<circ> content) (items_of k frames)) = concat (map (h \<circ> content) (items_of k acc))"
proof -
  have group: "h (group_content content comb g) = concat (map (h \<circ> content) g)" if "g \<noteq> []" for g
    using that
  proof (induction g rule: rev_induct)
    case (snoc x g)
    then show ?case by (cases "g = []") (simp_all add: hom)
  qed simp
  from con obtain gs where gs: "list_all2 (\<lambda>f g. fst f = fst g \<and> snd g \<noteq> [] \<and>
       content (snd f) = group_content content comb (snd g)) frames gs"
    and all: "groups_of k gs = items_of k acc"
    by (auto simp: conflates_def)
  from gs have "concat (map (h \<circ> content) (items_of k frames)) = concat (map (h \<circ> content) (groups_of k gs))"
    by (induction rule: list_all2_induct) (auto simp: group comp_def)
  then show ?thesis by (simp add: all)
qed

lemma conflates_newest:
  assumes con: "conflates content comb acc frames"
    and newest: "\<And>a b. p (comb a b) = p b"
    and "items_of k acc \<noteq> []"
  shows "items_of k frames \<noteq> [] \<and> p (content (last (items_of k frames))) = p (content (last (items_of k acc)))"
proof -
  have group: "p (group_content content comb g) = p (content (last g))" if "g \<noteq> []" for g
    using that
  proof (induction g rule: rev_induct)
    case (snoc x g)
    then show ?case by (cases "g = []") (simp_all add: newest)
  qed simp
  from con obtain gs where gs: "list_all2 (\<lambda>f g. fst f = fst g \<and> snd g \<noteq> [] \<and>
       content (snd f) = group_content content comb (snd g)) frames gs"
    and all: "groups_of k gs = items_of k acc"
    by (auto simp: conflates_def)
  from gs have "(items_of k frames = [] \<longleftrightarrow> groups_of k gs = []) \<and> (groups_of k gs \<noteq> [] \<longrightarrow>
      p (content (last (items_of k frames))) = p (content (last (groups_of k gs))))"
    by (induction rule: list_all2_induct) (auto simp: group)
  then show ?thesis using assms(3) by (simp add: all)
qed

section \<open>Runs of the buffer\<close>

text \<open>
  A run interleaves pushes and pops. Beside the buffer it records the pushes that were accepted and
  the items popped, each with its entry's key.
\<close>

datatype 't cb_op = OpPush key 't | OpPop

type_synonym 't cb_trace = "'t conflation_buffer \<times> (key \<times> 't) list \<times> (key \<times> 't) list"

fun cb_step ::
  "('t \<Rightarrow> 't \<Rightarrow> 't \<times> 't option) \<Rightarrow> ('t \<Rightarrow> nat) \<Rightarrow> 't cb_trace \<Rightarrow> 't cb_op \<Rightarrow> 't cb_trace option" where
  "cb_step merge cost (b, acc, del) (OpPush k x) =
     (case cb_push merge cost k x b of
        None \<Rightarrow> None
      | Some (None, b') \<Rightarrow> Some (b', acc @ [(k, x)], del)
      | Some (Some _, b') \<Rightarrow> Some (b', acc, del))"
| "cb_step merge cost (b, acc, del) OpPop =
     (case cb_pop b of
        None \<Rightarrow> Some (b, acc, del)
      | Some (x, b') \<Rightarrow> Some (b', acc, del @ [(entry_key (hd (cb_entries b)), x)]))"

definition pending :: "'t conflation_buffer \<Rightarrow> (key \<times> 't) list" where
  "pending b = map (\<lambda>e. (entry_key e, entry_item e)) (cb_entries b)"

definition pushes_ok :: "('t \<Rightarrow> bool) \<Rightarrow> 't cb_op list \<Rightarrow> bool" where
  "pushes_ok fresh ops \<longleftrightarrow> list_all (\<lambda>p. case p of OpPush k x \<Rightarrow> fresh x | OpPop \<Rightarrow> True) ops"

lemma pending_append [simp]: "pending (cb_append cost k x b) = pending b @ [(k, x)]"
  by (simp add: pending_def cb_append_def cb_alloc_def Let_def)

lemma cb_step_bounds:
  "cb_step merge cost (b, acc, del) p = Some (b', acc', del') \<Longrightarrow>
     cb_max_entries b' = cb_max_entries b \<and> cb_max_bytes b' = cb_max_bytes b"
  by (cases p) (auto simp: cb_push_def cb_pop_def cb_append_def cb_alloc_def Let_def
      split: option.splits list.splits if_splits prod.splits)

lemma cb_run_bounds:
  "run_opt (cb_step merge cost) (b, acc, del) ops = Some (b', acc', del') \<Longrightarrow>
     cb_max_entries b' = cb_max_entries b \<and> cb_max_bytes b' = cb_max_bytes b"
proof (induction ops arbitrary: b acc del)
  case Nil
  then show ?case by simp
next
  case (Cons p ops)
  then obtain t where t: "cb_step merge cost (b, acc, del) p = Some t"
    and run: "run_opt (cb_step merge cost) t ops = Some (b', acc', del')"
    by (auto split: option.splits)
  obtain b1 acc1 del1 where "t = (b1, acc1, del1)" by (cases t) auto
  with t run Cons.IH cb_step_bounds show ?case by metis
qed

text \<open>
  The contract of the \<open>Conflate\<close> trait. \<open>content\<close> is what an item says to its receiver and \<open>comb\<close> how
  two contents of one key compose; \<open>ok\<close> holds of the pending items and \<open>fresh\<close> of the pushed ones. A
  merge composes the contents, and a refusal leaves the pending item alone and hands back an item of
  the same content.
\<close>

locale conflatable =
  fixes merge :: "'t \<Rightarrow> 't \<Rightarrow> 't \<times> 't option"
    and cost :: "'t \<Rightarrow> nat"
    and ok :: "'t \<Rightarrow> bool"
    and fresh :: "'t \<Rightarrow> bool"
    and content :: "'t \<Rightarrow> 'm"
    and comb :: "'m \<Rightarrow> 'm \<Rightarrow> 'm"
  assumes fresh_ok: "fresh x \<Longrightarrow> ok x"
    and merge_content: "ok y \<Longrightarrow> fresh x \<Longrightarrow> merge y x = (y', None) \<Longrightarrow>
      ok y' \<and> content y' = comb (content y) (content x)"
    and merge_refused: "ok y \<Longrightarrow> fresh x \<Longrightarrow> merge y x = (y', Some r) \<Longrightarrow>
      y' = y \<and> ok r \<and> content r = content x"
begin

definition live :: "'t conflation_buffer \<Rightarrow> (key \<times> 't) list \<Rightarrow> (key \<times> 't) list \<Rightarrow> bool" where
  "live b acc del \<longleftrightarrow>
     cb_inv cost b \<and> (\<forall>e \<in> set (cb_entries b). ok (entry_item e)) \<and>
     conflates content comb acc (del @ pending b)"

lemma live_push:
  assumes live: "live b acc del" and fresh: "fresh x" and next_id: "cb_next_id b < u64_max"
  shows "\<exists>r b'. cb_push merge cost k x b = Some (r, b') \<and> cb_next_id b' \<le> Suc (cb_next_id b) \<and>
    live b' (if r = None then acc @ [(k, x)] else acc) del"
proof -
  from live have inv: "cb_inv cost b" and oks: "\<forall>e \<in> set (cb_entries b). ok (entry_item e)"
    and con: "conflates content comb acc (del @ pending b)" by (auto simp: live_def)
  have next_append: "cb_next_id (cb_append cost k x' b) \<le> Suc (cb_next_id b)" for x'
    by (simp add: cb_append_def cb_alloc_def Let_def)
  have live_append: "live (cb_append cost k x' b) (acc @ [(k, x)]) del"
    if "length (cb_entries b) < cb_max_entries b" "ok x'" "content x' = content x" for x'
    using that oks append_inv [OF inv _ next_id] conflates_append [OF con]
    by (auto simp: live_def cb_append_def cb_alloc_def Let_def pending_def)
  from inv show ?thesis
  proof (cases rule: cb_push_cases [where merge = merge and k = k and x = x])
    case over_bytes
    then show ?thesis using live by auto
  next
    case full
    then show ?thesis using live by auto
  next
    case fresh
    then show ?thesis using live_append next_append fresh_ok assms(2) by simp
  next
    case (merged es1 i y es2 y')
    then have y': "ok y'" "content y' = comb (content y) (content x)"
      using oks merge_content [OF _ assms(2)] by auto
    have "live (b\<lparr>cb_cost := cb_cost b - cost y + cost y',
        cb_entries := es1 @ (i, k, cost y', y') # es2\<rparr>) (acc @ [(k, x)]) del"
      using merged y' oks con replace_inv [OF inv merged(2)]
        conflates_merge [where ?fs1.0 = "del @ map (\<lambda>e. (entry_key e, entry_item e)) es1"
          and ?fs2.0 = "map (\<lambda>e. (entry_key e, entry_item e)) es2" and x = x and y' = y'
          and acc = acc and k = k and y = y]
      by (auto simp: live_def pending_def)
    with merged show ?thesis by simp
  next
    case (refused_full es1 i y es2 y' r)
    then have "y' = y" using oks merge_refused [OF _ assms(2)] by auto
    moreover have "b\<lparr>cb_entries := es1 @ (i, k, cost y, y) # es2\<rparr> = b"
      by (simp flip: refused_full(2))
    ultimately show ?thesis using refused_full(1) live by auto
  next
    case (sealed es1 i y es2 y' r)
    then have "y' = y" "ok r" "content r = content x"
      using oks merge_refused [OF _ assms(2)] by auto
    moreover have "b\<lparr>cb_entries := es1 @ (i, k, cost y, y) # es2\<rparr> = b"
      by (simp flip: sealed(2))
    ultimately have "cb_push merge cost k x b = Some (None, cb_append cost k r b)"
      and "ok r" "content r = content x" using sealed(1) by simp_all
    then show ?thesis using sealed(3) live_append [of r] next_append [of r] by simp
  qed
qed

lemma live_pop:
  assumes "live b acc del"
  shows "\<exists>t. cb_step merge cost (b, acc, del) OpPop = Some t \<and>
    cb_next_id (fst t) = cb_next_id b \<and> fst (snd t) = acc \<and> live (fst t) acc (snd (snd t))"
proof (cases "cb_pop b")
  case None
  with assms show ?thesis by simp
next
  case (Some r)
  then obtain x b' where pop: "cb_pop b = Some (x, b')" by (cases r) auto
  then obtain i k c where es: "cb_entries b = (i, k, c, x) # cb_entries b'"
    and id': "cb_next_id b' = cb_next_id b"
    by (auto simp: cb_pop_def split: list.splits)
  with assms pop pop_inv [of cost b x b'] show ?thesis
    by (auto simp: live_def pending_def)
qed

lemma run_live:
  assumes "live b acc del" and "pushes_ok fresh ops" and "cb_next_id b + length ops \<le> u64_max"
  shows "\<exists>b' acc' del'. run_opt (cb_step merge cost) (b, acc, del) ops = Some (b', acc', del') \<and>
    live b' acc' del'"
  using assms
proof (induction ops arbitrary: b acc del)
  case Nil
  then show ?case by auto
next
  case (Cons p ops)
  show ?case
  proof (cases p)
    case (OpPush k x)
    with Cons.prems obtain r b1 where "cb_push merge cost k x b = Some (r, b1)"
      "cb_next_id b1 \<le> Suc (cb_next_id b)" "live b1 (if r = None then acc @ [(k, x)] else acc) del"
      using live_push [of b acc del x k] by (auto simp: pushes_ok_def)
    with Cons OpPush show ?thesis by (cases r) (auto simp: pushes_ok_def)
  next
    case OpPop
    obtain b1 del1 where step: "cb_step merge cost (b, acc, del) OpPop = Some (b1, acc, del1)"
      and "cb_next_id b1 = cb_next_id b" "live b1 acc del1"
      using live_pop [OF Cons.prems(1)] by auto
    with Cons.prems OpPop Cons.IH [of b1 acc del1] show ?thesis
      by (auto simp: pushes_ok_def simp del: cb_step.simps)
  qed
qed

lemma run_conflates:
  assumes "pushes_ok fresh ops" and "length ops \<le> u64_max"
  shows "\<exists>b acc del. run_opt (cb_step merge cost) (cb_bounded n m, [], []) ops = Some (b, acc, del) \<and>
    cb_inv cost b \<and> length (cb_entries b) \<le> n \<and> conflates content comb acc (del @ pending b)"
proof -
  have "live (cb_bounded n m) [] []" by (simp add: live_def pending_def) (simp add: cb_bounded_def)
  with run_live [OF this assms(1)] assms(2) obtain b acc del
    where run: "run_opt (cb_step merge cost) (cb_bounded n m, [], []) ops = Some (b, acc, del)"
      and "live b acc del"
    by (auto simp: cb_bounded_def)
  then have "cb_inv cost b" "conflates content comb acc (del @ pending b)" by (auto simp: live_def)
  moreover have "cb_max_entries b = n"
    using cb_run_bounds [OF run] by (simp add: cb_bounded_def)
  ultimately show ?thesis using run by (auto simp: cb_inv_def)
qed

end

text \<open>
  A costed implementation also promises that merging never costs more than the two items did, and
  that a refused item costs no more than it did. The byte bound rests on it, since \<open>push\<close> checks the
  cost of the item before the merge.
\<close>

locale conflatable_costed = conflatable merge cost ok fresh content comb
  for merge :: "'t \<Rightarrow> 't \<Rightarrow> 't \<times> 't option" and cost ok fresh
    and content :: "'t \<Rightarrow> 'm" and comb :: "'m \<Rightarrow> 'm \<Rightarrow> 'm" +
  assumes merged_cost: "ok y \<Longrightarrow> fresh x \<Longrightarrow> merge y x = (y', None) \<Longrightarrow> cost y' \<le> cost y + cost x"
    and refused_cost: "ok y \<Longrightarrow> fresh x \<Longrightarrow> merge y x = (y', Some r) \<Longrightarrow> cost r \<le> cost x"
begin

lemma push_cost:
  assumes live: "live b acc del" and fresh: "fresh x" and bound: "cb_cost b \<le> cb_max_bytes b"
    and push: "cb_push merge cost k x b = Some (r, b')"
  shows "cb_cost b' \<le> cb_max_bytes b'"
proof -
  from live have inv: "cb_inv cost b" and oks: "\<forall>e \<in> set (cb_entries b). ok (entry_item e)"
    by (auto simp: live_def)
  from inv show ?thesis
  proof (cases rule: cb_push_cases [where merge = merge and k = k and x = x])
    case (merged es1 i y es2 y')
    with oks inv have "cost y' \<le> cost y + cost x" "cost y \<le> cb_cost b"
      using merged_cost [OF _ assms(2)] by (auto simp: cb_inv_def)
    with merged push show ?thesis by auto
  next
    case (sealed es1 i y es2 y' r')
    with oks have "cost r' \<le> cost x" using refused_cost [OF _ assms(2)] by auto
    with sealed push show ?thesis by (auto simp: cb_append_def cb_alloc_def Let_def)
  qed (use push bound in \<open>auto simp: cb_append_def cb_alloc_def Let_def\<close>)
qed

lemma run_cost:
  assumes "live b acc del" and "pushes_ok fresh ops" and "cb_next_id b + length ops \<le> u64_max"
    and "cb_cost b \<le> cb_max_bytes b"
    and "run_opt (cb_step merge cost) (b, acc, del) ops = Some (b', acc', del')"
  shows "cb_cost b' \<le> cb_max_bytes b'"
  using assms
proof (induction ops arbitrary: b acc del)
  case Nil
  then show ?case by simp
next
  case (Cons p ops)
  show ?case
  proof (cases p)
    case (OpPush k x)
    with Cons.prems obtain r b1 where push: "cb_push merge cost k x b = Some (r, b1)"
      and b1: "cb_next_id b1 \<le> Suc (cb_next_id b)" "live b1 (if r = None then acc @ [(k, x)] else acc) del"
      using live_push [of b acc del x k] by (auto simp: pushes_ok_def)
    have "cb_cost b1 \<le> cb_max_bytes b1"
      using push_cost [OF Cons.prems(1) _ Cons.prems(4) push] Cons.prems(2) OpPush
      by (simp add: pushes_ok_def)
    with b1 push Cons.prems OpPush show ?thesis
      by (cases r) (auto simp: pushes_ok_def intro: Cons.IH)
  next
    case OpPop
    obtain b1 del1 where step: "cb_step merge cost (b, acc, del) OpPop = Some (b1, acc, del1)"
      and b1: "cb_next_id b1 = cb_next_id b" "live b1 acc del1"
      using live_pop [OF Cons.prems(1)] by auto
    have "cb_cost b1 \<le> cb_max_bytes b1"
      using step Cons.prems(4) by (auto simp: cb_pop_def split: option.splits list.splits)
    with step b1 Cons.prems OpPop Cons.IH [of b1 acc del1] show ?thesis
      by (auto simp: pushes_ok_def simp del: cb_step.simps)
  qed
qed

lemma run_bounded:
  assumes "pushes_ok fresh ops" and "length ops \<le> u64_max"
    and "run_opt (cb_step merge cost) (cb_bounded n m, [], []) ops = Some (b, acc, del)"
  shows "cb_cost b \<le> m"
proof -
  have "live (cb_bounded n m) [] []" by (simp add: live_def pending_def) (simp add: cb_bounded_def)
  from run_cost [OF this assms(1) _ _ assms(3)] assms(2) cb_run_bounds [OF assms(3)]
  show ?thesis by (simp add: cb_bounded_def)
qed

end

section \<open>Draining\<close>

text \<open>
  What the lane has delivered is observed by \<open>sent\<close>; a successful send appends its frame there.
\<close>

lemma drain_all_sends:
  assumes send: "\<And>l f l'. send l f = Some l' \<Longrightarrow> sent l' = sent l @ [f]"
    and "drain_all send build b lane = (flushed, b', lane')"
  shows "\<exists>n. sent lane' = sent lane @ map (build \<circ> snd) (take n (pending b)) \<and>
    (if flushed then n = length (pending b) \<and> cb_entries b' = []
     else pending b' = drop (Suc n) (pending b) \<and> n < length (pending b))"
  using assms(2)
proof (induction "length (cb_entries b)" arbitrary: b lane)
  case 0
  then show ?case by (simp add: drain_all.simps [of send build b] cb_pop_def pending_def)
next
  case (Suc m)
  then obtain i k c x rest where es: "cb_entries b = (i, k, c, x) # rest"
    by (metis length_Suc_conv prod_cases4)
  then obtain b1 where pop: "cb_pop b = Some (x, b1)" and b1: "cb_entries b1 = rest"
    by (auto simp: cb_pop_def)
  show ?case
  proof (cases "send lane (build x)")
    case None
    with Suc.prems pop b1 es show ?thesis
      by (subst (asm) drain_all.simps) (auto simp: pending_def intro!: exI [of _ 0])
  next
    case (Some lane1)
    with Suc.prems pop have "drain_all send build b1 lane1 = (flushed, b', lane')"
      by (subst (asm) drain_all.simps) simp
    with Suc.hyps b1 es obtain n where
      n: "sent lane' = sent lane1 @ map (build \<circ> snd) (take n (pending b1))"
        "if flushed then n = length (pending b1) \<and> cb_entries b' = []
         else pending b' = drop (Suc n) (pending b1) \<and> n < length (pending b1)"
      by fastforce
    have "pending b = (k, x) # pending b1" using es b1 by (simp add: pending_def)
    with n send [OF Some] show ?thesis by (intro exI [of _ "Suc n"]) (auto split: if_splits)
  qed
qed

end
