(* ===== verification/ConflateItems.thy ===== *)
theory ConflateItems
  imports Conflate
begin

text \<open>
  The two implementations of the conflation contract in
  \<open>crates/intent-transport/src/conflate.rs\<close>: bus events (latest wins, or terminal bytes appended
  with their stream ranges) and chat block deltas (full text latest wins, or text fragments
  appended, with the media sidecar united). Base64 and JSON printing are parameters.
\<close>

section \<open>Event keys\<close>

definition TERMINAL_CONCAT_CAP_BYTES :: nat where
  "TERMINAL_CONCAT_CAP_BYTES = 256 * 1024"

definition CHAT_TEXT_CONCAT_CAP_BYTES :: nat where
  "CHAT_TEXT_CONCAT_CAP_BYTES = 256 * 1024"

definition AGENT_STREAM_ACTIVITY :: rtext where
  "AGENT_STREAM_ACTIVITY = lit ''agent:stream:activity''"

definition CHAT_STREAM_DELTA :: rtext where
  "CHAT_STREAM_DELTA = lit ''chat:stream:delta''"

definition TERMINAL_DATA :: rtext where
  "TERMINAL_DATA = lit ''terminal:data''"

definition FILE_PREFIX :: rtext where
  "FILE_PREFIX = lit ''file:''"

definition str_field :: "json \<Rightarrow> string \<Rightarrow> rtext option" where
  "str_field data name = get_str data name"

definition event_key :: "event \<Rightarrow> key option" where
  "event_key e =
     (let t = ev_event_type e in
      if t = AGENT_STREAM_ACTIVITY then
        map_option Activity (case ev_session_id e of Some s \<Rightarrow> Some s | None \<Rightarrow> str_field (ev_data e) ''agentId'')
      else if t = TERMINAL_DATA then
        map_option (Terminal (ev_workspace_id e)) (str_field (ev_data e) ''terminalId'')
      else if take (length FILE_PREFIX) t = FILE_PREFIX then
        map_option (File (ev_workspace_id e)) (str_field (ev_data e) ''path'')
      else None)"

section \<open>Payload size\<close>

fun approx_size :: "json \<Rightarrow> nat" where
  "approx_size JNull = 8"
| "approx_size (JBool _) = 8"
| "approx_size (JNum _) = 8"
| "approx_size (JStr s) = str_len s + 8"
| "approx_size (JArr xs) = sum_list (map approx_size xs) + 8"
| "approx_size (JObj m) = sum_list (map (\<lambda>(k, v). length k + approx_size v) m) + 8"

section \<open>Terminal cursors\<close>

datatype cursor = Legacy | Positioned rtext nat nat | Invalid

definition cursor_offset :: "json \<Rightarrow> string \<Rightarrow> nat option" where
  "cursor_offset data k =
     (case get_str data k of
        None \<Rightarrow> None
      | Some t \<Rightarrow> if t = [] \<or> \<not> list_all is_ascii_digit t then None else parse_u64 t)"

definition terminal_cursor :: "json \<Rightarrow> nat \<Rightarrow> cursor" where
  "terminal_cursor data byte_len =
     (if list_all (\<lambda>k. json_get data k = None) [''daemonBootId'', ''startOffset'', ''endOffset''] then Legacy
      else case get_str data ''daemonBootId'' of
        None \<Rightarrow> Invalid
      | Some boot \<Rightarrow>
          if boot = [] then Invalid
          else case (cursor_offset data ''startOffset'', cursor_offset data ''endOffset'') of
            (Some start, Some stop) \<Rightarrow>
              if (if start \<le> stop then Some (stop - start) else None) \<noteq> Some byte_len then Invalid
              else Positioned boot start stop
          | _ \<Rightarrow> Invalid)"

section \<open>Bus events\<close>

datatype event_item = Latest event | TerminalItem event "byte list option"

fun event_of :: "event_item \<Rightarrow> event" where
  "event_of (Latest e) = e"
| "event_of (TerminalItem e _) = e"

definition event_item_new :: "(rtext \<Rightarrow> byte list option) \<Rightarrow> key \<Rightarrow> event \<Rightarrow> event_item" where
  "event_item_new b64_decode key e =
     (case key of
        Terminal _ _ \<Rightarrow> TerminalItem e (Option.bind (get_str (ev_data e) ''chunk'') b64_decode)
      | _ \<Rightarrow> Latest e)"

fun frame_event :: "(byte list \<Rightarrow> rtext) \<Rightarrow> event_item \<Rightarrow> event" where
  "frame_event b64_encode (Latest e) = e"
| "frame_event b64_encode (TerminalItem e None) = e"
| "frame_event b64_encode (TerminalItem e (Some bs)) =
     (case ev_data e of
        JObj m \<Rightarrow> e\<lparr>ev_data := JObj (obj_insert ''chunk'' (JStr (b64_encode bs)) m)\<rparr>
      | _ \<Rightarrow> e)"

definition opt_member :: "string \<Rightarrow> ('a \<Rightarrow> json) \<Rightarrow> 'a option \<Rightarrow> jmap" where
  "opt_member k f v = (case v of None \<Rightarrow> [] | Some x \<Rightarrow> [(k, f x)])"

fun actor_type_text :: "actor_type \<Rightarrow> rtext" where
  "actor_type_text ActorUser = lit ''user''"
| "actor_type_text ActorAgent = lit ''agent''"
| "actor_type_text ActorSystem = lit ''system''"
| "actor_type_text ActorExternal = lit ''external''"
| "actor_type_text ActorTool = lit ''tool''"

definition actor_json :: "event_actor \<Rightarrow> json" where
  "actor_json a =
     JObj ([(''type'', JStr (actor_type_text (ea_actor_type a)))] @
       opt_member ''id'' JStr (ea_id a) @ opt_member ''name'' JStr (ea_name a) @
       opt_member ''email'' JStr (ea_email a) @ opt_member ''model'' JStr (ea_model a) @
       opt_member ''metadata'' id (ea_metadata a))"

definition build_event_notification :: "(json \<Rightarrow> rtext) \<Rightarrow> rtext \<Rightarrow> event \<Rightarrow> rtext" where
  "build_event_notification to_string subscription_id e =
     to_string (JObj [(''jsonrpc'', JStr (lit ''2.0'')), (''method'', JStr (lit ''events.event'')),
       (''params'', JObj [(''subscriptionId'', JStr subscription_id),
         (''event'', JObj [(''type'', JStr (ev_event_type e)), (''workspaceId'', JStr (ev_workspace_id e)),
            (''id'', JStr (ev_id e)), (''timestamp'', JStr (ev_timestamp e)),
            (''actor'', actor_json (ev_actor e)), (''data'', ev_data e)])])])"

definition event_into_frame ::
  "(byte list \<Rightarrow> rtext) \<Rightarrow> (json \<Rightarrow> rtext) \<Rightarrow> rtext \<Rightarrow> event_item \<Rightarrow> rtext" where
  "event_into_frame b64_encode to_string subscription_id item =
     build_event_notification to_string subscription_id (frame_event b64_encode item)"

fun event_cost :: "event_item \<Rightarrow> nat" where
  "event_cost (Latest e) = approx_size (ev_data e)"
| "event_cost (TerminalItem e (Some bs)) = length bs"
| "event_cost (TerminalItem e None) = approx_size (ev_data e)"

fun event_merge :: "event_item \<Rightarrow> event_item \<Rightarrow> event_item \<times> event_item option" where
  "event_merge (Latest pend) (Latest newer) = (Latest newer, None)"
| "event_merge (TerminalItem e (Some acc)) (TerminalItem e' (Some add)) =
     (if length acc + length add > TERMINAL_CONCAT_CAP_BYTES
      then (TerminalItem e (Some acc), Some (TerminalItem e' (Some add)))
      else case (terminal_cursor (ev_data e) (length acc), terminal_cursor (ev_data e') (length add)) of
        (Legacy, Legacy) \<Rightarrow> (TerminalItem e' (Some (acc @ add)), None)
      | (Positioned boot start stop, Positioned boot' start' _) \<Rightarrow>
          if boot = boot' \<and> stop = start'
          then (TerminalItem (e'\<lparr>ev_data := json_insert ''startOffset'' (JStr (dec_string start)) (ev_data e')\<rparr>)
                  (Some (acc @ add)), None)
          else (TerminalItem e (Some acc), Some (TerminalItem e' (Some add)))
      | _ \<Rightarrow> (TerminalItem e (Some acc), Some (TerminalItem e' (Some add))))"
| "event_merge (TerminalItem e bs) (TerminalItem e' bs') = (TerminalItem e bs, Some (TerminalItem e' None))"
| "event_merge pend newer = (pend, Some newer)"

section \<open>Chat block deltas\<close>

record chat_item =
  ci_added :: bool
  ci_entity :: json

definition chat_from_delta :: "json \<Rightarrow> (key \<times> chat_item) option" where
  "chat_from_delta delta =
     (if Option.bind (json_get delta ''removedIds'') as_array \<noteq> Some [] then None
      else case (Option.bind (json_get delta ''added'') as_array,
                 Option.bind (json_get delta ''updated'') as_array) of
        (Some added_arr, Some updated_arr) \<Rightarrow>
          (case (case (added_arr, updated_arr) of
                   ([entity], []) \<Rightarrow> Some (True, entity)
                 | ([], [entity]) \<Rightarrow> Some (False, entity)
                 | _ \<Rightarrow> None) of
             None \<Rightarrow> None
           | Some (added, entity) \<Rightarrow>
               (case Option.bind (json_get entity ''block'') (\<lambda>b. get_str b ''id'') of
                  None \<Rightarrow> None
                | Some block_id \<Rightarrow> Some (ChatBlock block_id, \<lparr>ci_added = added, ci_entity = entity\<rparr>)))
      | _ \<Rightarrow> None)"

definition chat_into_delta :: "chat_item \<Rightarrow> json" where
  "chat_into_delta item =
     (if ci_added item
      then JObj [(''added'', JArr [ci_entity item]), (''updated'', JArr []), (''removedIds'', JArr [])]
      else JObj [(''added'', JArr []), (''updated'', JArr [ci_entity item]), (''removedIds'', JArr [])])"

definition build_delta_push :: "(json \<Rightarrow> rtext) \<Rightarrow> rtext \<Rightarrow> nat \<Rightarrow> json \<Rightarrow> rtext" where
  "build_delta_push to_string subscription_id seq delta =
     to_string (JObj [(''jsonrpc'', JStr (lit ''2.0'')), (''method'', JStr (lit ''subscription.push'')),
       (''params'', JObj [(''subscriptionId'', JStr subscription_id), (''kind'', JStr (lit ''delta'')),
         (''seq'', jnat seq), (''delta'', delta)])])"

definition chat_into_frame :: "(json \<Rightarrow> rtext) \<Rightarrow> rtext \<Rightarrow> nat \<Rightarrow> chat_item \<Rightarrow> rtext" where
  "chat_into_frame to_string subscription_id seq item =
     build_delta_push to_string subscription_id seq (chat_into_delta item)"

definition text_delta_of :: "json \<Rightarrow> rtext option" where
  "text_delta_of entity =
     (case json_get entity ''block'' of
        None \<Rightarrow> None
      | Some block \<Rightarrow>
          (case get_str block ''type'' of
             Some t \<Rightarrow> if t = lit ''text'' \<or> t = lit ''thinking'' then get_str block ''textDelta'' else None
           | None \<Rightarrow> None))"

definition or_insert :: "jmap \<Rightarrow> string \<times> json \<Rightarrow> jmap" where
  "or_insert acc kv = (if map_of acc (fst kv) = None then obj_insert (fst kv) (snd kv) acc else acc)"

definition union_media_into :: "json \<Rightarrow> jmap \<Rightarrow> json" where
  "union_media_into entity media =
     (case json_get entity ''block'' of
        Some (JObj block) \<Rightarrow>
          (case map_of block ''media'' of
             Some (JObj acc) \<Rightarrow>
               json_insert ''block'' (JObj (obj_insert ''media'' (JObj (foldl or_insert acc media)) block)) entity
           | _ \<Rightarrow> json_insert ''block'' (JObj (obj_insert ''media'' (JObj media) block)) entity)
      | _ \<Rightarrow> entity)"

definition chat_cost :: "chat_item \<Rightarrow> nat" where
  "chat_cost item = approx_size (ci_entity item)"

definition block_media :: "json \<Rightarrow> jmap option" where
  "block_media entity =
     Option.bind (Option.bind (json_get entity ''block'') (\<lambda>b. json_get b ''media'')) as_object"

text \<open>\<open>slot.push_str(&add)\<close> on the pending entity's \<open>block.textDelta\<close>.\<close>

definition push_text_delta :: "rtext \<Rightarrow> json \<Rightarrow> json" where
  "push_text_delta add entity =
     (case json_get entity ''block'' of
        None \<Rightarrow> entity
      | Some block \<Rightarrow>
          (case json_get block ''textDelta'' of
             Some (JStr slot) \<Rightarrow> json_insert ''block'' (json_insert ''textDelta'' (JStr (slot @ add)) block) entity
           | _ \<Rightarrow> entity))"

definition chat_merge :: "chat_item \<Rightarrow> chat_item \<Rightarrow> chat_item \<times> chat_item option" where
  "chat_merge item newer =
     (case (text_delta_of (ci_entity item), text_delta_of (ci_entity newer)) of
        (Some acc, Some add) \<Rightarrow>
          if str_len acc + str_len add > CHAT_TEXT_CONCAT_CAP_BYTES then (item, Some newer)
          else
            (let entity = push_text_delta add (ci_entity item) in
             (item\<lparr>ci_entity := (case block_media (ci_entity newer) of
                                   Some media \<Rightarrow> union_media_into entity media
                                 | None \<Rightarrow> entity)\<rparr>, None))
      | (None, None) \<Rightarrow>
          (item\<lparr>ci_entity := (case block_media (ci_entity item) of
                                Some media \<Rightarrow> union_media_into (ci_entity newer) media
                              | None \<Rightarrow> ci_entity newer)\<rparr>, None)
      | _ \<Rightarrow> (item, Some newer))"

definition chat_event_conflatable :: "event \<Rightarrow> bool" where
  "chat_event_conflatable e \<longleftrightarrow> ev_event_type e = CHAT_STREAM_DELTA"

section \<open>Events are conflatable\<close>

text \<open>
  What an event frame says: the start of its range, its terminal bytes as the receiver decodes them,
  and everything else. Composition keeps the first start, appends the bytes and takes the newest of
  the rest.
\<close>

record event_content =
  ec_start :: "nat option"
  ec_bytes :: "byte list"
  ec_event :: event

definition obj_without :: "string set \<Rightarrow> jmap \<Rightarrow> jmap" where
  "obj_without ks m = filter (\<lambda>p. fst p \<notin> ks) m"

fun json_without :: "string set \<Rightarrow> json \<Rightarrow> json" where
  "json_without ks (JObj m) = JObj (obj_without ks m)"
| "json_without ks j = j"

definition chunk_bytes :: "(rtext \<Rightarrow> byte list option) \<Rightarrow> json \<Rightarrow> byte list option" where
  "chunk_bytes b64_decode data = Option.bind (get_str data ''chunk'') b64_decode"

definition event_says ::
  "(byte list \<Rightarrow> rtext) \<Rightarrow> (rtext \<Rightarrow> byte list option) \<Rightarrow> event_item \<Rightarrow> event_content" where
  "event_says b64_encode b64_decode item =
     (let e = frame_event b64_encode item in
      case item of
        Latest _ \<Rightarrow> \<lparr>ec_start = None, ec_bytes = [], ec_event = e\<rparr>
      | TerminalItem _ _ \<Rightarrow>
          \<lparr>ec_start = cursor_offset (ev_data e) ''startOffset'',
           ec_bytes = (case chunk_bytes b64_decode (ev_data e) of None \<Rightarrow> [] | Some bs \<Rightarrow> bs),
           ec_event = e\<lparr>ev_data := json_without {''chunk'', ''startOffset''} (ev_data e)\<rparr>\<rparr>)"

definition event_comb :: "event_content \<Rightarrow> event_content \<Rightarrow> event_content" where
  "event_comb a b = \<lparr>ec_start = ec_start a, ec_bytes = ec_bytes a @ ec_bytes b, ec_event = ec_event b\<rparr>"

fun event_ok :: "event_item \<Rightarrow> bool" where
  "event_ok (TerminalItem e (Some _)) \<longleftrightarrow> as_object (ev_data e) \<noteq> None"
| "event_ok _ \<longleftrightarrow> True"

fun event_fresh :: "(rtext \<Rightarrow> byte list option) \<Rightarrow> event_item \<Rightarrow> bool" where
  "event_fresh b64_decode (Latest e) \<longleftrightarrow> True"
| "event_fresh b64_decode (TerminalItem e bs) \<longleftrightarrow> bs = chunk_bytes b64_decode (ev_data e)"

lemma event_item_new_fresh: "event_fresh b64_decode (event_item_new b64_decode key e)"
  by (simp add: event_item_new_def chunk_bytes_def split: key.splits)

lemma obj_without_insert [simp]: "k \<in> ks \<Longrightarrow> obj_without ks (obj_insert k v m) = obj_without ks m"
  by (induction m) (auto simp: obj_without_def)

lemma chunk_bytes_object: "chunk_bytes b64_decode data = Some bs \<Longrightarrow> \<exists>m. data = JObj m"
  by (cases data) (auto simp: chunk_bytes_def get_str_def)

lemma cursor_offset_dec_string:
  "n \<le> u64_max \<Longrightarrow> cursor_offset (JObj (obj_insert k (JStr (dec_string n)) m)) k = Some n"
  by (auto simp: cursor_offset_def get_str_def list_all_iff dec_string_digits)

lemma cursor_offset_other [simp]:
  "k \<noteq> k' \<Longrightarrow> cursor_offset (JObj (obj_insert k v m)) k' = cursor_offset (JObj m) k'"
  by (simp add: cursor_offset_def get_str_def)

lemma cursor_offset_le: "cursor_offset data k = Some n \<Longrightarrow> n \<le> u64_max"
  by (auto simp: cursor_offset_def split: option.splits if_splits dest: parse_u64_le)

lemma terminal_cursor_PositionedD:
  assumes "terminal_cursor data n = Positioned boot start stop"
  shows "cursor_offset data ''startOffset'' = Some start \<and> cursor_offset data ''endOffset'' = Some stop \<and>
    get_str data ''daemonBootId'' = Some boot \<and> boot \<noteq> [] \<and> stop = start + n"
  using assms by (auto simp: terminal_cursor_def Let_def split: if_splits option.splits)

lemma terminal_cursor_LegacyD:
  "terminal_cursor data n = Legacy \<Longrightarrow> cursor_offset data ''startOffset'' = None"
  by (auto simp: terminal_cursor_def cursor_offset_def get_str_def split: if_splits option.splits)

lemma event_frame_bytes:
  assumes "\<And>bs. b64_decode (b64_encode bs) = Some bs"
  shows "event_says b64_encode b64_decode (TerminalItem (e\<lparr>ev_data := JObj m\<rparr>) (Some bs)) =
    \<lparr>ec_start = cursor_offset (JObj m) ''startOffset'', ec_bytes = bs,
     ec_event = e\<lparr>ev_data := JObj (obj_without {''chunk'', ''startOffset''} m)\<rparr>\<rparr>"
  using assms by (simp add: event_says_def chunk_bytes_def get_str_def)

text \<open>
  A fresh item says the same with its decoded bytes and without them: a refused merge that drops the
  decoded bytes loses nothing, since the event still carries the chunk.
\<close>

lemma event_says_verbatim:
  assumes "\<And>bs. b64_decode (b64_encode bs) = Some bs" and "event_fresh b64_decode (TerminalItem e bs)"
  shows "event_says b64_encode b64_decode (TerminalItem e bs) =
    event_says b64_encode b64_decode (TerminalItem e None)"
proof (cases bs)
  case None
  then show ?thesis by simp
next
  case (Some b)
  with assms(2) obtain m where m: "ev_data e = JObj m"
    using chunk_bytes_object [of b64_decode "ev_data e" b] by auto
  with Some assms show ?thesis
    by (auto simp: event_says_def chunk_bytes_def get_str_def split: option.splits)
qed

lemma event_fresh_ok: "event_fresh b64_decode x \<Longrightarrow> event_ok x"
proof -
  assume fresh: "event_fresh b64_decode x"
  show "event_ok x"
  proof (cases "\<exists>e bs. x = TerminalItem e (Some bs)")
    case True
    then obtain e bs where x: "x = TerminalItem e (Some bs)" by blast
    with fresh have "chunk_bytes b64_decode (ev_data e) = Some bs" by simp
    with x show ?thesis using chunk_bytes_object by fastforce
  next
    case False
    then show ?thesis by (cases x rule: event_ok.cases) auto
  qed
qed

lemma event_merge_Some_cases:
  assumes "event_merge (TerminalItem e (Some acc)) (TerminalItem e' (Some add)) = (y', r)"
  obtains
    (refused) "y' = TerminalItem e (Some acc)" "r = Some (TerminalItem e' (Some add))"
  | (legacy) "y' = TerminalItem e' (Some (acc @ add))" "r = None"
      "terminal_cursor (ev_data e) (length acc) = Legacy" "terminal_cursor (ev_data e') (length add) = Legacy"
  | (adjacent) boot start stop stop' where
      "y' = TerminalItem (e'\<lparr>ev_data := json_insert ''startOffset'' (JStr (dec_string start)) (ev_data e')\<rparr>)
              (Some (acc @ add))" "r = None"
      "terminal_cursor (ev_data e) (length acc) = Positioned boot start stop"
      "terminal_cursor (ev_data e') (length add) = Positioned boot stop stop'"
  using assms by (auto split: if_splits cursor.splits)

lemma event_merge_refused:
  assumes "\<And>bs. b64_decode (b64_encode bs) = Some bs" and "event_ok y" and "event_fresh b64_decode x"
    and "event_merge y x = (y', Some r)"
  shows "y' = y \<and> event_ok r \<and> event_says b64_encode b64_decode r = event_says b64_encode b64_decode x"
proof (cases x)
  case (Latest e')
  with assms(4) show ?thesis by (cases y) auto
next
  case (TerminalItem e' bs')
  have ok: "event_ok x" using assms(3) by (rule event_fresh_ok)
  have verbatim: "event_says b64_encode b64_decode (TerminalItem e' None) = event_says b64_encode b64_decode x"
    using event_says_verbatim [OF assms(1)] assms(3) TerminalItem by simp
  show ?thesis
  proof (cases y)
    case (Latest e)
    with TerminalItem ok assms(4) show ?thesis by auto
  next
    case y: (TerminalItem e bs)
    show ?thesis
    proof (cases "bs = None \<or> bs' = None")
      case True
      with y TerminalItem assms(4) verbatim show ?thesis by (cases bs; cases bs') auto
    next
      case False
      then obtain acc add where "bs = Some acc" "bs' = Some add" by auto
      with y TerminalItem assms(4) ok show ?thesis
        by (auto elim!: event_merge_Some_cases simp del: event_merge.simps)
    qed
  qed
qed

lemma event_merge_content:
  assumes dec: "\<And>bs. b64_decode (b64_encode bs) = Some bs" and "event_ok y" and "event_fresh b64_decode x"
    and m: "event_merge y x = (y', None)"
  shows "event_ok y' \<and> event_says b64_encode b64_decode y' =
    event_comb (event_says b64_encode b64_decode y) (event_says b64_encode b64_decode x)"
proof (cases x)
  case (Latest e')
  with m show ?thesis by (cases y) (auto simp: event_says_def event_comb_def)
next
  case x: (TerminalItem e' bs')
  from m x obtain e bs where y: "y = TerminalItem e bs" by (cases y) auto
  from m x y obtain acc add where bs: "bs = Some acc" "bs' = Some add" by (cases bs; cases bs') auto
  have "chunk_bytes b64_decode (ev_data e') = Some add" using assms(3) x bs by simp
  then obtain n where n: "ev_data e' = JObj n" using chunk_bytes_object by blast
  obtain k where k: "ev_data e = JObj k"
    using assms(2) y bs by (cases "ev_data e") auto
  have e: "e = e\<lparr>ev_data := JObj k\<rparr>" and e': "e' = e'\<lparr>ev_data := JObj n\<rparr>" using n k by simp_all
  have says_y: "event_says b64_encode b64_decode y =
      \<lparr>ec_start = cursor_offset (JObj k) ''startOffset'', ec_bytes = acc,
       ec_event = e\<lparr>ev_data := JObj (obj_without {''chunk'', ''startOffset''} k)\<rparr>\<rparr>"
    using event_frame_bytes [OF dec, where e = e and m = k] y bs e by simp
  have says: "event_says b64_encode b64_decode (TerminalItem e' (Some b)) =
      \<lparr>ec_start = cursor_offset (JObj n) ''startOffset'', ec_bytes = b,
       ec_event = e'\<lparr>ev_data := JObj (obj_without {''chunk'', ''startOffset''} n)\<rparr>\<rparr>" for b
    using event_frame_bytes [OF dec, where e = e' and m = n] e' by simp
  from m x y bs have "event_merge (TerminalItem e (Some acc)) (TerminalItem e' (Some add)) = (y', None)"
    by simp
  then show ?thesis
  proof (cases rule: event_merge_Some_cases)
    case legacy
    then show ?thesis
      using says_y says x bs n k terminal_cursor_LegacyD [of "ev_data e"]
        terminal_cursor_LegacyD [of "ev_data e'"]
      by (simp add: event_comb_def)
  next
    case (adjacent boot start stop stop')
    from adjacent(3) have start: "cursor_offset (JObj k) ''startOffset'' = Some start"
      by (auto simp: k dest: terminal_cursor_PositionedD)
    then have "cursor_offset (JObj (obj_insert ''startOffset'' (JStr (dec_string start)) n)) ''startOffset'' = Some start"
      by (auto intro: cursor_offset_dec_string dest: cursor_offset_le)
    with adjacent says_y says x bs n start show ?thesis
      by (simp add: event_comb_def event_frame_bytes [OF dec])
  qed simp
qed

lemma event_conflatable:
  assumes "\<And>bs. b64_decode (b64_encode bs) = Some bs"
  shows "conflatable event_merge event_ok (event_fresh b64_decode)
    (event_says b64_encode b64_decode) event_comb"
  by unfold_locales
    (use event_fresh_ok event_merge_content [OF assms] event_merge_refused [OF assms] in blast)+

definition wire_bytes ::
  "(byte list \<Rightarrow> rtext) \<Rightarrow> (rtext \<Rightarrow> byte list option) \<Rightarrow> event_item \<Rightarrow> byte list" where
  "wire_bytes b64_encode b64_decode item = ec_bytes (event_says b64_encode b64_decode item)"

text \<open>A feed of the buffer: \<open>Some (key, event)\<close> wraps and pushes an event, \<open>None\<close> pops a frame.\<close>

definition event_ops :: "(rtext \<Rightarrow> byte list option) \<Rightarrow> (key \<times> event) option list \<Rightarrow> event_item cb_op list" where
  "event_ops b64_decode feed =
     map (\<lambda>p. case p of None \<Rightarrow> OpPop | Some (k, e) \<Rightarrow> OpPush k (event_item_new b64_decode k e)) feed"

lemma event_ops_fresh: "pushes_ok (event_fresh b64_decode) (event_ops b64_decode feed)"
  by (auto simp: pushes_ok_def event_ops_def list_all_iff event_item_new_fresh split: option.splits)

text \<open>
  C1. Conflating bus events never panics and never loses content. After any interleaving of pushes
  (of wrapped events) and pops on a buffer of any bounds, the popped and pending frames are the
  accepted pushes grouped per key: frames keep the order of their first pushes, each key's terminal
  bytes arrive whole and in order as the receiver decodes them, and the last frame of a key carries
  the newest event. The buffer holds at most its bound of entries. Base64 decoding inverts encoding.
\<close>

theorem event_conflation_lossless:
  assumes dec: "\<And>bs. b64_decode (b64_encode bs) = Some bs"
    and "length feed \<le> u64_max"
  shows "\<exists>b acc del.
    run_opt (cb_step event_merge event_cost) (cb_bounded n m, [], []) (event_ops b64_decode feed) =
      Some (b, acc, del) \<and>
    length (cb_entries b) \<le> n \<and>
    conflates (event_says b64_encode b64_decode) event_comb acc (del @ pending b) \<and>
    (\<forall>k. concat (map (wire_bytes b64_encode b64_decode) (items_of k (del @ pending b))) =
           concat (map (wire_bytes b64_encode b64_decode) (items_of k acc)) \<and>
         (items_of k acc \<noteq> [] \<longrightarrow>
           ec_event (event_says b64_encode b64_decode (last (items_of k (del @ pending b)))) =
           ec_event (event_says b64_encode b64_decode (last (items_of k acc)))))"
proof -
  have "length (event_ops b64_decode feed) \<le> u64_max" using assms(2) by (simp add: event_ops_def)
  from conflatable.run_conflates [OF event_conflatable [OF dec] event_ops_fresh this]
  obtain b acc del where run:
      "run_opt (cb_step event_merge event_cost) (cb_bounded n m, [], []) (event_ops b64_decode feed) =
        Some (b, acc, del)" "length (cb_entries b) \<le> n"
      "conflates (event_says b64_encode b64_decode) event_comb acc (del @ pending b)"
    by blast
  have "concat (map (wire_bytes b64_encode b64_decode) (items_of k (del @ pending b))) =
      concat (map (wire_bytes b64_encode b64_decode) (items_of k acc))" for k
    using conflates_stream [OF run(3), where h = ec_bytes and k = k]
    by (simp add: event_comb_def wire_bytes_def [abs_def] comp_def)
  moreover have "items_of k acc \<noteq> [] \<Longrightarrow>
      ec_event (event_says b64_encode b64_decode (last (items_of k (del @ pending b)))) =
      ec_event (event_says b64_encode b64_decode (last (items_of k acc)))" for k
    using conflates_newest [OF run(3), where p = ec_event and k = k] by (simp add: event_comb_def)
  ultimately show ?thesis using run by blast
qed

text \<open>Example values: an identity-like codec and terminal events with a stream range.\<close>

definition raw_encode :: "byte list \<Rightarrow> rtext" where
  "raw_encode bs = map unat bs"

definition raw_decode :: "rtext \<Rightarrow> byte list option" where
  "raw_decode t = Some (map of_nat t)"

definition example_actor :: event_actor where
  "example_actor = \<lparr>ea_actor_type = ActorSystem, ea_id = None, ea_name = None, ea_email = None,
     ea_model = None, ea_metadata = None\<rparr>"

definition terminal_event :: "string \<Rightarrow> string \<Rightarrow> string \<Rightarrow> string \<Rightarrow> event" where
  "terminal_event i chunk start stop = \<lparr>ev_id = lit i, ev_workspace_id = lit ''w'',
     ev_timestamp = lit ''t'', ev_event_type = TERMINAL_DATA, ev_actor = example_actor,
     ev_session_id = None, ev_correlation_id = None, ev_parent_event_id = None, ev_metadata = None,
     ev_data = JObj [(''terminalId'', JStr (lit ''p'')), (''chunk'', JStr (lit chunk)),
       (''daemonBootId'', JStr (lit ''b'')), (''startOffset'', JStr (lit start)),
       (''endOffset'', JStr (lit stop))]\<rparr>"

lemma raw_codec: "raw_decode (raw_encode bs) = Some bs"
  by (simp add: raw_decode_def raw_encode_def comp_def)

lemma small_le_u64: "n \<le> 1000 \<Longrightarrow> n \<le> u64_max"
  by (simp add: u64_max_def)

theorem event_conflation_lossless_witness:
  "\<exists>b acc del.
    run_opt (cb_step event_merge event_cost) (cb_bounded 4 100, [], [])
      (event_ops raw_decode [Some (Terminal [] [], terminal_event ''1'' ''ab'' ''0'' ''2''),
        Some (Terminal [] [], terminal_event ''2'' ''c'' ''2'' ''3''), None]) = Some (b, acc, del) \<and>
    length (cb_entries b) \<le> 4 \<and>
    conflates (event_says raw_encode raw_decode) event_comb acc (del @ pending b)"
  using event_conflation_lossless [where b64_encode = raw_encode and b64_decode = raw_decode and n = 4
      and m = 100 and feed = "[Some (Terminal [] [], terminal_event ''1'' ''ab'' ''0'' ''2''),
        Some (Terminal [] [], terminal_event ''2'' ''c'' ''2'' ''3''), None]"]
    raw_codec small_le_u64
  by fastforce

text \<open>
  C3. A merged terminal frame keeps an exact stream range. When two positioned chunks merge, the
  merged frame's cursor is valid for the merged bytes and runs from the start of the first chunk to
  the end of the second in the same boot, and the two ranges were adjacent; a chunk whose range does
  not continue the pending one is never merged into it.
\<close>

theorem merged_range_exact:
  assumes "event_merge (TerminalItem e (Some acc)) (TerminalItem e' (Some add)) = (item, r)"
    and "terminal_cursor (ev_data e) (length acc) = Positioned boot start stop"
  shows "if r = None
    then \<exists>e'' stop'. item = TerminalItem e'' (Some (acc @ add)) \<and>
      terminal_cursor (ev_data e') (length add) = Positioned boot stop stop' \<and>
      terminal_cursor (ev_data e'') (length (acc @ add)) = Positioned boot start stop' \<and>
      length (acc @ add) \<le> TERMINAL_CONCAT_CAP_BYTES
    else item = TerminalItem e (Some acc) \<and> r = Some (TerminalItem e' (Some add))"
  using assms(1)
proof (cases rule: event_merge_Some_cases)
  case refused
  then show ?thesis by simp
next
  case legacy
  then show ?thesis using assms(2) by simp
next
  case (adjacent boot' start' stop1 stop')
  have cap: "length acc + length add \<le> TERMINAL_CONCAT_CAP_BYTES"
    using assms(1) adjacent(2) by (auto split: if_splits)
  from adjacent(3) assms(2) have same: "boot' = boot" "start' = start" "stop1 = stop" by simp_all
  note a = terminal_cursor_PositionedD [OF adjacent(3)]
    and b = terminal_cursor_PositionedD [OF adjacent(4)]
  then obtain n where n: "ev_data e' = JObj n"
    by (cases "ev_data e'") (auto simp: get_str_def)
  have start: "start \<le> u64_max" using a same by (auto dest: cursor_offset_le)
  have "terminal_cursor (JObj (obj_insert ''startOffset'' (JStr (dec_string start)) n)) (length (acc @ add)) =
      Positioned boot start stop'"
    using a b same n cursor_offset_dec_string [OF start, of "''startOffset''" n]
    by (simp add: terminal_cursor_def get_str_def)
  with adjacent same n cap show ?thesis by simp
qed

lemmas cursor_eval = terminal_cursor_def terminal_event_def cursor_offset_def get_str_def lit_def
  is_ascii_digit_def parse_u64_def u64_max_def

theorem merged_range_exact_witness:
  "case event_merge (TerminalItem (terminal_event ''1'' ''ab'' ''0'' ''2'') (Some [97, 98]))
      (TerminalItem (terminal_event ''2'' ''c'' ''2'' ''3'') (Some [99])) of
    (item, r) \<Rightarrow> r = None \<and> (\<exists>e''. item = TerminalItem e'' (Some [97, 98, 99]) \<and>
      terminal_cursor (ev_data e'') 3 = Positioned (lit ''b'') 0 3)"
proof -
  let ?e = "terminal_event ''1'' ''ab'' ''0'' ''2''" and ?e' = "terminal_event ''2'' ''c'' ''2'' ''3''"
  have c: "terminal_cursor (ev_data ?e) (length [97 :: byte, 98]) = Positioned (lit ''b'') 0 2"
    by (simp add: cursor_eval)
  have c': "terminal_cursor (ev_data ?e') (length [99 :: byte]) = Positioned (lit ''b'') 2 3"
    by (simp add: cursor_eval)
  obtain item r where m: "event_merge (TerminalItem ?e (Some [97, 98])) (TerminalItem ?e' (Some [99])) = (item, r)"
    by fastforce
  moreover have "r = None" using m c c' by (auto simp: TERMINAL_CONCAT_CAP_BYTES_def)
  ultimately show ?thesis using merged_range_exact [OF m c] c' by (auto simp: numeral_3_eq_3)
qed

section \<open>Chat deltas are conflatable\<close>

text \<open>
  What a chat delta says: the bucket it arrives in, the text fragment of the incremental encoding,
  the media entries, and the rest of the entity. Fragments append, with the pending media entries
  winning; full entities are replaced by the newest, whose media entries win over the pending ones.
\<close>

record chat_content =
  cc_added :: bool
  cc_text :: "rtext option"
  cc_media :: "string \<Rightarrow> json option"
  cc_entity :: json

definition entity_rest :: "string set \<Rightarrow> json \<Rightarrow> json" where
  "entity_rest ks entity =
     (case json_get entity ''block'' of
        None \<Rightarrow> entity
      | Some block \<Rightarrow> json_insert ''block'' (json_without ks block) entity)"

definition chat_says :: "chat_item \<Rightarrow> chat_content" where
  "chat_says item =
     \<lparr>cc_added = ci_added item,
      cc_text = text_delta_of (ci_entity item),
      cc_media = (case block_media (ci_entity item) of None \<Rightarrow> (\<lambda>_. None) | Some m \<Rightarrow> map_of m),
      cc_entity = entity_rest (if text_delta_of (ci_entity item) = None then {''media''}
                               else {''media'', ''textDelta''}) (ci_entity item)\<rparr>"

fun text_append :: "rtext option \<Rightarrow> rtext option \<Rightarrow> rtext option" where
  "text_append (Some s) (Some t) = Some (s @ t)"
| "text_append None t = t"
| "text_append s None = s"

definition chat_comb :: "chat_content \<Rightarrow> chat_content \<Rightarrow> chat_content" where
  "chat_comb a b =
     (let fragments = (cc_text a \<noteq> None \<and> cc_text b \<noteq> None) in
      \<lparr>cc_added = cc_added a,
       cc_text = text_append (cc_text a) (cc_text b),
       cc_media = (if fragments then cc_media b ++ cc_media a else cc_media a ++ cc_media b),
       cc_entity = (if fragments then cc_entity a else cc_entity b)\<rparr>)"

definition chat_ok :: "chat_item \<Rightarrow> bool" where
  "chat_ok item \<longleftrightarrow> (case json_get (ci_entity item) ''block'' of Some (JObj _) \<Rightarrow> True | _ \<Rightarrow> False)"

lemma json_get_insert [simp]: "json_get (JObj (obj_insert k v m)) k = Some v"
  by simp

lemma map_of_or_insert: "map_of (foldl or_insert acc media) = map_of media ++ map_of acc"
proof (induction media arbitrary: acc)
  case Nil
  then show ?case by simp
next
  case (Cons kv media)
  obtain k v where kv: "kv = (k, v)" by fastforce
  show ?case
    using Cons [of "or_insert acc (k, v)"] kv
    by (auto simp: or_insert_def fun_eq_iff map_add_def split: option.splits)
qed

lemma chat_okE:
  assumes "chat_ok item"
  obtains m block where "ci_entity item = JObj m" and "map_of m ''block'' = Some (JObj block)"
  using assms by (cases "ci_entity item") (auto simp: chat_ok_def split: option.splits json.splits)

text \<open>The effect of the two updates on the entity's block, which is all they touch.\<close>

lemma union_media_into_block:
  assumes "map_of m ''block'' = Some (JObj block)"
  shows "\<exists>block'. union_media_into (JObj m) media = JObj (obj_insert ''block'' (JObj block') m) \<and>
    obj_without {''media''} block' = obj_without {''media''} block \<and>
    (\<forall>k. k \<noteq> ''media'' \<longrightarrow> map_of block' k = map_of block k) \<and>
    (\<exists>u. map_of block' ''media'' = Some (JObj u) \<and>
      map_of u = map_of media ++ (case map_of block ''media'' of Some (JObj a) \<Rightarrow> map_of a | _ \<Rightarrow> (\<lambda>_. None)))"
proof (cases "\<exists>a. map_of block ''media'' = Some (JObj a)")
  case True
  then obtain a where "map_of block ''media'' = Some (JObj a)" by blast
  with assms show ?thesis
    by (intro exI [of _ "obj_insert ''media'' (JObj (foldl or_insert a media)) block"])
      (simp add: union_media_into_def map_of_or_insert)
next
  case False
  with assms show ?thesis
    by (intro exI [of _ "obj_insert ''media'' (JObj media) block"])
      (auto simp: union_media_into_def map_add_def fun_eq_iff split: option.splits json.splits)
qed

lemma push_text_delta_block:
  assumes "map_of m ''block'' = Some (JObj block)" and "map_of block ''textDelta'' = Some (JStr slot)"
  shows "push_text_delta add (JObj m) =
    JObj (obj_insert ''block'' (JObj (obj_insert ''textDelta'' (JStr (slot @ add)) block)) m)"
  using assms by (simp add: push_text_delta_def)

definition block_text :: "jmap \<Rightarrow> rtext option" where
  "block_text block =
     (case get_str (JObj block) ''type'' of
        Some t \<Rightarrow> if t = lit ''text'' \<or> t = lit ''thinking'' then get_str (JObj block) ''textDelta'' else None
      | None \<Rightarrow> None)"

definition media_entries :: "jmap \<Rightarrow> string \<Rightarrow> json option" where
  "media_entries block = (case map_of block ''media'' of Some (JObj a) \<Rightarrow> map_of a | _ \<Rightarrow> (\<lambda>_. None))"

lemma chat_says_block:
  assumes "map_of m ''block'' = Some (JObj block)"
  shows "text_delta_of (JObj m) = block_text block"
    and "chat_says \<lparr>ci_added = a, ci_entity = JObj m\<rparr> =
      \<lparr>cc_added = a, cc_text = block_text block, cc_media = media_entries block,
       cc_entity = JObj (obj_insert ''block'' (JObj (obj_without
         (if block_text block = None then {''media''} else {''media'', ''textDelta''}) block)) m)\<rparr>"
proof -
  show t: "text_delta_of (JObj m) = block_text block"
    using assms by (simp add: text_delta_of_def block_text_def)
  have "(case block_media (JObj m) of None \<Rightarrow> (\<lambda>_. None) | Some m \<Rightarrow> map_of m) = media_entries block"
    using assms by (auto simp: block_media_def media_entries_def split: option.splits json.splits)
  with assms t show "chat_says \<lparr>ci_added = a, ci_entity = JObj m\<rparr> =
      \<lparr>cc_added = a, cc_text = block_text block, cc_media = media_entries block,
       cc_entity = JObj (obj_insert ''block'' (JObj (obj_without
         (if block_text block = None then {''media''} else {''media'', ''textDelta''}) block)) m)\<rparr>"
    by (simp add: chat_says_def entity_rest_def)
qed

lemma obj_without_both:
  "obj_without {''media'', ''textDelta''} m = obj_without {''textDelta''} (obj_without {''media''} m)"
  by (simp add: obj_without_def)

lemma block_text_cong:
  "(\<And>k. k \<noteq> ''media'' \<Longrightarrow> map_of b' k = map_of b k) \<Longrightarrow> block_text b' = block_text b"
  by (auto simp: block_text_def get_str_def split: option.splits)

text \<open>Uniting media into a block changes what it says only by its media entries.\<close>

lemma union_media_says:
  assumes "map_of m ''block'' = Some (JObj block)"
  shows "chat_says \<lparr>ci_added = a, ci_entity = union_media_into (JObj m) media\<rparr> =
    (chat_says \<lparr>ci_added = a, ci_entity = JObj m\<rparr>)\<lparr>cc_media := map_of media ++ media_entries block\<rparr>"
    and "chat_ok \<lparr>ci_added = a, ci_entity = union_media_into (JObj m) media\<rparr>"
proof -
  obtain block' u where u: "union_media_into (JObj m) media = JObj (obj_insert ''block'' (JObj block') m)"
    and rest: "obj_without {''media''} block' = obj_without {''media''} block"
    and others: "\<And>k. k \<noteq> ''media'' \<Longrightarrow> map_of block' k = map_of block k"
    and media: "map_of block' ''media'' = Some (JObj u)" "map_of u = map_of media ++ media_entries block"
    using union_media_into_block [OF assms, of media] unfolding media_entries_def by blast
  have "block_text block' = block_text block" using others by (rule block_text_cong)
  moreover have "media_entries block' = map_of media ++ media_entries block"
    using media by (simp add: media_entries_def)
  ultimately show "chat_says \<lparr>ci_added = a, ci_entity = union_media_into (JObj m) media\<rparr> =
      (chat_says \<lparr>ci_added = a, ci_entity = JObj m\<rparr>)\<lparr>cc_media := map_of media ++ media_entries block\<rparr>"
    using chat_says_block(2) [of "obj_insert ''block'' (JObj block') m" block'] chat_says_block(2) [OF assms]
    by (simp add: u rest obj_without_both)
  show "chat_ok \<lparr>ci_added = a, ci_entity = union_media_into (JObj m) media\<rparr>"
    by (simp add: chat_ok_def u)
qed

lemma push_text_says:
  assumes b: "map_of m ''block'' = Some (JObj block)" and t: "block_text block = Some s"
  shows "\<exists>block'. push_text_delta add (JObj m) = JObj (obj_insert ''block'' (JObj block') m) \<and>
    media_entries block' = media_entries block \<and>
    chat_says \<lparr>ci_added = a, ci_entity = push_text_delta add (JObj m)\<rparr> =
      (chat_says \<lparr>ci_added = a, ci_entity = JObj m\<rparr>)\<lparr>cc_text := Some (s @ add)\<rparr>"
proof -
  from t have slot: "map_of block ''textDelta'' = Some (JStr s)"
    by (auto simp: block_text_def get_str_def bind_eq_Some_conv elim: as_str.elims
        split: option.splits if_splits)
  let ?block = "obj_insert ''textDelta'' (JStr (s @ add)) block"
  have p: "push_text_delta add (JObj m) = JObj (obj_insert ''block'' (JObj ?block) m)"
    using push_text_delta_block [OF b slot] .
  have bt: "block_text ?block = Some (s @ add)"
    using t by (auto simp: block_text_def get_str_def split: option.splits if_splits)
  have me: "media_entries ?block = media_entries block" by (simp add: media_entries_def)
  show ?thesis
    using p me bt t chat_says_block(2) [of "obj_insert ''block'' (JObj ?block) m" ?block]
      chat_says_block(2) [OF b]
    by (intro exI [of _ ?block]) simp
qed

lemma block_media_entries:
  assumes "map_of n ''block'' = Some (JObj c)"
  shows "(case block_media (JObj n) of None \<Rightarrow> (\<lambda>_. None) | Some w \<Rightarrow> map_of w) = media_entries c"
  using assms by (auto simp: block_media_def media_entries_def split: option.splits json.splits)

lemma chat_full_content:
  assumes y: "map_of a ''block'' = Some (JObj b)" "block_text b = None"
    and x: "map_of a' ''block'' = Some (JObj b')" "block_text b' = None"
    and e: "entity = (case block_media (JObj a) of None \<Rightarrow> JObj a' | Some w \<Rightarrow> union_media_into (JObj a') w)"
  shows "chat_ok \<lparr>ci_added = p, ci_entity = entity\<rparr> \<and> chat_says \<lparr>ci_added = p, ci_entity = entity\<rparr> =
    chat_comb (chat_says \<lparr>ci_added = p, ci_entity = JObj a\<rparr>) (chat_says \<lparr>ci_added = q, ci_entity = JObj a'\<rparr>)"
  using e block_media_entries [OF y(1), symmetric] union_media_says [OF x(1)] chat_says_block(2) [OF y(1)]
    chat_says_block(2) [OF x(1)] x y
  by (cases "block_media (JObj a)") (simp_all add: chat_comb_def chat_ok_def)

lemma chat_fragment_content:
  assumes y: "map_of a ''block'' = Some (JObj b)" "block_text b = Some s"
    and x: "map_of a' ''block'' = Some (JObj b')" "block_text b' = Some t"
    and e: "entity = (case block_media (JObj a') of None \<Rightarrow> push_text_delta t (JObj a)
      | Some w \<Rightarrow> union_media_into (push_text_delta t (JObj a)) w)"
  shows "chat_ok \<lparr>ci_added = p, ci_entity = entity\<rparr> \<and> chat_says \<lparr>ci_added = p, ci_entity = entity\<rparr> =
    chat_comb (chat_says \<lparr>ci_added = p, ci_entity = JObj a\<rparr>) (chat_says \<lparr>ci_added = q, ci_entity = JObj a'\<rparr>)"
proof -
  obtain c where c: "push_text_delta t (JObj a) = JObj (obj_insert ''block'' (JObj c) a)"
    "media_entries c = media_entries b"
    and says_c: "chat_says \<lparr>ci_added = p, ci_entity = push_text_delta t (JObj a)\<rparr> =
      (chat_says \<lparr>ci_added = p, ci_entity = JObj a\<rparr>)\<lparr>cc_text := Some (s @ t)\<rparr>"
    using push_text_says [OF y, of t p] by auto
  have "map_of (obj_insert ''block'' (JObj c) a) ''block'' = Some (JObj c)" by simp
  note union = union_media_says [OF this, of p]
  show ?thesis
    using e block_media_entries [OF x(1), symmetric] c says_c union chat_says_block(2) [OF y(1)]
      chat_says_block(2) [OF x(1)] x y
    by (cases "block_media (JObj a')") (simp_all add: chat_comb_def chat_ok_def)
qed

lemma chat_merge_content:
  assumes "chat_ok y" and "chat_ok x" and m: "chat_merge y x = (y', None)"
  shows "chat_ok y' \<and> chat_says y' = chat_comb (chat_says y) (chat_says x)"
proof -
  obtain a b where y: "ci_entity y = JObj a" "map_of a ''block'' = Some (JObj b)"
    using assms(1) by (rule chat_okE)
  obtain a' b' where x: "ci_entity x = JObj a'" "map_of a' ''block'' = Some (JObj b')"
    using assms(2) by (rule chat_okE)
  have yr: "y = \<lparr>ci_added = ci_added y, ci_entity = JObj a\<rparr>"
    and xr: "x = \<lparr>ci_added = ci_added x, ci_entity = JObj a'\<rparr>" using y x by simp_all
  have upd: "y\<lparr>ci_entity := v\<rparr> = \<lparr>ci_added = ci_added y, ci_entity = v\<rparr>" for v by simp
  note td = chat_says_block(1) [OF y(2)] chat_says_block(1) [OF x(2)]
  show ?thesis
  proof (cases "block_text b")
    case None
    with m td x y have "block_text b' = None" and "y' = y\<lparr>ci_entity :=
        (case block_media (JObj a) of None \<Rightarrow> JObj a' | Some w \<Rightarrow> union_media_into (JObj a') w)\<rparr>"
      by (auto simp: chat_merge_def split: option.splits)
    with chat_full_content [OF y(2) None x(2) _ refl, of "ci_added y" "ci_added x"] yr xr upd
    show ?thesis by metis
  next
    case (Some s)
    with m td x y obtain t where "block_text b' = Some t" and "y' = y\<lparr>ci_entity :=
        (case block_media (JObj a') of None \<Rightarrow> push_text_delta t (JObj a)
         | Some w \<Rightarrow> union_media_into (push_text_delta t (JObj a)) w)\<rparr>"
      by (auto simp: chat_merge_def Let_def split: option.splits if_splits)
    with chat_fragment_content [OF y(2) Some x(2) _ refl, of t "ci_added y" "ci_added x"] yr xr upd
    show ?thesis by metis
  qed
qed

lemma chat_merge_refused: "chat_merge y x = (y', Some r) \<Longrightarrow> y' = y \<and> r = x"
  by (auto simp: chat_merge_def Let_def split: option.splits if_splits)

subsection \<open>Cost\<close>

definition obj_size :: "jmap \<Rightarrow> nat" where
  "obj_size m = sum_list (map (\<lambda>(k, v). length k + approx_size v) m)"

lemma approx_size_obj: "approx_size (JObj m) = obj_size m + 8"
  by (simp add: obj_size_def)

lemma obj_size_insert_old:
  "map_of m k = Some w \<Longrightarrow> obj_size (obj_insert k v m) + approx_size w = obj_size m + approx_size v"
  by (induction m) (auto simp: obj_size_def split: if_splits)

lemma obj_size_insert_new:
  "map_of m k = None \<Longrightarrow> obj_size (obj_insert k v m) = obj_size m + length k + approx_size v"
  by (induction m) (auto simp: obj_size_def split: if_splits)

lemma obj_size_member: "map_of m k = Some w \<Longrightarrow> length k + approx_size w \<le> obj_size m"
  by (induction m) (auto simp: obj_size_def split: if_splits)

lemma obj_size_insert_le: "obj_size (obj_insert k v m) \<le> obj_size m + length k + approx_size v"
  using obj_size_insert_old [of m k _ v] obj_size_insert_new [of m k v]
  by (cases "map_of m k") (auto simp: add.commute intro: le_trans [OF le_add1])

lemma obj_size_or_insert: "obj_size (foldl or_insert acc media) \<le> obj_size acc + obj_size media"
proof (induction media arbitrary: acc)
  case Nil
  then show ?case by (simp add: obj_size_def)
next
  case (Cons kv media)
  have "obj_size (or_insert acc kv) \<le> obj_size acc + length (fst kv) + approx_size (snd kv)"
    using obj_size_insert_le [of "fst kv" "snd kv" acc] by (simp add: or_insert_def)
  moreover have "obj_size (kv # media) = length (fst kv) + approx_size (snd kv) + obj_size media"
    by (cases kv) (simp add: obj_size_def)
  ultimately show ?case using Cons [of "or_insert acc kv"] by simp
qed

lemma obj_size_two:
  assumes "map_of m k = Some w" and "map_of m k' = Some w'" and "k \<noteq> k'"
  shows "length k + approx_size w + (length k' + approx_size w') \<le> obj_size m"
  using assms
proof (induction m)
  case Nil
  then show ?case by simp
next
  case (Cons p m)
  then show ?case
    using obj_size_member [of m k w] obj_size_member [of m k' w']
    by (cases p) (auto simp: obj_size_def split: if_splits)
qed

lemma approx_size_replace:
  assumes "map_of m k = Some (JObj b)" and "obj_size b' \<le> obj_size b + n"
  shows "approx_size (JObj (obj_insert k (JObj b') m)) \<le> approx_size (JObj m) + n"
  using obj_size_insert_old [OF assms(1), of "JObj b'"] assms(2)
  unfolding approx_size_obj by linarith

lemma union_media_cost:
  assumes "map_of m ''block'' = Some (JObj block)"
  shows "approx_size (union_media_into (JObj m) media) \<le> approx_size (JObj m) + 5 + approx_size (JObj media)"
proof (cases "\<exists>a. map_of block ''media'' = Some (JObj a)")
  case True
  then obtain a where a: "map_of block ''media'' = Some (JObj a)" by blast
  have "obj_size (obj_insert ''media'' (JObj (foldl or_insert a media)) block) \<le> obj_size block + obj_size media"
    using obj_size_insert_old [OF a, of "JObj (foldl or_insert a media)"] obj_size_or_insert [of a media]
    unfolding approx_size_obj by linarith
  with approx_size_replace [OF assms this] a assms show ?thesis
    by (simp add: union_media_into_def approx_size_obj del: approx_size.simps)
next
  case False
  have "obj_size (obj_insert ''media'' (JObj media) block) \<le> obj_size block + (5 + approx_size (JObj media))"
    using obj_size_insert_le [of "''media''" "JObj media" block] by (simp del: approx_size.simps)
  from approx_size_replace [OF assms this] False assms show ?thesis
    by (auto simp: union_media_into_def simp del: approx_size.simps split: option.splits json.splits)
qed

lemma push_text_cost: "approx_size (push_text_delta add (JObj m)) \<le> approx_size (JObj m) + str_len add"
proof (cases "\<exists>block slot. map_of m ''block'' = Some (JObj block) \<and> map_of block ''textDelta'' = Some (JStr slot)")
  case True
  then obtain block slot where b: "map_of m ''block'' = Some (JObj block)"
    and slot: "map_of block ''textDelta'' = Some (JStr slot)" by blast
  have "obj_size (obj_insert ''textDelta'' (JStr (slot @ add)) block) \<le> obj_size block + str_len add"
    using obj_size_insert_old [OF slot, of "JStr (slot @ add)"] by simp
  from approx_size_replace [OF b this] show ?thesis
    by (simp add: push_text_delta_block [OF b slot] del: approx_size.simps)
next
  case False
  have "push_text_delta add (JObj m) = JObj m"
  proof (cases "map_of m ''block''")
    case (Some block)
    with False show ?thesis
      by (cases block) (auto simp: push_text_delta_def split: option.splits json.splits)
  qed (simp add: push_text_delta_def)
  then show ?thesis by simp
qed

lemma chat_merged_cost:
  assumes "chat_ok y" and "chat_ok x" and m: "chat_merge y x = (y', None)"
  shows "chat_cost y' \<le> chat_cost y + chat_cost x"
proof -
  obtain a b where y: "ci_entity y = JObj a" "map_of a ''block'' = Some (JObj b)"
    using assms(1) by (rule chat_okE)
  obtain a' b' where x: "ci_entity x = JObj a'" "map_of a' ''block'' = Some (JObj b')"
    using assms(2) by (rule chat_okE)
  note td = chat_says_block(1) [OF y(2)] chat_says_block(1) [OF x(2)]
  have media: "map_of c ''media'' = Some (JObj w)"
    if "block_media (JObj n) = Some w" "map_of n ''block'' = Some (JObj c)" for n c w
    using that by (auto simp: block_media_def bind_eq_Some_conv elim: as_object.elims)
  note sizes = obj_size_member [OF y(2)] obj_size_member [OF x(2)]
  show ?thesis
  proof (cases "block_text b")
    case None
    with m td x y have e: "ci_entity y' =
        (case block_media (JObj a) of None \<Rightarrow> JObj a' | Some w \<Rightarrow> union_media_into (JObj a') w)"
      by (auto simp: chat_merge_def split: option.splits)
    show ?thesis
    proof (cases "block_media (JObj a)")
      case (Some w)
      from obj_size_member [OF media [OF Some y(2)]] sizes union_media_cost [OF x(2), of w] e Some x y
      show ?thesis by (simp add: chat_cost_def approx_size_obj del: approx_size.simps)
    qed (use e x in \<open>simp add: chat_cost_def\<close>)
  next
    case (Some s)
    with m td x y obtain t where t: "block_text b' = Some t" and e: "ci_entity y' =
        (case block_media (JObj a') of None \<Rightarrow> push_text_delta t (JObj a)
         | Some w \<Rightarrow> union_media_into (push_text_delta t (JObj a)) w)"
      by (auto simp: chat_merge_def Let_def split: option.splits if_splits)
    from t have slot: "map_of b' ''textDelta'' = Some (JStr t)"
      by (auto simp: block_text_def get_str_def bind_eq_Some_conv elim: as_str.elims
          split: option.splits if_splits)
    obtain c where c: "push_text_delta t (JObj a) = JObj (obj_insert ''block'' (JObj c) a)"
      using push_text_says [OF y(2) Some] by blast
    show ?thesis
    proof (cases "block_media (JObj a')")
      case None
      then show ?thesis
        using e push_text_cost [of t a] obj_size_member [OF slot] sizes x y
        by (simp add: chat_cost_def approx_size_obj del: approx_size.simps(6))
    next
      case (Some w)
      have "approx_size (union_media_into (push_text_delta t (JObj a)) w) \<le>
          approx_size (push_text_delta t (JObj a)) + 5 + approx_size (JObj w)"
        unfolding c by (rule union_media_cost [where block = c]) simp
      with Some show ?thesis
        using e push_text_cost [of t a] obj_size_two [OF slot media [OF Some x(2)]] sizes x y
        by (simp add: chat_cost_def approx_size_obj del: approx_size.simps(6))
    qed
  qed
qed

interpretation chat: conflatable_costed chat_merge chat_cost chat_ok chat_ok chat_says chat_comb
proof unfold_locales
  show "chat_ok y \<Longrightarrow> chat_ok x \<Longrightarrow> chat_merge y x = (y', Some r) \<Longrightarrow>
      y' = y \<and> chat_ok r \<and> chat_says r = chat_says x" for y x y' r
    using chat_merge_refused by blast
  show "chat_ok y \<Longrightarrow> chat_ok x \<Longrightarrow> chat_merge y x = (y', Some r) \<Longrightarrow> chat_cost r \<le> chat_cost x" for y x y' r
    using chat_merge_refused by blast
qed (use chat_merge_content chat_merged_cost in blast)+

definition says_text :: "chat_content \<Rightarrow> rtext" where
  "says_text c = (case cc_text c of None \<Rightarrow> [] | Some t \<Rightarrow> t)"

text \<open>A feed of deltas and pops; a delta of another shape is a barrier and never enters the buffer.\<close>

fun chat_ops :: "json option list \<Rightarrow> chat_item cb_op list" where
  "chat_ops [] = []"
| "chat_ops (None # feed) = OpPop # chat_ops feed"
| "chat_ops (Some delta # feed) =
     (case chat_from_delta delta of
        None \<Rightarrow> chat_ops feed
      | Some (k, item) \<Rightarrow> OpPush k item # chat_ops feed)"

lemma chat_from_delta_ok: "chat_from_delta delta = Some (k, item) \<Longrightarrow> chat_ok item"
proof -
  assume d: "chat_from_delta delta = Some (k, item)"
  then obtain b where b: "json_get (ci_entity item) ''block'' = Some b" "get_str b ''id'' \<noteq> None"
    by (auto simp: chat_from_delta_def bind_eq_Some_conv split: if_splits option.splits list.splits)
  then show "chat_ok item" by (cases b) (auto simp: chat_ok_def get_str_def)
qed

lemma chat_ops_ok: "pushes_ok chat_ok (chat_ops feed) \<and> length (chat_ops feed) \<le> length feed"
  by (induction feed rule: chat_ops.induct)
    (auto simp: pushes_ok_def dest: chat_from_delta_ok split: option.splits)

text \<open>
  C2. Conflating chat deltas never panics, never loses content and never exceeds its bounds. After
  any interleaving of offered deltas and pops, the popped and pending frames are the accepted deltas
  grouped per block: a frame keeps the bucket and position of its first delta; text fragments of a
  block arrive appended in order; a full entity is the newest one; media entries are united. The
  buffer holds at most its bound of entries and of payload bytes.
\<close>

theorem chat_conflation_lossless:
  assumes "length feed \<le> u64_max"
  shows "\<exists>b acc del.
    run_opt (cb_step chat_merge chat_cost) (cb_bounded n m, [], []) (chat_ops feed) = Some (b, acc, del) \<and>
    length (cb_entries b) \<le> n \<and> sum_list (map (chat_cost \<circ> snd) (pending b)) \<le> m \<and>
    conflates chat_says chat_comb acc (del @ pending b) \<and>
    (\<forall>k. concat (map (says_text \<circ> chat_says) (items_of k (del @ pending b))) =
         concat (map (says_text \<circ> chat_says) (items_of k acc)))"
proof -
  from assms have len: "length (chat_ops feed) \<le> u64_max" using chat_ops_ok [of feed] by simp
  from chat.run_conflates [OF conjunct1 [OF chat_ops_ok] len] obtain b acc del
    where run: "run_opt (cb_step chat_merge chat_cost) (cb_bounded n m, [], []) (chat_ops feed) = Some (b, acc, del)"
      and b: "cb_inv chat_cost b" "length (cb_entries b) \<le> n"
      and con: "conflates chat_says chat_comb acc (del @ pending b)"
    by blast
  have "cb_cost b \<le> m" using chat.run_bounded [OF conjunct1 [OF chat_ops_ok] len run] .
  moreover have "map (chat_cost \<circ> snd) (pending b) = map entry_cost (cb_entries b)"
    using b(1) by (auto simp: cb_inv_def pending_def)
  ultimately have "sum_list (map (chat_cost \<circ> snd) (pending b)) \<le> m" using b(1) by (simp add: cb_inv_def)
  moreover have "says_text (chat_comb a c) = says_text a @ says_text c" for a c
    by (cases "cc_text a"; cases "cc_text c") (simp_all add: says_text_def chat_comb_def)
  then have "concat (map (says_text \<circ> chat_says) (items_of k (del @ pending b))) =
      concat (map (says_text \<circ> chat_says) (items_of k acc))" for k
    by (rule conflates_stream [OF con])
  ultimately show ?thesis using run b(2) con by blast
qed

definition fragment_delta :: "string \<Rightarrow> json" where
  "fragment_delta t = JObj [(''added'', JArr []), (''updated'', JArr [JObj [(''block'', JObj
     [(''id'', JStr (lit ''b'')), (''type'', JStr (lit ''text'')), (''textDelta'', JStr (lit t))])]]),
     (''removedIds'', JArr [])]"

theorem chat_conflation_lossless_witness:
  "\<exists>b acc del.
    run_opt (cb_step chat_merge chat_cost) (cb_bounded 2 1000, [], [])
      (chat_ops [Some (fragment_delta ''he''), Some (fragment_delta ''llo''), None]) = Some (b, acc, del) \<and>
    length (cb_entries b) \<le> 2 \<and> conflates chat_says chat_comb acc (del @ pending b)"
  using chat_conflation_lossless [where n = 2 and m = 1000
      and feed = "[Some (fragment_delta ''he''), Some (fragment_delta ''llo''), None]"] small_le_u64
  by fastforce

text \<open>
  The byte bound is not a hard bound for bus events. A decodable chunk behind an undecodable one is
  refused without its decoded bytes; it then costs the size of its whole payload, which the check
  before the merge did not count, and the buffer goes over its bound.
\<close>

definition strict_decode :: "rtext \<Rightarrow> byte list option" where
  "strict_decode t = (if t = lit ''!'' then None else Some (map of_nat t))"

lemma event_byte_bound_exceeded:
  "\<exists>b acc del. run_opt (cb_step event_merge event_cost) (cb_bounded 4 150, [], [])
      (event_ops strict_decode [Some (Terminal [] [], terminal_event ''1'' ''!'' ''0'' ''2''),
        Some (Terminal [] [], terminal_event ''2'' ''c'' ''2'' ''3'')]) = Some (b, acc, del) \<and>
    150 < cb_cost b"
  by (simp add: event_ops_def event_item_new_def strict_decode_def terminal_event_def get_str_def lit_def
      cb_push_def cb_bounded_def cb_append_def cb_alloc_def Let_def u64_max_def len_utf8_def)

end
