(* ===== verification/LineDecoder.thy ===== *)
theory LineDecoder
  imports Transition Prelude
begin

text \<open>
  The streaming line decoder of \<open>crates/intent-core/src/script_output.rs\<close>, which the terminal reader and
  the script monitors feed byte by byte: UTF-8 is assembled in a four-byte buffer, escape sequences are
  skipped, and a finished line is reported with its text unless it is oversized. Shown: the decoder never
  panics and stays within its bounds, and on text without escapes it reports exactly the lines.

  \<open>std::str::from_utf8\<close> and \<open>char::is_control\<close> of the standard library are modelled as documented.
\<close>

section \<open>UTF-8\<close>

definition is_cont :: "nat \<Rightarrow> bool" where
  "is_cont b \<longleftrightarrow> 128 \<le> b \<and> b < 192"

text \<open>
  The first character of a byte sequence and the rest, or the error: \<open>Some n\<close> when its first \<open>n\<close> bytes
  are wrong whatever follows, \<open>None\<close> when the sequence ends too early.
\<close>

definition second_ok :: "nat \<Rightarrow> nat \<Rightarrow> bool" where
  "second_ok b0 b1 \<longleftrightarrow>
     (if b0 = 224 then 160 \<le> b1 \<and> b1 < 192
      else if b0 = 237 then 128 \<le> b1 \<and> b1 < 160
      else if b0 = 240 then 144 \<le> b1 \<and> b1 < 192
      else if b0 = 244 then 128 \<le> b1 \<and> b1 < 144
      else is_cont b1)"

fun utf8_first :: "nat list \<Rightarrow> nat option + uchar \<times> nat list" where
  "utf8_first [] = Inl None"
| "utf8_first (b0 # bs) =
     (if b0 < 128 then Inr (b0, bs)
      else if 194 \<le> b0 \<and> b0 < 224 then
        (case bs of
           [] \<Rightarrow> Inl None
         | b1 # r \<Rightarrow> if is_cont b1 then Inr ((b0 - 192) * 64 + (b1 - 128), r) else Inl (Some 1))
      else if 224 \<le> b0 \<and> b0 < 240 then
        (case bs of
           [] \<Rightarrow> Inl None
         | b1 # r1 \<Rightarrow>
             if \<not> second_ok b0 b1 then Inl (Some 1)
             else (case r1 of
                     [] \<Rightarrow> Inl None
                   | b2 # r \<Rightarrow>
                       if is_cont b2 then Inr ((b0 - 224) * 4096 + (b1 - 128) * 64 + (b2 - 128), r)
                       else Inl (Some 2)))
      else if 240 \<le> b0 \<and> b0 < 245 then
        (case bs of
           [] \<Rightarrow> Inl None
         | b1 # r1 \<Rightarrow>
             if \<not> second_ok b0 b1 then Inl (Some 1)
             else (case r1 of
                     [] \<Rightarrow> Inl None
                   | b2 # r2 \<Rightarrow>
                       if \<not> is_cont b2 then Inl (Some 2)
                       else (case r2 of
                               [] \<Rightarrow> Inl None
                             | b3 # r \<Rightarrow>
                                 if is_cont b3
                                 then Inr ((b0 - 240) * 262144 + (b1 - 128) * 4096 + (b2 - 128) * 64 + (b3 - 128), r)
                                 else Inl (Some 3))))
      else Inl (Some 1))"

lemma utf8_first_rest: "utf8_first bs = Inr (c, r) \<Longrightarrow> length r < length bs"
  by (cases bs) (auto split: if_splits list.splits)

function from_utf8 :: "nat list \<Rightarrow> nat option + rtext" where
  "from_utf8 bs =
     (if bs = [] then Inr []
      else case utf8_first bs of
        Inl e \<Rightarrow> Inl e
      | Inr (c, r) \<Rightarrow> (case from_utf8 r of Inl e \<Rightarrow> Inl e | Inr t \<Rightarrow> Inr (c # t)))"
  by pat_completeness auto
termination
  by (relation "measure length") (auto simp: utf8_first_rest)

declare from_utf8.simps [simp del]

definition is_control :: "uchar \<Rightarrow> bool" where
  "is_control c \<longleftrightarrow> c < 32 \<or> 127 \<le> c \<and> c < 160"

section \<open>The decoder\<close>

text \<open>A reported line: its text, or nothing when it was too long.\<close>

type_synonym Line = "rtext option"

datatype Control = CText | CEscape | CEscapeIntermediate | CCsi | CString bool bool

record LineDecoder =
  ld_control :: Control
  ld_utf8 :: "nat list"
  ld_cr :: bool
  ld_partial :: bool
  ld_line_started :: bool
  ld_discard :: bool
  ld_oversized :: bool
  ld_text :: rtext
  ld_capture :: bool

definition decoder_new :: "bool \<Rightarrow> LineDecoder" where
  "decoder_new capture =
     \<lparr>ld_control = CText, ld_utf8 = [], ld_cr = False, ld_partial = False, ld_line_started = False,
      ld_discard = False, ld_oversized = False, ld_text = [], ld_capture = capture\<rparr>"

definition decoder_window :: "LineDecoder \<Rightarrow> LineDecoder" where
  "decoder_window d =
     d\<lparr>ld_capture := True, ld_discard := ld_line_started d, ld_text := [], ld_oversized := False\<rparr>"

definition decoder_gap :: "LineDecoder \<Rightarrow> LineDecoder" where
  "decoder_gap d = (decoder_new (ld_capture d))\<lparr>ld_discard := True\<rparr>"

definition finish_line :: "LineDecoder \<Rightarrow> LineDecoder \<times> Line option" where
  "finish_line d =
     (d\<lparr>ld_line_started := False, ld_partial := False, ld_discard := False, ld_oversized := False, ld_text := []\<rparr>,
      if \<not> ld_discard d then Some (if \<not> ld_oversized d then Some (ld_text d) else None) else None)"

definition escape_control :: "uchar \<Rightarrow> Control" where
  "escape_control c =
     (if c = 91 then CCsi
      else if c = 93 then CString True False
      else if c \<in> {80, 88, 94, 95} then CString False False
      else if c = 27 then CEscape
      else if 32 \<le> c \<and> c \<le> 47 then CEscapeIntermediate
      else CText)"

definition text_character :: "LineDecoder \<Rightarrow> uchar \<Rightarrow> LineDecoder \<times> Line option" where
  "text_character d c =
     (if c = 27 then (d\<lparr>ld_control := CEscape\<rparr>, None)
      else if c = 10 \<and> ld_cr d
      then (d\<lparr>ld_cr := False, ld_line_started := False, ld_discard := False\<rparr>, None)
      else if c = 10 \<or> c = 13 then finish_line (d\<lparr>ld_cr := (c = 13)\<rparr>)
      else if is_control c \<and> c \<noteq> 9 then (d, None)
      else
        let d = d\<lparr>ld_cr := False, ld_partial := True\<rparr> in
        (if ld_capture d \<and> \<not> ld_discard d \<and> \<not> ld_oversized d
         then if str_len (ld_text d) + len_utf8 c > 4096 then d\<lparr>ld_text := [], ld_oversized := True\<rparr>
              else d\<lparr>ld_text := ld_text d @ [c]\<rparr>
         else d, None))"

definition character :: "LineDecoder \<Rightarrow> uchar \<Rightarrow> LineDecoder \<times> Line option" where
  "character d c =
     (case ld_control d of
        CEscape \<Rightarrow> (d\<lparr>ld_control := escape_control c\<rparr>, None)
      | CEscapeIntermediate \<Rightarrow> (if 48 \<le> c \<and> c \<le> 126 then d\<lparr>ld_control := CText\<rparr> else d, None)
      | CCsi \<Rightarrow> (if 64 \<le> c \<and> c \<le> 126 then d\<lparr>ld_control := CText\<rparr> else d, None)
      | CString osc escape \<Rightarrow>
          (d\<lparr>ld_control := (if osc \<and> c = 7 \<or> escape \<and> c = 92 then CText else CString osc (c = 27))\<rparr>, None)
      | CText \<Rightarrow> text_character d c)"

text \<open>
  \<open>push\<close> calls itself on the bytes left over by a wrong sequence; the depth of the calls is the first
  argument. \<open>None\<close> is running out of it, or the panic of writing past the four-byte buffer.
\<close>

fun push_rest ::
  "(LineDecoder \<Rightarrow> nat \<Rightarrow> (LineDecoder \<times> Line option) option) \<Rightarrow> LineDecoder \<Rightarrow> Line option \<Rightarrow> nat list \<Rightarrow>
   (LineDecoder \<times> Line option) option" where
  "push_rest push d line [] = Some (d, line)"
| "push_rest push d line (b # bs) =
     (case push d b of
        None \<Rightarrow> None
      | Some (d', line') \<Rightarrow> push_rest push d' (if line' = None then line else line') bs)"

fun push_depth :: "nat \<Rightarrow> LineDecoder \<Rightarrow> nat \<Rightarrow> (LineDecoder \<times> Line option) option" where
  "push_depth 0 d byte = None"
| "push_depth (Suc n) d byte =
     (let d = d\<lparr>ld_line_started := True\<rparr> in
      if ld_utf8 d = [] \<and> byte < 128 then Some (character d byte)
      else if 4 \<le> length (ld_utf8 d) then None
      else
        let d = d\<lparr>ld_utf8 := ld_utf8 d @ [byte]\<rparr> in
        (case from_utf8 (ld_utf8 d) of
           Inr text \<Rightarrow>
             (case text of
                [] \<Rightarrow> Some (d, None)
              | c # _ \<Rightarrow> Some (character (d\<lparr>ld_utf8 := []\<rparr>) c))
         | Inl error_len \<Rightarrow>
             if error_len = None \<and> length (ld_utf8 d) < 4 then Some (d, None)
             else
               let consumed = (case error_len of None \<Rightarrow> length (ld_utf8 d) | Some k \<Rightarrow> k);
                   tail = drop consumed (ld_utf8 d);
                   (d', line) = character (d\<lparr>ld_utf8 := []\<rparr>) 65533
               in push_rest (push_depth n) d' line tail))"

definition decoder_push :: "LineDecoder \<Rightarrow> byte \<Rightarrow> (LineDecoder \<times> Line option) option" where
  "decoder_push d byte = push_depth 5 d (unat byte)"

definition decoder_eof :: "LineDecoder \<Rightarrow> LineDecoder \<times> Line option" where
  "decoder_eof d0 =
     (let d = (if ld_utf8 d0 \<noteq> [] then fst (character (d0\<lparr>ld_utf8 := []\<rparr>) 65533) else d0);
          d = d\<lparr>ld_control := CText\<rparr>
      in if ld_partial d then finish_line d else (d, None))"

section \<open>Incomplete sequences\<close>

text \<open>What the buffer may hold between calls: nothing, or the beginning of a character.\<close>

definition incomplete :: "nat list \<Rightarrow> bool" where
  "incomplete bs \<longleftrightarrow> bs = [] \<or> utf8_first bs = Inl None"

lemma incomplete_length: "incomplete bs \<Longrightarrow> length bs < 4"
  unfolding incomplete_def by (cases bs) (auto split: if_splits list.splits)

lemma short_cases: "length bs < 4 \<Longrightarrow> (\<exists>x y z. bs \<in> {[], [x], [x, y], [x, y, z]})"
  by (cases bs; cases "tl bs"; cases "tl (tl bs)"; cases "tl (tl (tl bs))") auto

lemma utf8_extend:
  assumes "incomplete bs" "bs \<noteq> [] \<or> 128 \<le> b"
  shows "(\<exists>c. utf8_first (bs @ [b]) = Inr (c, [])) \<or> utf8_first (bs @ [b]) = Inl None \<or>
    utf8_first (bs @ [b]) = Inl (Some (max 1 (length bs)))"
proof -
  obtain x y z where "bs \<in> {[], [x], [x, y], [x, y, z]}"
    using short_cases [OF incomplete_length [OF assms(1)]] by blast
  then show ?thesis
    using assms by (elim insertE) (simp_all add: incomplete_def split: if_splits)
qed

lemma from_utf8_one: "utf8_first bs = Inr (c, []) \<Longrightarrow> from_utf8 bs = Inr [c]"
  by (subst from_utf8.simps) (cases bs; simp add: from_utf8.simps [of "[]"])

lemma from_utf8_error: "utf8_first bs = Inl e \<Longrightarrow> bs \<noteq> [] \<Longrightarrow> from_utf8 bs = Inl e"
  by (subst from_utf8.simps) simp

lemma utf8_first_prefix: "utf8_first (p @ q) = Inr (c, []) \<Longrightarrow> p \<noteq> [] \<Longrightarrow> q \<noteq> [] \<Longrightarrow> utf8_first p = Inl None"
  by (cases p) (auto split: if_splits list.splits simp: append_eq_Cons_conv Cons_eq_append_conv)

section \<open>The bounds of the decoder\<close>

definition decoder_ok :: "LineDecoder \<Rightarrow> bool" where
  "decoder_ok d \<longleftrightarrow> incomplete (ld_utf8 d) \<and> str_len (ld_text d) \<le> 4096 \<and>
     (ld_text d \<noteq> [] \<longrightarrow> ld_capture d \<and> ld_partial d \<and> \<not> ld_discard d \<and> \<not> ld_oversized d)"

lemma character_utf8 [simp]: "ld_utf8 (fst (character d c)) = ld_utf8 d"
  by (simp add: character_def text_character_def finish_line_def Let_def split: Control.split)

lemma character_ok: "decoder_ok d \<Longrightarrow> decoder_ok (fst (character d c))"
  by (auto simp: decoder_ok_def character_def text_character_def finish_line_def Let_def split: Control.split)

lemma decoder_ok_utf8: "decoder_ok d \<Longrightarrow> incomplete bs \<Longrightarrow> decoder_ok (d\<lparr>ld_utf8 := bs\<rparr>)"
  by (simp add: decoder_ok_def)

lemma decoder_ok_started [simp]: "decoder_ok (d\<lparr>ld_line_started := x\<rparr>) \<longleftrightarrow> decoder_ok d"
  by (simp add: decoder_ok_def)

text \<open>
  The outcomes of one byte: a character, more to come, or a replacement character followed by at most
  the byte itself.
\<close>

lemma push_depth_cases:
  assumes "incomplete (ld_utf8 d)" and "d' = d\<lparr>ld_line_started := True\<rparr>"
  obtains (char) c where "\<And>n. push_depth (Suc n) d b = Some (character (d'\<lparr>ld_utf8 := []\<rparr>) c)"
  | (more) "incomplete (ld_utf8 d @ [b])" "\<And>n. push_depth (Suc n) d b = Some (d'\<lparr>ld_utf8 := ld_utf8 d @ [b]\<rparr>, None)"
  | (alone) "ld_utf8 d = []" "\<And>n. push_depth (Suc n) d b = Some (character (d'\<lparr>ld_utf8 := []\<rparr>) 65533)"
  | (rest) "ld_utf8 d \<noteq> []" "\<And>n. push_depth (Suc n) d b =
      (case character (d'\<lparr>ld_utf8 := []\<rparr>) 65533 of (d'', line) \<Rightarrow> push_rest (push_depth n) d'' line [b])"
proof (cases "ld_utf8 d = [] \<and> b < 128")
  case True
  then have "d\<lparr>ld_line_started := True, ld_utf8 := []\<rparr> = d\<lparr>ld_line_started := True\<rparr>" by (cases d) simp
  note same = this
  show ?thesis using True assms(2) by (intro char [of b]) (simp add: same)
next
  case False
  then have big: "ld_utf8 d \<noteq> [] \<or> 128 \<le> b" by auto
  have len: "length (ld_utf8 d) < 4" by (rule incomplete_length [OF assms(1)])
  from utf8_extend [OF assms(1) big] consider c where "from_utf8 (ld_utf8 d @ [b]) = Inr [c]"
    | "from_utf8 (ld_utf8 d @ [b]) = Inl None" "incomplete (ld_utf8 d @ [b])"
    | "from_utf8 (ld_utf8 d @ [b]) = Inl (Some (max 1 (length (ld_utf8 d))))"
    by (auto simp: from_utf8_one from_utf8_error incomplete_def)
  then show ?thesis
  proof cases
    case (1 c)
    then show ?thesis using False len assms(2) by (intro char [of c]) (auto simp: Let_def not_le)
  next
    case 2
    then show ?thesis using False len assms(2) incomplete_length [OF 2(2)] by (intro more) (auto simp: Let_def not_le)
  next
    case 3
    show ?thesis
    proof (cases "ld_utf8 d = []")
      case True
      with 3 False assms(2) show ?thesis by (intro alone) (simp_all add: Let_def split: prod.split)
    next
      case ne: False
      then have "drop (max 1 (length (ld_utf8 d))) (ld_utf8 d @ [b]) = [b]" by (cases "ld_utf8 d") auto
      with 3 ne len assms(2) show ?thesis by (intro rest) (simp_all add: Let_def not_le)
    qed
  qed
qed

lemma push_depth_ok:
  assumes "decoder_ok d"
  shows "\<exists>d' line. push_depth (Suc (Suc n)) d b = Some (d', line) \<and> decoder_ok d'"
proof -
  have step: "\<exists>d' line. push_depth (Suc n) d b = Some (d', line) \<and> decoder_ok d'"
    if ok: "decoder_ok d" and empty: "ld_utf8 d = []" for d n
  proof -
    have inc: "incomplete (ld_utf8 d)" using ok by (simp add: decoder_ok_def)
    have ok': "decoder_ok (fst (character (d\<lparr>ld_line_started := True, ld_utf8 := []\<rparr>) c))" for c
      using ok by (intro character_ok decoder_ok_utf8) (simp_all add: incomplete_def)
    from inc refl show ?thesis
    proof (cases rule: push_depth_cases [where b = b])
      case (char c)
      with ok' [of c] show ?thesis by (metis prod.collapse)
    next
      case more
      with ok show ?thesis by (simp add: decoder_ok_utf8)
    next
      case alone
      with ok' [of 65533] show ?thesis by (metis prod.collapse)
    qed (simp add: empty)
  qed
  have inc: "incomplete (ld_utf8 d)" using assms by (simp add: decoder_ok_def)
  let ?d = "d\<lparr>ld_line_started := True, ld_utf8 := []\<rparr>"
  have ok': "decoder_ok (fst (character ?d c))" for c
    using assms by (intro character_ok decoder_ok_utf8) (simp_all add: incomplete_def)
  show ?thesis
  proof (cases "ld_utf8 d = []")
    case True
    then show ?thesis using step [OF assms] by blast
  next
    case False
    from inc refl show ?thesis
    proof (cases rule: push_depth_cases [where b = b])
      case (char c)
      with ok' [of c] show ?thesis by (metis prod.collapse)
    next
      case more
      with assms show ?thesis by (simp add: decoder_ok_utf8)
    next
      case rest
      obtain d1 line where c: "character ?d 65533 = (d1, line)" by fastforce
      then have "decoder_ok d1" "ld_utf8 d1 = []" using ok' [of 65533] character_utf8 [of ?d 65533] by simp_all
      from step [OF this, of n] rest c show ?thesis by auto
    qed (simp add: False)
  qed
qed

section \<open>Runs of the decoder\<close>

datatype dec_op = Byte byte | Window | Gap | Eof

fun dec_step :: "LineDecoder \<Rightarrow> dec_op \<Rightarrow> LineDecoder option" where
  "dec_step d (Byte b) = map_option fst (decoder_push d b)"
| "dec_step d Window = Some (decoder_window d)"
| "dec_step d Gap = Some (decoder_gap d)"
| "dec_step d Eof = Some (fst (decoder_eof d))"

lemma decoder_new_ok: "decoder_ok (decoder_new capture)"
  by (simp add: decoder_ok_def decoder_new_def incomplete_def)

lemma eof_ok: "decoder_ok d \<Longrightarrow> decoder_ok (fst (decoder_eof d))"
proof -
  assume ok: "decoder_ok d"
  have "decoder_ok (if ld_utf8 d \<noteq> [] then fst (character (d\<lparr>ld_utf8 := []\<rparr>) 65533) else d)"
    using ok by (simp add: character_ok decoder_ok_utf8 incomplete_def)
  then show ?thesis by (auto simp: decoder_eof_def Let_def decoder_ok_def finish_line_def)
qed

lemma dec_step_ok: "decoder_ok d \<Longrightarrow> \<exists>d'. dec_step d x = Some d' \<and> decoder_ok d'"
proof (cases x)
  case (Byte b)
  assume "decoder_ok d"
  from push_depth_ok [OF this, of 3 "unat b"] Byte show ?thesis
    by (auto simp: decoder_push_def eval_nat_numeral simp del: push_depth.simps)
next
  case Eof
  assume "decoder_ok d"
  then show ?thesis using Eof eof_ok by simp
qed (auto simp: decoder_window_def decoder_gap_def decoder_ok_def decoder_new_def incomplete_def)

text \<open>
  C10. Whatever bytes arrive, valid UTF-8 or not, and whatever windows, gaps and ends of output are
  taken in between, the decoder never panics: no write leaves the four-byte buffer, the calls a byte makes
  end, the buffer holds at most three bytes of an unfinished character, and the kept text is at most
  4096 bytes of a line that is captured, neither discarded nor oversized.
\<close>

theorem decoder_total:
  "\<exists>d. run_opt dec_step (decoder_new capture) ops = Some d \<and> decoder_ok d \<and> length (ld_utf8 d) \<le> 3"
proof -
  have "\<exists>d'. run_opt dec_step d ops = Some d' \<and> decoder_ok d'" if "decoder_ok d" for d
    using that
  proof (induction ops arbitrary: d)
    case (Cons x ops)
    then show ?case using dec_step_ok [OF Cons.prems, of x] by auto
  qed simp
  then obtain d where "run_opt dec_step (decoder_new capture) ops = Some d" "decoder_ok d"
    using decoder_new_ok by blast
  moreover from this(2) have "length (ld_utf8 d) \<le> 3"
    using incomplete_length [of "ld_utf8 d"] by (simp add: decoder_ok_def)
  ultimately show ?thesis by blast
qed

section \<open>The lines of a text\<close>

text \<open>\<open>char::encode_utf8\<close> and the scalar values it is defined on.\<close>

definition is_scalar :: "uchar \<Rightarrow> bool" where
  "is_scalar c \<longleftrightarrow> c < 55296 \<or> 57344 \<le> c \<and> c < 1114112"

definition encode_utf8 :: "uchar \<Rightarrow> nat list" where
  "encode_utf8 c =
     (if c < 128 then [c]
      else if c < 2048 then [192 + c div 64, 128 + c mod 64]
      else if c < 65536 then [224 + c div 4096, 128 + c div 64 mod 64, 128 + c mod 64]
      else [240 + c div 262144, 128 + c div 4096 mod 64, 128 + c div 64 mod 64, 128 + c mod 64])"

lemma is_cont_mod: "is_cont (128 + n mod 64)"
  by (simp add: is_cont_def)

lemma base_64:
  fixes c :: nat
  shows "c = c div 64 * 64 + c mod 64" "c = c div 4096 * 4096 + c div 64 mod 64 * 64 + c mod 64"
    "c = c div 262144 * 262144 + c div 4096 mod 64 * 4096 + c div 64 mod 64 * 64 + c mod 64"
proof -
  show one: "c = c div 64 * 64 + c mod 64" by simp
  have "c div 64 = c div 64 div 64 * 64 + c div 64 mod 64" by simp
  then have two: "c div 64 = c div 4096 * 64 + c div 64 mod 64" by (simp add: div_mult2_eq [symmetric])
  with one show "c = c div 4096 * 4096 + c div 64 mod 64 * 64 + c mod 64" by linarith
  have "c div 4096 = c div 4096 div 64 * 64 + c div 4096 mod 64" by simp
  then have "c div 4096 = c div 262144 * 64 + c div 4096 mod 64" by (simp add: div_mult2_eq [symmetric])
  with one two show "c = c div 262144 * 262144 + c div 4096 mod 64 * 4096 + c div 64 mod 64 * 64 + c mod 64"
    by linarith
qed

lemma utf8_first_two: "194 \<le> b0 \<Longrightarrow> b0 < 224 \<Longrightarrow> is_cont b1 \<Longrightarrow> utf8_first [b0, b1] = Inr ((b0 - 192) * 64 + (b1 - 128), [])"
  by simp

lemma utf8_first_three:
  "224 \<le> b0 \<Longrightarrow> b0 < 240 \<Longrightarrow> second_ok b0 b1 \<Longrightarrow> is_cont b2 \<Longrightarrow>
   utf8_first [b0, b1, b2] = Inr ((b0 - 224) * 4096 + (b1 - 128) * 64 + (b2 - 128), [])"
  by simp

lemma utf8_first_four:
  "240 \<le> b0 \<Longrightarrow> b0 < 245 \<Longrightarrow> second_ok b0 b1 \<Longrightarrow> is_cont b2 \<Longrightarrow> is_cont b3 \<Longrightarrow>
   utf8_first [b0, b1, b2, b3] = Inr ((b0 - 240) * 262144 + (b1 - 128) * 4096 + (b2 - 128) * 64 + (b3 - 128), [])"
  by simp

lemma decode_encode_utf8:
  assumes "is_scalar c"
  shows "utf8_first (encode_utf8 c) = Inr (c, [])"
proof -
  have mods: "c mod 64 < 64" "c div 64 mod 64 < 64" "c div 4096 mod 64 < 64" by simp_all
  consider "c < 128" | "128 \<le> c" "c < 2048" | "2048 \<le> c" "c < 65536" | "65536 \<le> c" by linarith
  then show ?thesis
  proof cases
    case 2
    have "2 \<le> c div 64" "c div 64 < 32" using 2 base_64(1) [of c] mods by linarith+
    moreover have "encode_utf8 c = [192 + c div 64, 128 + c mod 64]" using 2 by (simp add: encode_utf8_def)
    ultimately show ?thesis
      using base_64(1) [of c] by (simp add: is_cont_mod utf8_first_two del: utf8_first.simps)
  next
    case 3
    have "c div 4096 < 16" using 3 base_64(2) [of c] by linarith
    moreover have "second_ok (224 + c div 4096) (128 + c div 64 mod 64)"
      using 3 base_64(2) [of c] mods assms by (simp add: second_ok_def is_cont_def is_scalar_def) linarith
    ultimately show ?thesis
      using 3 base_64(2) [of c] by (simp add: encode_utf8_def is_cont_mod utf8_first_three del: utf8_first.simps)
  next
    case 4
    have "c div 262144 < 5" using base_64(3) [of c] mods assms by (simp add: is_scalar_def) linarith
    moreover have "second_ok (240 + c div 262144) (128 + c div 4096 mod 64)"
      using 4 base_64(3) [of c] mods assms by (simp add: second_ok_def is_cont_def is_scalar_def) linarith
    ultimately show ?thesis
      using 4 base_64(3) [of c] by (simp add: encode_utf8_def is_cont_mod utf8_first_four del: utf8_first.simps)
  qed (simp add: encode_utf8_def)
qed

text \<open>Feeding bytes and collecting the lines, first to last.\<close>

definition line_list :: "Line option \<Rightarrow> Line list" where
  "line_list line = (case line of None \<Rightarrow> [] | Some l \<Rightarrow> [l])"

fun push_all :: "LineDecoder \<Rightarrow> byte list \<Rightarrow> (LineDecoder \<times> Line list) option" where
  "push_all d [] = Some (d, [])"
| "push_all d (b # bs) =
     (case decoder_push d b of
        None \<Rightarrow> None
      | Some (d', line) \<Rightarrow> map_option (\<lambda>(d'', ls). (d'', line_list line @ ls)) (push_all d' bs))"

definition utf8_bytes :: "rtext \<Rightarrow> byte list" where
  "utf8_bytes t = map of_nat (concat (map encode_utf8 t))"

lemma push_all_append:
  "push_all d (xs @ ys) =
     (case push_all d xs of
        None \<Rightarrow> None
      | Some (d', ls) \<Rightarrow> map_option (\<lambda>(d'', ls'). (d'', ls @ ls')) (push_all d' ys))"
proof (induction xs arbitrary: d)
  case Nil
  then show ?case by (simp add: option.map_ident_strong)
next
  case (Cons x xs)
  then show ?case
    by (cases "decoder_push d x") (auto simp: option.map_comp comp_def intro!: option.map_cong split: option.splits prod.splits)
qed

lemma decoder_push_Suc: "decoder_push d b = push_depth (Suc 4) d (unat b)"
  by (simp add: decoder_push_def)

lemma push_ascii:
  "ld_utf8 d = [] \<Longrightarrow> unat b < 128 \<Longrightarrow> decoder_push d b = Some (character (d\<lparr>ld_line_started := True\<rparr>) (unat b))"
  unfolding decoder_push_Suc push_depth.simps Let_def by simp

lemma push_completes:
  assumes "from_utf8 (ld_utf8 d @ [unat b]) = Inr [c]" "\<not> (ld_utf8 d = [] \<and> unat b < 128)" "length (ld_utf8 d) < 4"
  shows "decoder_push d b = Some (character (d\<lparr>ld_line_started := True, ld_utf8 := []\<rparr>) c)"
  using assms unfolding decoder_push_Suc push_depth.simps Let_def by auto

lemma push_waits:
  assumes "from_utf8 (ld_utf8 d @ [unat b]) = Inl None" "\<not> (ld_utf8 d = [] \<and> unat b < 128)" "length (ld_utf8 d) < 3"
  shows "decoder_push d b = Some (d\<lparr>ld_line_started := True, ld_utf8 := ld_utf8 d @ [unat b]\<rparr>, None)"
  using assms unfolding decoder_push_Suc push_depth.simps Let_def by auto

lemma push_char_bytes:
  assumes "utf8_first (p @ q) = Inr (c, [])" "q \<noteq> []" "p \<noteq> [] \<or> 128 \<le> hd q"
    and "\<forall>b \<in> set q. b < 256" "ld_utf8 d = p"
  shows "\<exists>d'. d' = d\<lparr>ld_line_started := True, ld_utf8 := []\<rparr> \<and>
    push_all d (map of_nat q) = Some (fst (character d' c), line_list (snd (character d' c)))"
  using assms
proof (induction q arbitrary: p d)
  case (Cons b q)
  have b: "unat (of_nat b :: byte) = b" using Cons.prems(4) by (simp add: unat_of_nat take_bit_eq_mod)
  have first: "\<not> (p = [] \<and> b < 128)" using Cons.prems(3) by auto
  have four: "length p < 4"
  proof (cases "p = []")
    case False
    then show ?thesis
      using utf8_first_prefix [OF Cons.prems(1)] by (intro incomplete_length) (simp add: incomplete_def)
  qed simp
  let ?d = "d\<lparr>ld_line_started := True, ld_utf8 := p @ [b]\<rparr>"
  show ?case
  proof (cases "q = []")
    case True
    then have "from_utf8 (p @ [b]) = Inr [c]" using Cons.prems(1) by (simp add: from_utf8_one)
    with True first four Cons.prems(5) b push_completes [of d "of_nat b" c] show ?thesis
      by (simp add: split_beta)
  next
    case False
    then have inc: "utf8_first (p @ [b]) = Inl None" using Cons.prems(1) utf8_first_prefix [of "p @ [b]" q c] by simp
    then have "length (p @ [b]) < 4" by (intro incomplete_length) (simp add: incomplete_def)
    with inc first Cons.prems(5) b push_waits [of d "of_nat b"] have "decoder_push d (of_nat b) = Some (?d, None)"
      by (simp add: from_utf8_error)
    moreover have "push_all ?d (map of_nat q) =
        Some (fst (character (?d\<lparr>ld_line_started := True, ld_utf8 := []\<rparr>) c),
          line_list (snd (character (?d\<lparr>ld_line_started := True, ld_utf8 := []\<rparr>) c)))"
      using Cons.IH [of "p @ [b]" ?d] Cons.prems False by simp
    ultimately show ?thesis by (simp add: line_list_def)
  qed
qed simp

text \<open>Feeding characters.\<close>

fun char_all :: "LineDecoder \<Rightarrow> rtext \<Rightarrow> LineDecoder \<times> Line list" where
  "char_all d [] = (d, [])"
| "char_all d (c # t) =
     (let (d', line) = character (d\<lparr>ld_line_started := True\<rparr>) c; (d'', ls) = char_all d' t in (d'', line_list line @ ls))"

lemma encode_utf8_bytes: "is_scalar c \<Longrightarrow> b \<in> set (encode_utf8 c) \<Longrightarrow> b < 256"
  by (auto simp: encode_utf8_def is_scalar_def split: if_splits)

lemma push_encoded:
  assumes "is_scalar c" "ld_utf8 d = []"
  shows "push_all d (map of_nat (encode_utf8 c)) =
    Some (fst (character (d\<lparr>ld_line_started := True\<rparr>) c), line_list (snd (character (d\<lparr>ld_line_started := True\<rparr>) c)))"
proof -
  have same: "d\<lparr>ld_line_started := True, ld_utf8 := []\<rparr> = d\<lparr>ld_line_started := True\<rparr>" using assms(2) by (cases d) simp
  show ?thesis
  proof (cases "c < 128")
    case True
    then have "decoder_push d (of_nat c) = Some (character (d\<lparr>ld_line_started := True\<rparr>) c)"
      using push_ascii [of d "of_nat c"] assms(2) by (simp add: unat_of_nat take_bit_eq_mod)
    with True show ?thesis by (simp add: encode_utf8_def split_beta)
  next
    case False
    then have "encode_utf8 c \<noteq> []" "128 \<le> hd (encode_utf8 c)" by (auto simp: encode_utf8_def)
    with push_char_bytes [of "[]" "encode_utf8 c" c d] decode_encode_utf8 [OF assms(1)] encode_utf8_bytes [OF assms(1)] assms(2)
    show ?thesis by (simp add: same)
  qed
qed

lemma push_text: "list_all is_scalar t \<Longrightarrow> ld_utf8 d = [] \<Longrightarrow> push_all d (utf8_bytes t) = Some (char_all d t)"
proof (induction t arbitrary: d)
  case (Cons c t)
  let ?r = "character (d\<lparr>ld_line_started := True\<rparr>) c"
  have "push_all (fst ?r) (utf8_bytes t) = Some (char_all (fst ?r) t)"
    using Cons by simp
  with push_encoded [of c d] Cons.prems show ?case
    by (simp add: utf8_bytes_def push_all_append split_beta)
qed (simp add: utf8_bytes_def)

text \<open>
  The specification: control characters other than tab and line ends are dropped, each of CR, LF and CR LF
  ends a line, an unterminated last line counts if it is not empty, and a line of more than 4096 bytes
  is reported without its text.
\<close>

definition visible :: "rtext \<Rightarrow> rtext" where
  "visible t = filter (\<lambda>c. \<not> is_control c \<or> c \<in> {9, 10, 13}) t"

fun unix_newlines :: "bool \<Rightarrow> rtext \<Rightarrow> rtext" where
  "unix_newlines cr [] = []"
| "unix_newlines cr (c # t) =
     (if c = 10 \<and> cr then unix_newlines False t
      else if c = 13 then 10 # unix_newlines True t
      else c # unix_newlines False t)"

definition monitor_line :: "rtext \<Rightarrow> Line" where
  "monitor_line l = (if str_len l \<le> 4096 then Some l else None)"

definition monitor_lines :: "rtext list \<Rightarrow> Line list" where
  "monitor_lines ls = map monitor_line (if last ls = [] then butlast ls else ls)"

definition text_lines :: "rtext \<Rightarrow> Line list" where
  "text_lines t = monitor_lines (split_nl (unix_newlines False (visible t)))"

lemma split_nl_nonempty_list: "split_nl t \<noteq> []"
  by (induction t) (auto split: list.splits)

lemma split_nl_line: "10 \<notin> set l \<Longrightarrow> split_nl (l @ 10 # t) = l # split_nl t"
  by (induction l) auto

lemma split_nl_last: "10 \<notin> set l \<Longrightarrow> split_nl l = [l]"
  by (induction l) auto

lemma monitor_lines_Cons: "ls \<noteq> [] \<Longrightarrow> monitor_lines (l # ls) = monitor_line l # monitor_lines ls"
  by (simp add: monitor_lines_def)

text \<open>The decoder in the middle of a line \<open>cur\<close>, after a CR or not.\<close>

definition reading :: "LineDecoder \<Rightarrow> bool \<Rightarrow> rtext \<Rightarrow> bool" where
  "reading d cr cur \<longleftrightarrow> ld_control d = CText \<and> ld_utf8 d = [] \<and> ld_cr d = cr \<and> ld_capture d \<and> \<not> ld_discard d \<and>
     ld_partial d = (cur \<noteq> []) \<and> ld_oversized d = (4096 < str_len cur) \<and>
     ld_text d = (if 4096 < str_len cur then [] else cur) \<and> (cr \<longrightarrow> cur = []) \<and> 10 \<notin> set cur"

lemma reading_started: "reading d cr cur \<Longrightarrow> reading (d\<lparr>ld_line_started := True\<rparr>) cr cur"
  by (simp add: reading_def)

lemma reading_step:
  assumes "reading d cr cur" "c \<noteq> 27"
  shows "if c = 10 \<and> cr then reading (fst (character d c)) False cur \<and> snd (character d c) = None
    else if c = 10 \<or> c = 13
    then reading (fst (character d c)) (c = 13) [] \<and> snd (character d c) = Some (monitor_line cur)
    else if is_control c \<and> c \<noteq> 9 then reading (fst (character d c)) cr cur \<and> snd (character d c) = None
    else reading (fst (character d c)) False (cur @ [c]) \<and> snd (character d c) = None"
  using assms
  by (auto simp: reading_def character_def text_character_def finish_line_def monitor_line_def Let_def)

lemma reading_eof:
  assumes "reading d cr cur"
  shows "line_list (snd (decoder_eof d)) = monitor_lines [cur]"
  using assms by (auto simp: reading_def decoder_eof_def finish_line_def monitor_lines_def monitor_line_def line_list_def)

lemma char_all_lines:
  "reading d cr cur \<Longrightarrow> 27 \<notin> set t \<Longrightarrow>
     snd (char_all d t) @ line_list (snd (decoder_eof (fst (char_all d t)))) =
     monitor_lines (split_nl (cur @ unix_newlines cr (visible t)))"
proof (induction t arbitrary: d cr cur)
  case Nil
  then show ?case using reading_eof [OF Nil(1)] by (simp add: visible_def split_nl_last reading_def)
next
  case (Cons c t)
  let ?r = "character (d\<lparr>ld_line_started := True\<rparr>) c"
  have nl: "10 \<notin> set cur" using Cons.prems(1) by (simp add: reading_def)
  have all: "snd (char_all d (c # t)) = line_list (snd ?r) @ snd (char_all (fst ?r) t)"
    "fst (char_all d (c # t)) = fst (char_all (fst ?r) t)"
    by (simp_all add: Let_def split_beta)
  have step: "if c = 10 \<and> cr then reading (fst ?r) False cur \<and> snd ?r = None
    else if c = 10 \<or> c = 13 then reading (fst ?r) (c = 13) [] \<and> snd ?r = Some (monitor_line cur)
    else if is_control c \<and> c \<noteq> 9 then reading (fst ?r) cr cur \<and> snd ?r = None
    else reading (fst ?r) False (cur @ [c]) \<and> snd ?r = None"
    using reading_step [OF reading_started [OF Cons.prems(1)]] Cons.prems(2) by simp
  have rest: "27 \<notin> set t" using Cons.prems(2) by simp
  consider "c = 10 \<and> cr" | "(c = 10 \<or> c = 13) \<and> \<not> (c = 10 \<and> cr)" | "is_control c" "c \<notin> {9, 10, 13}"
    | "\<not> is_control c \<or> c = 9" "c \<notin> {10, 13}" by blast
  then show ?case
  proof cases
    case 1
    then show ?thesis
      unfolding all using step Cons.IH [of "fst ?r" False cur] rest by (simp add: line_list_def visible_def)
  next
    case 2
    then show ?thesis
      unfolding all using step Cons.IH [of "fst ?r" "c = 13" "[]"] rest nl
      by (auto simp: line_list_def visible_def split_nl_line monitor_lines_Cons split_nl_nonempty_list)
  next
    case 3
    then show ?thesis
      unfolding all using step Cons.IH [of "fst ?r" cr cur] rest by (simp add: line_list_def visible_def)
  next
    case 4
    then show ?thesis
      unfolding all using step Cons.IH [of "fst ?r" False "cur @ [c]"] rest
      by (auto simp: line_list_def visible_def)
  qed
qed

text \<open>
  C9. On a text without escape sequences the decoder reports exactly its lines: fed the UTF-8 bytes of
  the text one at a time and then the end of output, a fresh capturing decoder returns every line once
  and in order, line ends of all three kinds recognised, control characters dropped, characters of several
  bytes put together, and lines of more than 4096 bytes reported without text.
\<close>

theorem decoder_lines_exact:
  assumes "list_all is_scalar t" "27 \<notin> set t"
  shows "\<exists>d ls. push_all (decoder_new True) (utf8_bytes t) = Some (d, ls) \<and>
    ls @ line_list (snd (decoder_eof d)) = text_lines t"
proof -
  have new: "reading (decoder_new True) False []" "ld_utf8 (decoder_new True) = []"
    by (simp_all add: reading_def decoder_new_def)
  from push_text [OF assms(1) new(2)] char_all_lines [OF new(1) assms(2)] show ?thesis
    by (cases "char_all (decoder_new True) t") (simp add: text_lines_def)
qed

theorem decoder_lines_exact_witness:
  "\<exists>d ls. push_all (decoder_new True) (utf8_bytes [104, 233, 13, 10, 7, 128512]) = Some (d, ls) \<and>
    ls @ line_list (snd (decoder_eof d)) = [Some [104, 233], Some [128512]]"
proof -
  have "text_lines [104, 233, 13, 10, 7, 128512] = [Some [104, 233], Some [128512]]"
    by (simp add: text_lines_def visible_def is_control_def monitor_lines_def monitor_line_def str_len_def len_utf8_def)
  then show ?thesis
    using decoder_lines_exact [of "[104, 233, 13, 10, 7, 128512]"] by (simp add: is_scalar_def)
qed

end
