(* ===== verification/TerminalStream.thy ===== *)
theory TerminalStream
  imports Scrollback ConflateItems LineDecoder
begin

text \<open>
  A terminal's output from the reader thread to a client. \<open>publish_output\<close> of
  \<open>crates/intent-pty/src/host.rs\<close> appends a chunk to the scrollback ring, feeds it to the line decoder
  and broadcasts it with its range; \<open>emit_data\<close> of \<open>crates/intent-svc-runtime/src/terminal_ops.rs\<close> makes the event of it, which
  waits in a client's conflation buffer. The client shows a positioned snapshot of the ring and replays
  the frames it receives onto it. Shown: the two paths agree, whatever was merged on the way.
\<close>

section \<open>Publishing\<close>

record Fanout =
  fo_framing :: LineDecoder
  fo_scrollback :: scrollback

definition fanout_new :: "nat \<Rightarrow> Fanout" where
  "fanout_new cap = \<lparr>fo_framing = decoder_new False, fo_scrollback = sb_new cap\<rparr>"

text \<open>The chunk to send, if any. The lines the decoder reports are not used here.\<close>

definition publish_output :: "Fanout \<Rightarrow> byte list \<Rightarrow> (Fanout \<times> output_chunk option) option" where
  "publish_output f bytes =
     (if bytes = [] then Some (f, None)
      else
        let start_offset = end_offset (fo_scrollback f) in
        (case sb_push (fo_scrollback f) bytes of
           None \<Rightarrow> None
         | Some ring \<Rightarrow>
             (case push_all (fo_framing f) bytes of
                None \<Rightarrow> None
              | Some (framing, _) \<Rightarrow>
                  Some (\<lparr>fo_framing = framing, fo_scrollback = ring\<rparr>,
                    Some \<lparr>oc_bytes = bytes, oc_start_offset = start_offset, oc_end_offset = end_offset ring\<rparr>))))"

fun publish_all :: "Fanout \<Rightarrow> byte list list \<Rightarrow> (Fanout \<times> output_chunk list) option" where
  "publish_all f [] = Some (f, [])"
| "publish_all f (bytes # outs) =
     (case publish_output f bytes of
        None \<Rightarrow> None
      | Some (f', chunk) \<Rightarrow>
          map_option (\<lambda>(f'', chunks). (f'', (case chunk of None \<Rightarrow> [] | Some c \<Rightarrow> [c]) @ chunks))
            (publish_all f' outs))"

definition system_actor :: event_actor where
  "system_actor = \<lparr>ea_actor_type = ActorSystem, ea_id = Some (lit ''system''), ea_name = Some (lit ''System''),
     ea_email = None, ea_model = None, ea_metadata = None\<rparr>"

text \<open>The event of a chunk; its identifier and time are given.\<close>

definition new_terminal_event :: "rtext \<Rightarrow> rtext \<Rightarrow> rtext \<Rightarrow> rtext \<Rightarrow> json \<Rightarrow> event" where
  "new_terminal_event event_id timestamp workspace_id event_type data =
     \<lparr>ev_id = event_id, ev_workspace_id = workspace_id, ev_timestamp = timestamp, ev_event_type = event_type,
      ev_actor = system_actor, ev_session_id = None, ev_correlation_id = None, ev_parent_event_id = None,
      ev_metadata = None, ev_data = data\<rparr>"

definition emit_data ::
  "(byte list \<Rightarrow> rtext) \<Rightarrow> rtext \<Rightarrow> rtext \<Rightarrow> rtext \<Rightarrow> rtext \<Rightarrow> rtext \<Rightarrow> output_chunk \<Rightarrow> event" where
  "emit_data b64_encode event_id timestamp ws terminal_id daemon_boot_id output =
     new_terminal_event event_id timestamp ws TERMINAL_DATA
       (JObj [(''terminalId'', JStr terminal_id), (''chunk'', JStr (b64_encode (oc_bytes output))),
         (''daemonBootId'', JStr daemon_boot_id), (''startOffset'', JStr (dec_string (oc_start_offset output))),
         (''endOffset'', JStr (dec_string (oc_end_offset output)))])"

section \<open>Replaying\<close>

text \<open>What a client reads off a frame, and its replay: a gap asks for a fresh snapshot (\<open>None\<close>).\<close>

definition read_frame ::
  "(byte list \<Rightarrow> rtext) \<Rightarrow> (rtext \<Rightarrow> byte list option) \<Rightarrow> event_item \<Rightarrow> output_chunk option" where
  "read_frame b64_encode b64_decode item =
     (let data = ev_data (frame_event b64_encode item) in
      case (chunk_bytes b64_decode data, cursor_offset data ''startOffset'', cursor_offset data ''endOffset'') of
        (Some bytes, Some start, Some stop) \<Rightarrow>
          Some \<lparr>oc_bytes = bytes, oc_start_offset = start, oc_end_offset = stop\<rparr>
      | _ \<Rightarrow> None)"

definition replay :: "byte list \<times> nat \<Rightarrow> output_chunk \<Rightarrow> (byte list \<times> nat) option" where
  "replay shown chunk =
     (let (rendered, next) = shown in
      if oc_end_offset chunk \<le> next then Some (rendered, next)
      else if oc_start_offset chunk \<le> next
      then Some (rendered @ drop (next - oc_start_offset chunk) (oc_bytes chunk), oc_end_offset chunk)
      else None)"

fun replay_frames ::
  "(byte list \<Rightarrow> rtext) \<Rightarrow> (rtext \<Rightarrow> byte list option) \<Rightarrow> byte list \<times> nat \<Rightarrow> event_item list \<Rightarrow>
   (byte list \<times> nat) option" where
  "replay_frames b64_encode b64_decode shown [] = Some shown"
| "replay_frames b64_encode b64_decode shown (f # fs) =
     (case read_frame b64_encode b64_decode f of
        None \<Rightarrow> None
      | Some chunk \<Rightarrow>
          (case replay shown chunk of
             None \<Rightarrow> None
           | Some shown' \<Rightarrow> replay_frames b64_encode b64_decode shown' fs))"

section \<open>Contiguous chunks\<close>

text \<open>Chunks that tile a stretch of the stream, each with the range of its bytes.\<close>

fun tiles :: "nat \<Rightarrow> output_chunk list \<Rightarrow> nat \<Rightarrow> bool" where
  "tiles a [] b \<longleftrightarrow> a = b"
| "tiles a (c # cs) b \<longleftrightarrow>
     oc_start_offset c = a \<and> oc_end_offset c = a + length (oc_bytes c) \<and> oc_bytes c \<noteq> [] \<and> tiles (a + length (oc_bytes c)) cs b"

abbreviation chunks_bytes :: "output_chunk list \<Rightarrow> byte list" where
  "chunks_bytes cs \<equiv> concat (map oc_bytes cs)"

lemma tiles_length: "tiles a cs b \<Longrightarrow> b = a + length (chunks_bytes cs)"
proof (induction cs arbitrary: a)
  case (Cons c cs)
  then have "tiles (a + length (oc_bytes c)) cs b" by simp
  from Cons.IH [OF this] show ?case by simp
qed simp

lemma tiles_append: "tiles a (cs @ ds) b \<longleftrightarrow> (\<exists>m. tiles a cs m \<and> tiles m ds b)"
  by (induction cs arbitrary: a) auto

lemma publish_output_cases:
  assumes "publish_output f bytes = Some (f', chunk)"
  shows "(if bytes = [] then f' = f \<and> chunk = None
    else sb_push (fo_scrollback f) bytes = Some (fo_scrollback f') \<and>
      chunk = Some \<lparr>oc_bytes = bytes, oc_start_offset = sb_stream_offset (fo_scrollback f),
        oc_end_offset = sb_stream_offset (fo_scrollback f) + length bytes\<rparr>)"
  using assms by (auto simp: publish_output_def end_offset_def sb_push_offset split: if_splits option.splits)

lemma publish_all_tiles:
  "publish_all f outs = Some (f', cs) \<Longrightarrow>
     tiles (sb_stream_offset (fo_scrollback f)) cs (sb_stream_offset (fo_scrollback f')) \<and>
     chunks_bytes cs = concat outs \<and>
     run_opt sb_step (fo_scrollback f) (map Push (filter (\<lambda>x. x \<noteq> []) outs)) = Some (fo_scrollback f')"
proof (induction outs arbitrary: f cs)
  case (Cons bytes outs)
  then obtain f1 chunk cs1 where p: "publish_output f bytes = Some (f1, chunk)"
    and rest: "publish_all f1 outs = Some (f', cs1)" and cs: "cs = (case chunk of None \<Rightarrow> [] | Some c \<Rightarrow> [c]) @ cs1"
    by (auto split: option.splits)
  from Cons.IH [OF rest] publish_output_cases [OF p] cs sb_push_offset [of "fo_scrollback f" bytes "fo_scrollback f1"]
  show ?case by (auto split: if_splits)
qed simp

text \<open>The chunk a frame stands for when it merged a group of chunks.\<close>

definition joined :: "output_chunk list \<Rightarrow> output_chunk" where
  "joined cs = \<lparr>oc_bytes = chunks_bytes cs, oc_start_offset = oc_start_offset (hd cs), oc_end_offset = oc_end_offset (last cs)\<rparr>"

lemma tiles_joined:
  "tiles a (concat css) b \<Longrightarrow> \<forall>cs \<in> set css. cs \<noteq> [] \<Longrightarrow> tiles a (map joined css) b"
proof (induction css arbitrary: a)
  case (Cons cs css)
  then obtain m where m: "tiles a cs m" "tiles m (concat css) b" by (auto simp: tiles_append)
  have "oc_end_offset (last cs) = m" "oc_start_offset (hd cs) = a" "chunks_bytes cs \<noteq> []"
    using m(1) Cons.prems(2)
  proof (induction cs arbitrary: a)
    case (Cons c cs)
    { case 1 then show ?case using Cons.IH by (cases cs) auto }
    { case 2 then show ?case by simp }
    { case 3 then show ?case by simp }
  qed simp_all
  with Cons m tiles_length [OF m(1)] show ?case by (simp add: joined_def)
qed simp

lemma sb_push_le: "sb_push s d = Some s' \<Longrightarrow> sb_stream_offset s' \<le> u64_max"
  by (auto simp: sb_push_def Let_def checked_add_u64_def split: if_splits)

lemma publish_all_le:
  "publish_all f outs = Some (f', cs) \<Longrightarrow> sb_stream_offset (fo_scrollback f) \<le> u64_max \<Longrightarrow>
     sb_stream_offset (fo_scrollback f') \<le> u64_max"
proof (induction outs arbitrary: f cs)
  case (Cons bytes outs)
  then obtain f1 chunk cs1 where p: "publish_output f bytes = Some (f1, chunk)"
    and rest: "publish_all f1 outs = Some (f', cs1)"
    by (auto split: option.splits)
  have "sb_stream_offset (fo_scrollback f1) \<le> u64_max"
    using publish_output_cases [OF p] Cons.prems(2) by (auto dest: sb_push_le split: if_splits)
  with Cons.IH [OF rest] show ?case by simp
qed simp

lemma tiles_le: "tiles a cs b \<Longrightarrow> c \<in> set cs \<Longrightarrow> oc_start_offset c \<le> b \<and> oc_end_offset c \<le> b \<and> oc_bytes c \<noteq> []"
proof (induction cs arbitrary: a)
  case (Cons c' cs)
  then show ?case using tiles_length [of "oc_end_offset c'" cs b] by auto
qed simp

text \<open>Replaying tiling chunks onto a text that reaches into them appends what is missing.\<close>

fun replay_all :: "byte list \<times> nat \<Rightarrow> output_chunk list \<Rightarrow> (byte list \<times> nat) option" where
  "replay_all shown [] = Some shown"
| "replay_all shown (c # cs) = Option.bind (replay shown c) (\<lambda>shown'. replay_all shown' cs)"

lemma replay_tiles:
  "tiles a cs b \<Longrightarrow> a \<le> n \<Longrightarrow> n \<le> b \<Longrightarrow> replay_all (r, n) cs = Some (r @ drop (n - a) (chunks_bytes cs), b)"
proof (induction cs arbitrary: a r n)
  case (Cons c cs)
  let ?e = "oc_end_offset c"
  have c: "oc_start_offset c = a" "?e = a + length (oc_bytes c)" "tiles ?e cs b" using Cons.prems by auto
  show ?case
  proof (cases "?e \<le> n")
    case True
    then show ?thesis
      using Cons.IH [OF c(3), of n r] Cons.prems c by (simp add: replay_def)
  next
    case False
    then show ?thesis
      using Cons.IH [OF c(3), of ?e "r @ drop (n - a) (oc_bytes c)"] Cons.prems c tiles_length [OF c(3)]
      by (simp add: replay_def)
  qed
qed simp

lemma replay_frames_read:
  "map (read_frame E D) fs = map Some cs \<Longrightarrow> replay_frames E D shown fs = replay_all shown cs"
  by (induction fs arbitrary: cs shown) (auto split: option.splits)

section \<open>Frames of conflated chunks\<close>

lemma cursor_without [simp]: "k \<notin> ks \<Longrightarrow> cursor_offset (json_without ks d) k = cursor_offset d k"
proof (cases d)
  case (JObj m)
  moreover assume "k \<notin> ks"
  moreover from this have "map_of (obj_without ks m) k = map_of m k"
    by (induction m) (auto simp: obj_without_def)
  ultimately show ?thesis by (simp add: cursor_offset_def get_str_def)
qed simp_all

lemma read_frame_says:
  assumes says: "event_says E D f = \<lparr>ec_start = Some a, ec_bytes = bs, ec_event = e\<rparr>" and "bs \<noteq> []"
    and stop: "cursor_offset (ev_data e) ''endOffset'' = Some b"
  shows "read_frame E D f = Some \<lparr>oc_bytes = bs, oc_start_offset = a, oc_end_offset = b\<rparr>"
proof (cases f)
  case (Latest x)
  with says show ?thesis by (simp add: event_says_def)
next
  case (TerminalItem x y)
  let ?d = "ev_data (frame_event E f)"
  have "cursor_offset ?d ''startOffset'' = Some a" "chunk_bytes D ?d = Some bs" "cursor_offset ?d ''endOffset'' = Some b"
    using says stop \<open>bs \<noteq> []\<close> TerminalItem by (auto simp: event_says_def Let_def split: option.splits)
  then show ?thesis by (simp add: read_frame_def)
qed

definition chunk_item ::
  "(byte list \<Rightarrow> rtext) \<Rightarrow> (rtext \<Rightarrow> byte list option) \<Rightarrow> rtext \<Rightarrow> rtext \<Rightarrow> rtext \<Rightarrow>
   rtext \<times> rtext \<times> output_chunk \<Rightarrow> event_item" where
  "chunk_item b64_encode b64_decode ws terminal_id boot x =
     (case x of (event_id, timestamp, c) \<Rightarrow>
        event_item_new b64_decode (Terminal ws terminal_id)
          (emit_data b64_encode event_id timestamp ws terminal_id boot c))"

lemma emit_data_key: "event_key (emit_data E i t ws tid boot c) = Some (Terminal ws tid)"
  by (simp add: event_key_def emit_data_def new_terminal_event_def str_field_def get_str_def
      TERMINAL_DATA_def AGENT_STREAM_ACTIVITY_def lit_def)

lemma cursor_offset_member:
  "map_of m k = Some (JStr (dec_string n)) \<Longrightarrow> n \<le> u64_max \<Longrightarrow> cursor_offset (JObj m) k = Some n"
  by (auto simp: cursor_offset_def get_str_def list_all_iff dec_string_digits)

lemma chunk_item_says:
  assumes "D (E (oc_bytes c)) = Some (oc_bytes c)" "oc_start_offset c \<le> u64_max" "oc_end_offset c \<le> u64_max"
  shows "ec_start (event_says E D (chunk_item E D ws tid boot (i, t, c))) = Some (oc_start_offset c) \<and>
    ec_bytes (event_says E D (chunk_item E D ws tid boot (i, t, c))) = oc_bytes c \<and>
    cursor_offset (ev_data (ec_event (event_says E D (chunk_item E D ws tid boot (i, t, c))))) ''endOffset'' =
      Some (oc_end_offset c)"
  using assms
  by (simp add: chunk_item_def event_item_new_def emit_data_def new_terminal_event_def event_says_def Let_def
      get_str_def chunk_bytes_def cursor_offset_member obj_without_def)

lemma event_group_content:
  "g \<noteq> [] \<Longrightarrow> group_content says event_comb g =
     \<lparr>ec_start = ec_start (says (hd g)), ec_bytes = concat (map (\<lambda>x. ec_bytes (says x)) g), ec_event = ec_event (says (last g))\<rparr>"
proof (induction g rule: rev_induct)
  case (snoc x g)
  then show ?case by (cases "g = []") (simp_all add: event_comb_def)
qed simp

lemma concat_map_split: "concat gss = map f xs \<Longrightarrow> \<exists>xss. concat xss = xs \<and> map (map f) xss = gss"
proof (induction gss arbitrary: xs)
  case (Cons gs gss)
  then obtain us vs where xs: "xs = us @ vs" "gs = map f us" "concat gss = map f vs"
    by (auto simp: append_eq_map_conv)
  with Cons.IH obtain vss where "concat vss = vs" "map (map f) vss = gss" by blast
  with xs show ?case by (intro exI [of _ "us # vss"]) simp
qed simp

text \<open>When every accepted push has one key, the groups are the pushes cut into pieces.\<close>

lemma conflates_one_key:
  assumes "conflates content comb (map (Pair key) xs) frames"
  obtains xss where "concat xss = xs" "\<forall>ys \<in> set xss. ys \<noteq> []"
    and "map (\<lambda>f. content (snd f)) frames = map (group_content content comb) xss"
proof -
  from assms obtain gs where gs: "list_all2 (\<lambda>f g. fst f = fst g \<and> snd g \<noteq> [] \<and>
       content (snd f) = group_content content comb (snd g)) frames gs"
    and all: "\<And>k. groups_of k gs = items_of k (map (Pair key) xs)"
    by (auto simp: conflates_def)
  have items: "items_of k (map (Pair key) xs) = (if k = key then xs else [])" for k
    by (induction xs) auto
  have some: "snd g \<noteq> []" if "g \<in> set gs" for g
    using gs that by (auto simp: list_all2_conv_all_nth in_set_conv_nth)
  have "fst g = key" if "g \<in> set gs" for g
    using all [of "fst g"] items [of "fst g"] some [OF that] that by (auto simp: groups_of_def split: if_splits)
  then have "groups_of key gs = concat (map snd gs)" by (simp add: groups_of_def filter_id_conv)
  then have "concat (map snd gs) = xs" using all [of key] items [of key] by simp
  moreover have "map (\<lambda>f. content (snd f)) frames = map (group_content content comb) (map snd gs)"
    using gs by (auto simp: list_all2_conv_all_nth intro!: nth_equalityI)
  ultimately show thesis using some by (intro that [of "map snd gs"]) auto
qed

text \<open>So each frame reads as its group of chunks joined.\<close>

lemma frames_joined:
  assumes dec: "\<And>bs. D (E bs) = Some bs"
    and con: "conflates (event_says E D) event_comb (map (Pair key) (map (chunk_item E D ws tid boot) xs)) frames"
    and chunks: "tiles a (map (snd \<circ> snd) xs) b" "b \<le> u64_max"
  obtains cs where "tiles a cs b" "chunks_bytes cs = chunks_bytes (map (snd \<circ> snd) xs)"
    and "map (read_frame E D) (map snd frames) = map Some cs"
proof -
  let ?item = "chunk_item E D ws tid boot" and ?chunk = "snd \<circ> snd"
  obtain gss where gss: "concat gss = map ?item xs" "\<forall>g \<in> set gss. g \<noteq> []"
      "map (\<lambda>f. event_says E D (snd f)) frames = map (group_content (event_says E D) event_comb) gss"
    using conflates_one_key [OF con] by blast
  from concat_map_split [OF gss(1)] obtain xss where xss: "concat xss = xs" "map (map ?item) xss = gss" by blast
  let ?css = "map (map ?chunk) xss"
  have css: "concat ?css = map ?chunk xs" using xss(1) by (simp flip: map_concat)
  have some: "\<forall>ys \<in> set xss. ys \<noteq> []" using gss(2) xss(2) by auto
  have chunk: "ec_start (event_says E D (?item x)) = Some (oc_start_offset (?chunk x)) \<and>
      ec_bytes (event_says E D (?item x)) = oc_bytes (?chunk x) \<and> oc_bytes (?chunk x) \<noteq> [] \<and>
      cursor_offset (ev_data (ec_event (event_says E D (?item x)))) ''endOffset'' = Some (oc_end_offset (?chunk x))"
    if "x \<in> set xs" for x
  proof -
    obtain i t c where x: "x = (i, t, c)" by (cases x)
    have "oc_start_offset c \<le> b \<and> oc_end_offset c \<le> b \<and> oc_bytes c \<noteq> []"
      using tiles_le [OF chunks(1), of c] that by (force simp: x)
    with chunks(2) chunk_item_says [of D E c, OF dec] show ?thesis by (simp add: x)
  qed
  have read: "read_frame E D f = Some (joined (map ?chunk ys))"
    if says: "event_says E D f = group_content (event_says E D) event_comb (map ?item ys)" and ys: "ys \<in> set xss" for f ys
  proof -
    have sub: "set ys \<subseteq> set xs" and ne: "ys \<noteq> []" using ys xss(1) some by auto
    have bytes: "concat (map (\<lambda>x. ec_bytes (event_says E D (?item x))) ys) = chunks_bytes (map ?chunk ys)"
      using sub chunk by (induction ys) auto
    have ends: "hd ys \<in> set xs" "last ys \<in> set xs" using sub ne hd_in_set last_in_set by auto
    have nonempty: "chunks_bytes (map ?chunk ys) \<noteq> []" using chunk [OF ends(1)] ne by (cases ys) auto
    have "event_says E D f = \<lparr>ec_start = Some (oc_start_offset (?chunk (hd ys))),
        ec_bytes = chunks_bytes (map ?chunk ys), ec_event = ec_event (event_says E D (?item (last ys)))\<rparr>"
      using says bytes ne chunk [OF ends(1)] by (simp add: event_group_content hd_map last_map comp_def)
    from read_frame_says [OF this nonempty] chunk [OF ends(2)] ne show ?thesis
      by (simp add: joined_def hd_map last_map)
  qed
  have "map (read_frame E D) (map snd frames) = map Some (map joined ?css)"
    using gss(3) read unfolding xss(2) [symmetric]
    by (auto simp: list_eq_iff_nth_eq)
  moreover have "tiles a (map joined ?css) b"
    using tiles_joined [of a ?css b] chunks(1) some css by auto
  moreover have "chunks_bytes (map joined ?css) = chunks_bytes (concat ?css)"
    by (induction xss) (simp_all add: joined_def)
  ultimately show thesis using css by (intro that [of "map joined ?css"]) simp_all
qed

section \<open>The stream as the client sees it\<close>

text \<open>
  A client's feed: \<open>Some (event id, timestamp, chunk)\<close> queues the event of a chunk, \<open>None\<close> sends a
  frame; the chunks queued; and the pushes of a sequence of buffer operations.
\<close>

type_synonym terminal_feed = "(rtext \<times> rtext \<times> output_chunk) option list"

definition feed_ops ::
  "(byte list \<Rightarrow> rtext) \<Rightarrow> (rtext \<Rightarrow> byte list option) \<Rightarrow> rtext \<Rightarrow> rtext \<Rightarrow> rtext \<Rightarrow> terminal_feed \<Rightarrow>
   event_item cb_op list" where
  "feed_ops b64_encode b64_decode ws terminal_id boot feed =
     event_ops b64_decode
       (map (map_option (\<lambda>(i, t, c). (Terminal ws terminal_id, emit_data b64_encode i t ws terminal_id boot c))) feed)"

definition queued :: "terminal_feed \<Rightarrow> output_chunk list" where
  "queued feed = map (snd \<circ> snd) (List.map_filter id feed)"

definition pushes :: "'t cb_op list \<Rightarrow> (key \<times> 't) list" where
  "pushes ops = List.map_filter (\<lambda>p. case p of OpPush k x \<Rightarrow> Some (k, x) | OpPop \<Rightarrow> None) ops"

lemma pushes_feed:
  "pushes (feed_ops E D ws tid boot feed) =
     map (Pair (Terminal ws tid)) (map (chunk_item E D ws tid boot) (List.map_filter id feed))"
  by (induction feed)
    (auto simp: pushes_def feed_ops_def event_ops_def chunk_item_def map_filter_simps split: option.splits)

lemma feed_conflates:
  assumes dec: "\<And>bs. D (E bs) = Some bs" and "length feed \<le> u64_max"
    and "run_opt (cb_step event_merge event_cost) (cb_bounded n m, [], []) (feed_ops E D ws tid boot feed) = Some (b, acc, del)"
  shows "conflates (event_says E D) event_comb acc (del @ pending b)"
proof -
  have len: "length (feed_ops E D ws tid boot feed) \<le> u64_max"
    using assms(2) by (simp add: feed_ops_def event_ops_def)
  have fresh: "pushes_ok (event_fresh D) (feed_ops E D ws tid boot feed)"
    unfolding feed_ops_def by (rule event_ops_fresh)
  from conflatable.run_conflates [OF event_conflatable [OF dec] fresh len, where n = n and m = m and cost = event_cost] assms(3)
  show ?thesis by auto
qed

lemma publish_history:
  assumes "publish_all (fanout_new m) outs = Some (f, cs)"
  shows "sb_refines (fo_scrollback f) (concat outs, 0)"
proof -
  have run: "run_opt sb_step (sb_new m) (map Push (filter (\<lambda>x. x \<noteq> []) outs)) = Some (fo_scrollback f)"
    using publish_all_tiles [OF assms] by (simp add: fanout_new_def)
  have "foldl history_step (h, 0) (map Push (filter (\<lambda>x. x \<noteq> []) xs)) = (h @ concat xs, 0)" for h xs
    by (induction xs arbitrary: h) auto
  from sb_run_refines [OF run] this [of "[]" outs] show ?thesis by (simp del: sb_refines.simps)
qed

lemma tiles_drop:
  assumes "tiles a cs b"
  shows "\<exists>m. tiles m (drop j cs) b \<and> a \<le> m \<and> m \<le> b \<and> chunks_bytes (drop j cs) = drop (m - a) (chunks_bytes cs)"
proof -
  obtain m where m: "tiles a (take j cs) m" "tiles m (drop j cs) b"
    using assms tiles_append [of a "take j cs" "drop j cs" b] by auto
  have "chunks_bytes cs = chunks_bytes (take j cs) @ chunks_bytes (drop j cs)"
    by (metis append_take_drop_id concat_append map_append)
  with tiles_length [OF m(1)] tiles_length [OF m(2)] m show ?thesis by (intro exI [of _ m]) auto
qed

text \<open>An example: two outputs, the snapshot between them, and the two events merged into one frame.\<close>

definition demo_chunks :: "output_chunk list" where
  "demo_chunks = [\<lparr>oc_bytes = [97, 98], oc_start_offset = 0, oc_end_offset = 2\<rparr>,
     \<lparr>oc_bytes = [99], oc_start_offset = 2, oc_end_offset = 3\<rparr>]"

definition demo_fanout :: "byte list \<Rightarrow> Fanout" where
  "demo_fanout bs =
     \<lparr>fo_framing = (decoder_new False)\<lparr>ld_line_started := True, ld_partial := True\<rparr>,
      fo_scrollback =
        (sb_new 100)\<lparr>sb_buf := bs, sb_stream_offset := length bs, sb_non_whitespace_bytes := length bs\<rparr>\<rparr>"

definition demo_feed :: terminal_feed where
  "demo_feed = [Some (lit ''1'', lit ''t'', demo_chunks ! 0), Some (lit ''2'', lit ''t'', demo_chunks ! 1), None]"

lemma demo_publish:
  "publish_all (fanout_new 100) [[97, 98]] = Some (demo_fanout [97, 98], [demo_chunks ! 0])"
  "publish_all (demo_fanout [97, 98]) [[99]] = Some (demo_fanout [97, 98, 99], [demo_chunks ! 1])"
  by (simp_all add: publish_output_def sb_push_def demo_fanout_def fanout_new_def sb_new_def end_offset_def
      demo_chunks_def checked_add_u64_def u64_max_def newline_offsets_def non_ws_def is_ascii_whitespace_def Let_def
      push_ascii decoder_new_def character_def text_character_def is_control_def)

lemma demo_snapshot: "positioned_snapshot (fo_scrollback (demo_fanout [97, 98])) 100 = Some (demo_chunks ! 0)"
  by (simp add: positioned_snapshot_def snapshot_tail_def copy_range_def demo_fanout_def sb_new_def demo_chunks_def)

lemma merged_run:
  assumes "event_merge x y = (z, None)" "event_cost x + event_cost y \<le> 100"
  shows "\<exists>b del. run_opt (cb_step event_merge event_cost) (cb_bounded 4 100, [], []) [OpPush key x, OpPush key y, OpPop] =
    Some (b, [(key, x), (key, y)], del)"
  using assms by (simp add: cb_push_def cb_append_def cb_alloc_def cb_bounded_def cb_pop_def Let_def)

abbreviation demo_item :: "nat \<Rightarrow> event_item" where
  "demo_item i \<equiv> chunk_item raw_encode raw_decode (lit ''w'') (lit ''p'') (lit ''b'') (the (demo_feed ! i))"

lemma demo_ops:
  "feed_ops raw_encode raw_decode (lit ''w'') (lit ''p'') (lit ''b'') demo_feed =
     [OpPush (Terminal (lit ''w'') (lit ''p'')) (demo_item 0), OpPush (Terminal (lit ''w'') (lit ''p'')) (demo_item 1), OpPop]"
  by (simp add: feed_ops_def event_ops_def demo_feed_def chunk_item_def)

lemma demo_items:
  "\<exists>e. demo_item 0 = TerminalItem e (Some [97, 98]) \<and> terminal_cursor (ev_data e) 2 = Positioned (lit ''b'') 0 2"
  "\<exists>e. demo_item 1 = TerminalItem e (Some [99]) \<and> terminal_cursor (ev_data e) 1 = Positioned (lit ''b'') 2 3"
  by (simp_all add: chunk_item_def demo_feed_def demo_chunks_def event_item_new_def emit_data_def
      new_terminal_event_def get_str_def raw_codec terminal_cursor_def cursor_offset_member u64_max_def)
    (simp_all add: lit_def)

lemma demo_run:
  "\<exists>b del. run_opt (cb_step event_merge event_cost) (cb_bounded 4 100, [], [])
     (feed_ops raw_encode raw_decode (lit ''w'') (lit ''p'') (lit ''b'') demo_feed) =
     Some (b, pushes (feed_ops raw_encode raw_decode (lit ''w'') (lit ''p'') (lit ''b'') demo_feed), del)"
proof -
  obtain e e' where items: "demo_item 0 = TerminalItem e (Some [97, 98])" "demo_item 1 = TerminalItem e' (Some [99])"
      "terminal_cursor (ev_data e) 2 = Positioned (lit ''b'') 0 2" "terminal_cursor (ev_data e') 1 = Positioned (lit ''b'') 2 3"
    using demo_items by blast
  then obtain z where merge: "event_merge (demo_item 0) (demo_item 1) = (z, None)"
    by (simp add: TERMINAL_CONCAT_CAP_BYTES_def numeral_2_eq_2)
  have cost: "event_cost (demo_item 0) + event_cost (demo_item 1) \<le> 100" using items by simp
  have "pushes [OpPush k x, OpPush k y, OpPop] = [(k, x), (k, y)]" for k and x y :: event_item
    by (simp add: pushes_def map_filter_simps)
  with merged_run [OF merge cost] show ?thesis unfolding demo_ops by simp
qed

text \<open>
  C4. A client that shows a positioned snapshot and replays the conflated frames sees the terminal's
  output exactly once and in order. Let the snapshot be taken after the outputs \<open>before\<close>, and let the
  client's buffer get the events of some last chunks of \<open>before\<close> and of all later chunks, with frames
  sent at any moments and no push refused. Then no frame leaves a gap, and after the frames sent and
  those still pending the client shows the whole stream from the start of the snapshot.
\<close>

theorem terminal_replay_exact:
  assumes dec: "\<And>bs. D (E bs) = Some bs"
    and pub: "publish_all (fanout_new m) before = Some (f1, cs1)" "publish_all f1 after = Some (f2, cs2)"
    and snap: "positioned_snapshot (fo_scrollback f1) k = Some snap"
    and feed: "queued feed = drop j cs1 @ cs2" "length feed \<le> u64_max"
    and run: "run_opt (cb_step event_merge event_cost) (cb_bounded n mx, [], []) (feed_ops E D ws tid boot feed) =
      Some (b, acc, del)" "acc = pushes (feed_ops E D ws tid boot feed)"
  shows "replay_frames E D (oc_bytes snap, oc_end_offset snap) (map snd (del @ pending b)) =
    Some (drop (oc_start_offset snap) (concat (before @ after)), length (concat (before @ after)))"
proof -
  let ?xs = "List.map_filter id feed" and ?n = "length (concat before)"
  have t1: "tiles 0 cs1 ?n" "chunks_bytes cs1 = concat before" and off: "sb_stream_offset (fo_scrollback f1) = ?n"
    using publish_all_tiles [OF pub(1)] publish_history [OF pub(1)] by (auto simp: fanout_new_def sb_new_def)
  have t2: "tiles ?n cs2 (sb_stream_offset (fo_scrollback f2))" "chunks_bytes cs2 = concat after"
    using publish_all_tiles [OF pub(2)] off by auto
  obtain a where a: "tiles a (drop j cs1) ?n" "a \<le> ?n" "chunks_bytes (drop j cs1) = drop a (concat before)"
    using tiles_drop [OF t1(1), of j] t1(2) by auto
  have end2: "sb_stream_offset (fo_scrollback f2) = length (concat (before @ after))"
    using tiles_length [OF t2(1)] t2(2) by simp
  have le: "sb_stream_offset (fo_scrollback f2) \<le> u64_max"
    using publish_all_le [OF pub(2)] publish_all_le [OF pub(1)] by (simp add: fanout_new_def sb_new_def)
  have xs: "map (snd \<circ> snd) ?xs = drop j cs1 @ cs2" using feed(1) by (simp only: queued_def)
  have tiles: "tiles a (map (snd \<circ> snd) ?xs) (sb_stream_offset (fo_scrollback f2))"
    unfolding xs tiles_append using a(1) t2(1) by blast
  have "conflates (event_says E D) event_comb (map (Pair (Terminal ws tid)) (map (chunk_item E D ws tid boot) ?xs)) (del @ pending b)"
    using feed_conflates [OF dec feed(2) run(1)] unfolding run(2) pushes_feed .
  from frames_joined [OF dec this tiles le] obtain cs where cs: "tiles a cs (sb_stream_offset (fo_scrollback f2))"
      "chunks_bytes cs = chunks_bytes (drop j cs1 @ cs2)" "map (read_frame E D) (map snd (del @ pending b)) = map Some cs"
    unfolding xs by blast
  have snap': "oc_end_offset snap = ?n" "oc_start_offset snap \<le> ?n" "oc_bytes snap = drop (oc_start_offset snap) (concat before)"
    using snapshot_refines [OF publish_history [OF pub(1)], of k] snap by auto
  have "replay_frames E D (oc_bytes snap, ?n) (map snd (del @ pending b)) =
      Some (oc_bytes snap @ drop (?n - a) (chunks_bytes cs), sb_stream_offset (fo_scrollback f2))"
    unfolding replay_frames_read [OF cs(3)]
    by (rule replay_tiles [OF cs(1) a(2)]) (simp add: end2)
  moreover have "drop (?n - a) (chunks_bytes cs) = concat after"
    using a(2,3) t2(2) by (simp add: cs(2))
  ultimately show ?thesis using snap' end2 by simp
qed

theorem terminal_replay_exact_witness:
  "\<exists>b del. run_opt (cb_step event_merge event_cost) (cb_bounded 4 100, [], [])
     (feed_ops raw_encode raw_decode (lit ''w'') (lit ''p'') (lit ''b'') demo_feed) =
     Some (b, pushes (feed_ops raw_encode raw_decode (lit ''w'') (lit ''p'') (lit ''b'') demo_feed), del) \<and>
   replay_frames raw_encode raw_decode ([97, 98], 2) (map snd (del @ pending b)) = Some ([97, 98, 99], 3)"
proof -
  obtain b del where run: "run_opt (cb_step event_merge event_cost) (cb_bounded 4 100, [], [])
     (feed_ops raw_encode raw_decode (lit ''w'') (lit ''p'') (lit ''b'') demo_feed) =
     Some (b, pushes (feed_ops raw_encode raw_decode (lit ''w'') (lit ''p'') (lit ''b'') demo_feed), del)"
    using demo_run by blast
  have feed: "queued demo_feed = drop 0 [demo_chunks ! 0] @ [demo_chunks ! 1]" "length demo_feed \<le> u64_max"
    by (simp_all add: queued_def demo_feed_def map_filter_simps u64_max_def)
  from terminal_replay_exact [OF raw_codec demo_publish demo_snapshot feed run refl] run show ?thesis
    by (auto simp: demo_chunks_def)
qed

end
