(* ===== verification/Pagination.thy ===== *)
theory Pagination
  imports Json "HOL-Library.Char_ord" "HOL-Library.Product_Lexorder" "HOL-Library.Sublist"
begin

text \<open>
  The pagination contract of \<open>crates/intent-services/src/pagination.rs\<close>: limits, opaque
  continuation tokens, backward and forward page windows, byte-budgeted pages, text pages that may
  stop inside a line, queue pages, keyset tokens and bounded rows.

  Base64 and JSON (de)serialisation are the fields of a \<open>codec\<close>; \<open>codec_ok\<close> states what the code
  relies on: a token's cursor decodes to what was encoded.
\<close>

section \<open>Tokens\<close>

record codec =
  b64_encode :: "byte list \<Rightarrow> rtext"
  b64_decode :: "rtext \<Rightarrow> byte list option"
  to_vec :: "json \<Rightarrow> byte list"
  from_slice :: "byte list \<Rightarrow> json option"
  to_text :: "json \<Rightarrow> rtext"
  from_str :: "rtext \<Rightarrow> json option"

definition encode_token :: "codec \<Rightarrow> json \<Rightarrow> rtext" where
  "encode_token cd cursor = b64_encode cd (to_vec cd cursor)"

definition decode_token :: "codec \<Rightarrow> rtext \<Rightarrow> json option" where
  "decode_token cd token = Option.bind (b64_decode cd token) (from_slice cd)"

text \<open>The cursors the module mints: objects of small numbers.\<close>

definition cursor_fields :: "(string \<times> nat) list \<Rightarrow> json" where
  "cursor_fields fs = JObj (map (\<lambda>(k, n). (k, jnat n)) fs)"

definition codec_ok :: "codec \<Rightarrow> bool" where
  "codec_ok cd \<longleftrightarrow>
     (\<forall>bs. b64_decode cd (b64_encode cd bs) = Some bs) \<and>
     (\<forall>k n. n \<le> usize_max \<longrightarrow> from_slice cd (to_vec cd (cursor_fields [([k], n)])) = Some (cursor_fields [([k], n)])) \<and>
     (\<forall>n c. n \<le> usize_max \<longrightarrow> c \<le> usize_max \<longrightarrow>
        from_slice cd (to_vec cd (cursor_fields [(''b'', n), (''c'', c)])) =
          Some (cursor_fields [(''b'', n), (''c'', c)]))"

section \<open>Limits\<close>

definition DEFAULT_PAGE_LIMIT :: nat where
  "DEFAULT_PAGE_LIMIT = 50"

definition MAX_PAGE_LIMIT :: nat where
  "MAX_PAGE_LIMIT = 200"

definition clamp_limit :: "int option \<Rightarrow> nat" where
  "clamp_limit limit =
     (case limit of
        None \<Rightarrow> DEFAULT_PAGE_LIMIT
      | Some l \<Rightarrow> nat (max 1 (min l (int MAX_PAGE_LIMIT))))"

definition clamp_page_limit :: "int option \<Rightarrow> nat \<Rightarrow> nat \<Rightarrow> nat" where
  "clamp_page_limit limit dflt mx =
     (case limit of None \<Rightarrow> dflt | Some l \<Rightarrow> min (nat (max l 1)) mx)"

section \<open>Page windows\<close>

record PageWindow =
  pw_start :: nat
  pw_end :: nat
  pw_next_token :: "rtext option"

record SeekPageWindow =
  sw_start :: nat
  sw_end :: nat
  sw_next_token :: "rtext option"
  sw_prev_token :: "rtext option"

definition cursor_u64 :: "json \<Rightarrow> string \<Rightarrow> nat option" where
  "cursor_u64 v k = Option.bind (json_get v k) as_u64"

definition backward_page_token :: "codec \<Rightarrow> nat \<Rightarrow> rtext" where
  "backward_page_token cd boundary = encode_token cd (cursor_fields [(''b'', boundary)])"

definition backward_page_boundary :: "codec \<Rightarrow> rtext \<Rightarrow> nat option" where
  "backward_page_boundary cd token = Option.bind (decode_token cd token) (\<lambda>v. cursor_u64 v ''b'')"

definition page_window :: "codec \<Rightarrow> nat \<Rightarrow> int option \<Rightarrow> rtext option \<Rightarrow> PageWindow" where
  "page_window cd len limit token =
     (let lim = clamp_limit limit;
          stop = (case Option.bind token (backward_page_boundary cd) of None \<Rightarrow> len | Some b \<Rightarrow> min b len);
          start = stop - lim in
      \<lparr>pw_start = start, pw_end = stop,
       pw_next_token = (if start > 0 then Some (encode_token cd (cursor_fields [(''b'', start)])) else None)\<rparr>)"

definition seek_window :: "codec \<Rightarrow> nat \<Rightarrow> nat \<Rightarrow> nat \<Rightarrow> SeekPageWindow" where
  "seek_window cd len start stop =
     \<lparr>sw_start = start, sw_end = stop,
      sw_next_token = (if start > 0 then Some (encode_token cd (cursor_fields [(''b'', start)])) else None),
      sw_prev_token = (if stop < len then Some (encode_token cd (cursor_fields [(''f'', stop)])) else None)\<rparr>"

definition page_window_around :: "codec \<Rightarrow> nat \<Rightarrow> int option \<Rightarrow> nat \<Rightarrow> SeekPageWindow" where
  "page_window_around cd len limit index =
     (let lim = clamp_limit limit;
          start = min index len - lim div 2;
          stop = min (start + lim) len in
      seek_window cd len (stop - lim) stop)"

definition forward_page_window :: "codec \<Rightarrow> nat \<Rightarrow> int option \<Rightarrow> rtext \<Rightarrow> SeekPageWindow option" where
  "forward_page_window cd len limit token =
     (case Option.bind (decode_token cd token) (\<lambda>v. cursor_u64 v ''f'') of
        None \<Rightarrow> None
      | Some f \<Rightarrow>
          (let lim = clamp_limit limit;
               start = min f len;
               stop = min (start + lim) len in
           Some (seek_window cd len start stop)))"

definition remint_backward_token :: "codec \<Rightarrow> nat \<Rightarrow> rtext option" where
  "remint_backward_token cd start =
     (if start > 0 then Some (encode_token cd (cursor_fields [(''b'', start)])) else None)"

definition remint_forward_token :: "codec \<Rightarrow> nat \<Rightarrow> nat \<Rightarrow> rtext option" where
  "remint_forward_token cd stop len =
     (if stop < len then Some (encode_token cd (cursor_fields [(''f'', stop)])) else None)"

definition offset_token :: "codec \<Rightarrow> nat \<Rightarrow> rtext" where
  "offset_token cd next_offset = encode_token cd (cursor_fields [(''o'', next_offset)])"

definition parse_offset :: "codec \<Rightarrow> rtext option \<Rightarrow> nat" where
  "parse_offset cd token =
     (case Option.bind (Option.bind token (decode_token cd)) (\<lambda>v. cursor_u64 v ''o'') of
        None \<Rightarrow> 0
      | Some n \<Rightarrow> n)"

section \<open>Byte budgets\<close>

definition serialized_size :: "codec \<Rightarrow> json \<Rightarrow> nat" where
  "serialized_size cd row = length (to_vec cd row)"

fun fit_rows_from :: "codec \<Rightarrow> nat \<Rightarrow> nat \<Rightarrow> nat \<Rightarrow> json list \<Rightarrow> nat" where
  "fit_rows_from cd budget i total_size [] = i"
| "fit_rows_from cd budget i total_size (row # rows) =
     (let size = length (to_vec cd row) + 1 in
      if i > 0 \<and> sat_add total_size size > budget then i
      else fit_rows_from cd budget (i + 1) (sat_add total_size size) rows)"

definition fit_rows_to_budget :: "codec \<Rightarrow> json list \<Rightarrow> nat \<Rightarrow> nat" where
  "fit_rows_to_budget cd rows budget = fit_rows_from cd budget 0 2 rows"

datatype budget_anchor = Newest | Oldest | Target nat

fun budget_newest :: "nat list \<Rightarrow> nat \<Rightarrow> nat \<Rightarrow> nat \<Rightarrow> nat" where
  "budget_newest sizes budget 0 tot = 0"
| "budget_newest sizes budget (Suc lo) tot =
     (let s = sizes ! lo in
      if Suc lo \<noteq> length sizes \<and> sat_add tot s > budget then Suc lo
      else budget_newest sizes budget lo (sat_add tot s))"

function budget_oldest :: "nat list \<Rightarrow> nat \<Rightarrow> nat \<Rightarrow> nat \<Rightarrow> nat" where
  "budget_oldest sizes budget hi tot =
     (if hi < length sizes then
        (let s = sizes ! hi in
         if hi \<noteq> 0 \<and> sat_add tot s > budget then hi
         else budget_oldest sizes budget (hi + 1) (sat_add tot s))
      else hi)"
  by pat_completeness auto
termination
  by (relation "measure (\<lambda>(sizes, _, hi, _). length sizes - hi)") auto

text \<open>One pass of the outward loop: try the older neighbour, then the newer one.\<close>

definition target_older :: "nat list \<Rightarrow> nat \<Rightarrow> nat \<times> nat \<times> bool \<Rightarrow> nat \<times> nat \<times> bool" where
  "target_older sizes budget = (\<lambda>(lo, tot, can_older).
     if can_older then
       (if sat_add tot (sizes ! (lo - 1)) \<le> budget
        then (lo - 1, sat_add tot (sizes ! (lo - 1)), lo - 1 > 0)
        else (lo, tot, False))
     else (lo, tot, can_older))"

definition target_newer :: "nat list \<Rightarrow> nat \<Rightarrow> nat \<times> nat \<times> bool \<Rightarrow> nat \<times> nat \<times> bool" where
  "target_newer sizes budget = (\<lambda>(hi, tot, can_newer).
     if can_newer then
       (if sat_add tot (sizes ! hi) \<le> budget
        then (hi + 1, sat_add tot (sizes ! hi), hi + 1 < length sizes)
        else (hi, tot, False))
     else (hi, tot, can_newer))"

function target_loop :: "nat list \<Rightarrow> nat \<Rightarrow> nat \<Rightarrow> nat \<Rightarrow> nat \<Rightarrow> bool \<Rightarrow> bool \<Rightarrow> nat \<times> nat" where
  "target_loop sizes budget lo hi tot can_older can_newer =
     (if can_older \<or> can_newer then
        (case target_older sizes budget (lo, tot, can_older) of
           (lo', tot', can_older') \<Rightarrow>
             (case target_newer sizes budget (hi, tot', can_newer) of
                (hi', tot'', can_newer') \<Rightarrow>
                  target_loop sizes budget lo' hi' tot'' can_older' can_newer'))
      else (lo, hi))"
  by pat_completeness auto
termination
  by (relation "measure (\<lambda>(sizes, _, lo, hi, _, can_older, can_newer).
        lo + (length sizes - hi) + of_bool can_older + of_bool can_newer)")
    (auto simp: target_older_def target_newer_def split: if_splits)

declare target_loop.simps [simp del] budget_oldest.simps [simp del]

definition budget_page :: "nat list \<Rightarrow> budget_anchor \<Rightarrow> nat \<Rightarrow> nat \<times> nat" where
  "budget_page sizes anchor budget =
     (let n = length sizes in
      if n = 0 then (0, 0)
      else case anchor of
        Newest \<Rightarrow> (budget_newest sizes budget n 0, n)
      | Oldest \<Rightarrow> (0, budget_oldest sizes budget 0 0)
      | Target p \<Rightarrow>
          (let pos = min p (n - 1) in
           target_loop sizes budget pos (pos + 1) (sizes ! pos) (pos > 0) (pos + 1 < n)))"

section \<open>Text\<close>

definition is_blank :: "rtext \<Rightarrow> bool" where
  "is_blank l \<longleftrightarrow> list_all is_whitespace l"

definition trimmed_lines :: "rtext \<Rightarrow> rtext list" where
  "trimmed_lines t = rev (dropWhile is_blank (rev (split_nl t)))"

definition OUTPUT_TAIL_MAX_JSON_BYTES :: nat where
  "OUTPUT_TAIL_MAX_JSON_BYTES = 480000"

definition json_escaped_len :: "uchar \<Rightarrow> nat" where
  "json_escaped_len c =
     (if c \<in> {34, 92, 10, 13, 9, 8, 12} then 2 else if c < 32 then 6 else len_utf8 c)"

definition escaped_len :: "rtext \<Rightarrow> nat" where
  "escaped_len t = sum_list (map json_escaped_len t)"

text \<open>The rest after the first newline, when there is any; otherwise the text itself.\<close>

definition after_newline :: "rtext \<Rightarrow> rtext" where
  "after_newline kept =
     (case dropWhile (\<lambda>c. c \<noteq> 10) kept of
        [] \<Rightarrow> kept
      | _ # rest \<Rightarrow> if rest = [] then kept else rest)"

text \<open>The backward walk: the characters not yet visited, newest first, and the suffix kept so far.\<close>

fun tail_walk :: "nat \<Rightarrow> rtext \<Rightarrow> nat \<Rightarrow> rtext \<Rightarrow> rtext \<times> bool" where
  "tail_walk budget [] used kept = (kept, False)"
| "tail_walk budget (c # before) used kept =
     (if used + json_escaped_len c > budget
      then (if c = 10 then kept else after_newline kept, True)
      else tail_walk budget before (used + json_escaped_len c) (c # kept))"

definition tail_within_json_bytes :: "rtext \<Rightarrow> nat \<Rightarrow> rtext \<times> bool" where
  "tail_within_json_bytes text budget = tail_walk budget (rev text) 0 []"

fun floor_from :: "rtext \<Rightarrow> nat \<Rightarrow> nat" where
  "floor_from t 0 = 0"
| "floor_from t (Suc i) = (if is_char_boundary t (Suc i) then Suc i else floor_from t i)"

definition floor_char_boundary :: "rtext \<Rightarrow> nat \<Rightarrow> nat" where
  "floor_char_boundary t index = floor_from t (min index (str_len t))"

definition text_page_window ::
  "codec \<Rightarrow> nat \<Rightarrow> int option \<Rightarrow> rtext option \<Rightarrow> PageWindow \<times> nat option" where
  "text_page_window cd len limit token =
     (let win = page_window cd len limit token;
          cut_at = (case Option.bind token (decode_token cd) of
                   None \<Rightarrow> None
                 | Some v \<Rightarrow>
                     (case (cursor_u64 v ''b'', cursor_u64 v ''c'') of
                        (Some boundary, Some c) \<Rightarrow>
                          if boundary = pw_end win \<and> pw_end win > pw_start win then Some c else None
                      | _ \<Rightarrow> None)) in
      (win, cut_at))"

text \<open>
  The loop of \<open>bound_text_page\<close> over the window newest first: the items so far, the bytes used, the
  first kept line and, when the newest line alone is too big, where the next page resumes in it.
\<close>

fun text_page_loop ::
  "rtext list \<Rightarrow> rtext list \<Rightarrow> nat \<Rightarrow> nat \<Rightarrow> rtext list \<times> nat \<times> (nat \<times> nat) option" where
  "text_page_loop [] items used first_kept = (items, first_kept, None)"
| "text_page_loop (line # lines) items used first_kept =
     (let len = escaped_len line + 3 in
      if used + len > OUTPUT_TAIL_MAX_JSON_BYTES then
        (if items = [] then
           (let tail = fst (tail_within_json_bytes line (OUTPUT_TAIL_MAX_JSON_BYTES - 3)) in
            ([tail], first_kept, Some (first_kept, str_len line - str_len tail)))
         else (items, first_kept, None))
      else text_page_loop lines (items @ [line]) (used + len) (first_kept - 1))"

definition opt_text :: "rtext option \<Rightarrow> json" where
  "opt_text t = (case t of None \<Rightarrow> JNull | Some s \<Rightarrow> JStr s)"

definition bound_text_page :: "codec \<Rightarrow> rtext list \<Rightarrow> nat \<Rightarrow> rtext option \<Rightarrow> json" where
  "bound_text_page cd window start next_token =
     (case text_page_loop (rev window) [] 0 (start + length window) of
        (items, first_kept, resume_in_line) \<Rightarrow>
          (let next = (case resume_in_line of
                         Some (stop, cut_at) \<Rightarrow> Some (encode_token cd (cursor_fields [(''b'', stop), (''c'', cut_at)]))
                       | None \<Rightarrow> if first_kept > start then remint_backward_token cd first_kept else next_token);
               page = JObj [(''items'', JArr (map JStr items)), (''nextToken'', opt_text next)] in
           if resume_in_line \<noteq> None then json_insert ''lineContinues'' (JBool True) page else page))"

definition cut_last :: "nat option \<Rightarrow> rtext list \<Rightarrow> rtext list" where
  "cut_last cut_at window =
     (case cut_at of
        None \<Rightarrow> window
      | Some c \<Rightarrow>
          if window = [] then []
          else butlast window @ [bytes_upto (last window) (floor_char_boundary (last window) c)])"

definition paginate_text_lines :: "codec \<Rightarrow> rtext \<Rightarrow> int option \<Rightarrow> rtext option \<Rightarrow> json" where
  "paginate_text_lines cd text limit token =
     (let lines = trimmed_lines text in
      case text_page_window cd (length lines) limit token of
        (win, cut_at) \<Rightarrow>
          bound_text_page cd (cut_last cut_at (take (pw_end win - pw_start win) (drop (pw_start win) lines)))
            (pw_start win) (pw_next_token win))"

section \<open>Rows\<close>

fun bound_fields :: "codec \<Rightarrow> nat \<Rightarrow> string list \<Rightarrow> jmap \<Rightarrow> bool \<Rightarrow> jmap \<times> bool" where
  "bound_fields cd budget [] obj omitted = (obj, omitted)"
| "bound_fields cd budget (field # flds) obj omitted =
     (case map_of obj field of
        None \<Rightarrow> bound_fields cd budget flds obj omitted
      | Some v \<Rightarrow>
          (let bytes = (case as_str v of None \<Rightarrow> serialized_size cd v | Some s \<Rightarrow> str_len s);
               obj' = obj_insert (field @ ''Bytes'') (jnat bytes)
                        (obj_insert (field @ ''Omitted'') (JBool True) (obj_remove field obj)) in
           if serialized_size cd (JObj obj') \<le> budget then (obj', True)
           else bound_fields cd budget flds obj' True))"

text \<open>Largest first, ties by key: the keys are distinct, so the reversed sort is the descending one.\<close>

definition bound_row :: "codec \<Rightarrow> nat \<Rightarrow> string list \<Rightarrow> json \<Rightarrow> json \<times> bool" where
  "bound_row cd budget keep row =
     (if serialized_size cd row \<le> budget then (row, False)
      else case row of
        JObj obj \<Rightarrow>
          (let flds = map snd (rev (sort (map (\<lambda>(k, v). (serialized_size cd v, k))
                          (filter (\<lambda>(k, _). k \<notin> set keep) obj)))) in
           case bound_fields cd budget flds obj False of (obj', omitted) \<Rightarrow> (JObj obj', omitted))
      | _ \<Rightarrow> (row, False))"

section \<open>Queue pages and keyset tokens\<close>

datatype param_error = InvalidParams string

definition invalid_token :: param_error where
  "invalid_token = InvalidParams ''invalid or mismatched nextToken''"

definition AGENT_QUEUE_DEFAULT_LIMIT :: nat where
  "AGENT_QUEUE_DEFAULT_LIMIT = 50"

definition AGENT_QUEUE_MAX_LIMIT :: nat where
  "AGENT_QUEUE_MAX_LIMIT = 200"

definition AGENT_QUEUE_PAGE_BUDGET_BYTES :: nat where
  "AGENT_QUEUE_PAGE_BUDGET_BYTES = 480000"

definition queue_scope :: "rtext \<Rightarrow> json" where
  "queue_scope agent_id = JArr [JStr (lit ''agent.getQueue''), JStr agent_id]"

definition queue_cursor :: "rtext \<Rightarrow> nat \<Rightarrow> json" where
  "queue_cursor agent_id n =
     JObj [(''version'', jnat 1), (''scope'', queue_scope agent_id), (''offset'', jnat n)]"

definition queue_start :: "codec \<Rightarrow> rtext \<Rightarrow> rtext option \<Rightarrow> (param_error, nat) res" where
  "queue_start cd agent_id next_token =
     (case next_token of
        None \<Rightarrow> Inr 0
      | Some token \<Rightarrow>
          (case from_str cd token of
             None \<Rightarrow> Inl invalid_token
           | Some c \<Rightarrow>
               if json_get c ''version'' = Some (jnat 1) \<and> json_get c ''scope'' = Some (queue_scope agent_id)
               then (case cursor_u64 c ''offset'' of None \<Rightarrow> Inl invalid_token | Some q \<Rightarrow> Inr q)
               else Inl invalid_token))"

definition page_queue_reply ::
  "codec \<Rightarrow> json \<Rightarrow> rtext \<Rightarrow> int option \<Rightarrow> rtext option \<Rightarrow> (param_error, json) res" where
  "page_queue_reply cd reply agent_id limit next_token =
     (let lim = clamp_page_limit limit AGENT_QUEUE_DEFAULT_LIMIT AGENT_QUEUE_MAX_LIMIT in
      case queue_start cd agent_id next_token of
        Inl e \<Rightarrow> Inl e
      | Inr start \<Rightarrow>
          (case reply of
             JObj obj \<Rightarrow>
               (let entries = (case map_of obj ''queue'' of Some (JArr es) \<Rightarrow> es | _ \<Rightarrow> []);
                    obj1 = obj_remove ''queue'' obj;
                    tot = length entries;
                    obj2 = (if map_of obj1 ''queueLength'' = None
                            then obj_insert ''queueLength'' (jnat tot) obj1 else obj1);
                    window = take lim (drop start entries);
                    kept = fit_rows_to_budget cd window AGENT_QUEUE_PAGE_BUDGET_BYTES;
                    stop = sat_add start kept;
                    obj3 = obj_insert ''queue'' (JArr (take kept window)) obj2 in
                Inr (JObj (obj_insert ''nextToken''
                  (if stop < tot then JStr (to_text cd (queue_cursor agent_id stop)) else JNull) obj3)))
           | _ \<Rightarrow> Inr reply))"

text \<open>A scope is an array of strings and flags, so equality of scopes is structural.\<close>

definition keyset_cursor :: "json \<Rightarrow> rtext \<Rightarrow> rtext \<Rightarrow> json" where
  "keyset_cursor scope created_at i =
     JObj [(''version'', jnat 1), (''scope'', scope), (''created_at'', JStr created_at), (''id'', JStr i)]"

definition encode_keyset_token :: "codec \<Rightarrow> json \<Rightarrow> rtext \<Rightarrow> rtext \<Rightarrow> rtext" where
  "encode_keyset_token cd scope created_at i = to_text cd (keyset_cursor scope created_at i)"

definition decode_keyset_token :: "codec \<Rightarrow> rtext \<Rightarrow> json \<Rightarrow> (param_error, rtext \<times> rtext) res" where
  "decode_keyset_token cd token scope =
     (case from_str cd token of
        None \<Rightarrow> Inl invalid_token
      | Some c \<Rightarrow>
          if json_get c ''version'' \<noteq> Some (jnat 1) \<or> json_get c ''scope'' \<noteq> Some scope then Inl invalid_token
          else case (get_str c ''created_at'', get_str c ''id'') of
            (Some created_at, Some i) \<Rightarrow>
              if created_at = [] \<or> i = [] then Inl invalid_token else Inr (created_at, i)
          | _ \<Rightarrow> Inl invalid_token)"

section \<open>Token lemmas\<close>

lemma clamp_limit_bounds: "1 \<le> clamp_limit l \<and> clamp_limit l \<le> MAX_PAGE_LIMIT"
  by (auto simp: clamp_limit_def MAX_PAGE_LIMIT_def DEFAULT_PAGE_LIMIT_def split: option.splits)

lemma clamp_limit_pos [simp]: "0 < clamp_limit l"
  using clamp_limit_bounds [of l] by simp

lemma decode_encode_token [simp]:
  "codec_ok cd \<Longrightarrow> n \<le> usize_max \<Longrightarrow>
     decode_token cd (encode_token cd (cursor_fields [([k], n)])) = Some (cursor_fields [([k], n)])"
  "codec_ok cd \<Longrightarrow> n \<le> usize_max \<Longrightarrow> c \<le> usize_max \<Longrightarrow>
     decode_token cd (encode_token cd (cursor_fields [(''b'', n), (''c'', c)])) =
       Some (cursor_fields [(''b'', n), (''c'', c)])"
  by (simp_all add: decode_token_def encode_token_def codec_ok_def)

lemma cursor_u64_fields [simp]:
  "cursor_u64 (cursor_fields []) k = None"
  "cursor_u64 (cursor_fields ((k', n) # fs)) k = (if k = k' then Some n else cursor_u64 (cursor_fields fs) k)"
  by (simp_all add: cursor_u64_def cursor_fields_def)

lemma backward_boundary_token [simp]:
  "codec_ok cd \<Longrightarrow> n \<le> usize_max \<Longrightarrow>
     backward_page_boundary cd (encode_token cd (cursor_fields [(''b'', n)])) = Some n"
  by (simp add: backward_page_boundary_def)

section \<open>Walking backward\<close>

text \<open>
  A client's walk: the first page has no token, every further page follows the previous page's token.
  \<open>src i\<close> is the collection as the \<open>i\<close>-th call finds it, so rows may be appended between the calls.
\<close>

definition rows_between :: "nat \<Rightarrow> nat \<Rightarrow> 'a list \<Rightarrow> 'a list" where
  "rows_between start stop xs = take (stop - start) (drop start xs)"

fun walk_back ::
  "codec \<Rightarrow> (nat \<Rightarrow> 'a list) \<Rightarrow> int option \<Rightarrow> nat \<Rightarrow> rtext option \<Rightarrow> nat \<Rightarrow> 'a list list option" where
  "walk_back cd src limit i token 0 = None"
| "walk_back cd src limit i token (Suc fuel) =
     (let win = page_window cd (length (src i)) limit token;
          page = rows_between (pw_start win) (pw_end win) (src i) in
      case pw_next_token win of
        None \<Rightarrow> Some [page]
      | Some t \<Rightarrow> map_option (Cons page) (walk_back cd src limit (Suc i) (Some t) fuel))"

lemma rows_prefix:
  "prefix xs ys \<Longrightarrow> stop \<le> length xs \<Longrightarrow> rows_between start stop ys = rows_between start stop xs"
  by (auto simp: prefix_def rows_between_def)

lemma take_rows: "start \<le> stop \<Longrightarrow> take start xs @ rows_between start stop xs = take stop xs"
  by (metis rows_between_def le_add_diff_inverse take_add)

lemma walk_back_from:
  assumes cd: "codec_ok cd" and pre: "\<And>i. prefix xs (src i)" and max: "length xs \<le> usize_max"
    and "b \<le> length xs" and "b < fuel"
  shows "\<exists>pages. walk_back cd src limit i (Some (encode_token cd (cursor_fields [(''b'', b)]))) fuel = Some pages \<and>
    concat (rev pages) = take b xs \<and> (\<forall>p \<in> set pages. length p \<le> clamp_limit limit)"
  using assms(4,5)
proof (induction b arbitrary: i fuel rule: less_induct)
  case (less b)
  then obtain fuel' where fuel: "fuel = Suc fuel'" by (cases fuel) auto
  have len: "b \<le> length (src i)" using less.prems(1) prefix_length_le [OF pre, of i] by simp
  have b: "b \<le> usize_max" using less.prems(1) max by simp
  let ?start = "b - clamp_limit limit"
  let ?page = "rows_between ?start b xs"
  have win: "page_window cd (length (src i)) limit (Some (encode_token cd (cursor_fields [(''b'', b)]))) =
      \<lparr>pw_start = ?start, pw_end = b, pw_next_token =
        (if ?start > 0 then Some (encode_token cd (cursor_fields [(''b'', ?start)])) else None)\<rparr>"
    using cd b len by (simp add: page_window_def min_absorb1 Let_def)
  have page: "rows_between ?start b (src i) = ?page" using rows_prefix [OF pre less.prems(1)] .
  have plen: "length ?page \<le> clamp_limit limit" by (simp add: rows_between_def)
  show ?case
  proof (cases "?start > 0")
    case True
    have "?start < b" using True clamp_limit_pos [of limit] by simp
    moreover have "?start < fuel'" using \<open>?start < b\<close> less.prems(2) fuel by simp
    moreover have "?start \<le> length xs" using less.prems(1) by simp
    ultimately obtain pages where
      "walk_back cd src limit (Suc i) (Some (encode_token cd (cursor_fields [(''b'', ?start)]))) fuel' = Some pages"
      "concat (rev pages) = take ?start xs" "\<forall>p \<in> set pages. length p \<le> clamp_limit limit"
      using less.IH [of ?start fuel' "Suc i"] by auto
    with True win page plen fuel take_rows [of ?start b xs] show ?thesis by simp
  next
    case False
    with win page plen fuel take_rows [of ?start b xs] show ?thesis by simp
  qed
qed

text \<open>
  C18. A backward walk serves every row exactly once, in order, and is stable under appends. Whatever
  rows are appended to the collection between the calls, the walk from the newest page follows its
  tokens to the end within \<open>n + 1\<close> calls for \<open>n\<close> rows, and its pages put together are exactly the rows the
  first call found; no page is longer than the clamped limit.
\<close>

theorem backward_walk_complete:
  assumes "codec_ok cd" and "\<And>i. prefix (src 0) (src i)" and "length (src 0) \<le> usize_max"
  shows "\<exists>pages. walk_back cd src limit 0 None (length (src 0) + 1) = Some pages \<and>
    concat (rev pages) = src 0 \<and> (\<forall>p \<in> set pages. length p \<le> clamp_limit limit)"
proof -
  let ?n = "length (src 0)" and ?start = "length (src 0) - clamp_limit limit"
  have win: "page_window cd ?n limit None = \<lparr>pw_start = ?start, pw_end = ?n, pw_next_token =
        (if ?start > 0 then Some (encode_token cd (cursor_fields [(''b'', ?start)])) else None)\<rparr>"
    by (simp add: page_window_def Let_def)
  have plen: "length (rows_between ?start ?n (src 0)) \<le> clamp_limit limit" by (simp add: rows_between_def)
  show ?thesis
  proof (cases "?start > 0")
    case True
    moreover have "?start < ?n" using True clamp_limit_pos [of limit] by linarith
    ultimately obtain pages where
      "walk_back cd src limit 1 (Some (encode_token cd (cursor_fields [(''b'', ?start)]))) ?n = Some pages"
      "concat (rev pages) = take ?start (src 0)" "\<forall>p \<in> set pages. length p \<le> clamp_limit limit"
      using walk_back_from [where src = src and xs = "src 0", OF assms, where b = ?start and fuel = ?n and limit = limit and i = 1] by auto
    with True win plen take_rows [of ?start ?n "src 0"] show ?thesis by simp
  next
    case False
    with win plen take_rows [of ?start ?n "src 0"] show ?thesis by simp
  qed
qed

text \<open>An example codec: bytes as text, a cursor as its keys and decimal numbers separated by commas.\<close>

definition nat_bytes :: "nat \<Rightarrow> byte list" where
  "nat_bytes n = map of_nat (dec_string n)"

definition key_byte :: "char \<Rightarrow> byte" where
  "key_byte k = of_nat (of_char k)"

fun plain_to_vec :: "json \<Rightarrow> byte list" where
  "plain_to_vec (JObj [([k], JNum (PosInt n))]) = key_byte k # nat_bytes n"
| "plain_to_vec (JObj [([k], JNum (PosInt n)), ([k'], JNum (PosInt n'))]) =
     key_byte k # nat_bytes n @ 44 # key_byte k' # nat_bytes n'"
| "plain_to_vec _ = []"

fun plain_from_slice :: "byte list \<Rightarrow> json option" where
  "plain_from_slice [] = None"
| "plain_from_slice (k # bs) =
     (case (parse_u64 (map unat (takeWhile (\<lambda>b. b \<noteq> 44) bs)), dropWhile (\<lambda>b. b \<noteq> 44) bs) of
        (Some n, []) \<Rightarrow> Some (cursor_fields [([char_of (unat k)], n)])
      | (Some n, _ # k' # bs') \<Rightarrow>
          map_option (\<lambda>n'. cursor_fields [([char_of (unat k)], n), ([char_of (unat k')], n')])
            (parse_u64 (map unat bs'))
      | _ \<Rightarrow> None)"

definition plain_codec :: codec where
  "plain_codec = \<lparr>b64_encode = map unat, b64_decode = (\<lambda>t. Some (map of_nat t)),
     to_vec = plain_to_vec, from_slice = plain_from_slice, to_text = (\<lambda>_. []), from_str = (\<lambda>_. None)\<rparr>"

lemma key_byte_char [simp]: "char_of (unat (key_byte k)) = k"
  by (simp add: key_byte_def unat_of_nat take_bit_eq_mod flip: char_of_take_bit_eq [of 8])

lemma unat_digit: "is_ascii_digit c \<Longrightarrow> unat (of_nat c :: byte) = c \<and> (of_nat c :: byte) \<noteq> 44"
proof -
  assume "is_ascii_digit c"
  then have "c < 256" "c \<noteq> 44" by (auto simp: is_ascii_digit_def)
  then have u: "unat (of_nat c :: byte) = c" by (simp add: unat_of_nat)
  with \<open>c \<noteq> 44\<close> show ?thesis by force
qed

lemma nat_bytes_simps:
  "map unat (nat_bytes n) = dec_string n" "\<forall>b \<in> set (nat_bytes n). b \<noteq> 44"
proof -
  show "map unat (nat_bytes n) = dec_string n"
    unfolding nat_bytes_def using unat_digit dec_string_digits
    by (auto simp: comp_def intro!: map_idI)
  show "\<forall>b \<in> set (nat_bytes n). b \<noteq> 44"
    using unat_digit dec_string_digits by (auto simp: nat_bytes_def)
qed

lemma plain_codec_ok: "codec_ok plain_codec"
proof -
  have b: "map (of_nat \<circ> unat) bs = bs" for bs :: "byte list" by (simp add: comp_def)
  have t: "takeWhile (\<lambda>b. b \<noteq> 44) (nat_bytes n @ 44 # r) = nat_bytes n"
    "dropWhile (\<lambda>b. b \<noteq> 44) (nat_bytes n @ 44 # r) = 44 # r"
    "takeWhile (\<lambda>b. b \<noteq> 44) (nat_bytes n) = nat_bytes n"
    "dropWhile (\<lambda>b. b \<noteq> 44) (nat_bytes n) = []" for n r
    using nat_bytes_simps(2) [of n] by (auto simp: takeWhile_eq_all_conv dropWhile_eq_Nil_conv
        takeWhile_append2 dropWhile_append2)
  show ?thesis
    unfolding codec_ok_def
    by (simp add: plain_codec_def cursor_fields_def b t nat_bytes_simps(1))
qed

theorem backward_walk_complete_witness:
  "\<exists>pages. walk_back plain_codec (\<lambda>i. [1, 2, 3, 4, 5] @ replicate i (0 :: nat)) (Some 2) 0 None
      (length [1, 2, 3, 4, 5 :: nat] + 1) = Some pages \<and>
    concat (rev pages) = [1, 2, 3, 4, 5]"
proof -
  let ?src = "\<lambda>i. [1, 2, 3, 4, 5] @ replicate i (0 :: nat)"
  show ?thesis
    using backward_walk_complete [OF plain_codec_ok, where src = ?src and limit = "Some 2"]
    by (simp add: u64_max_def del: walk_back.simps) blast
qed

section \<open>Seeking\<close>

text \<open>
  C25. A seek page holds its target and joins both walks. For an existing row the page around it
  contains the row and is as full as the collection allows; its older token continues exactly below
  the page's start, and its newer token exactly at the page's end, also after appends; a missing
  token means that there is nothing on that side.
\<close>

theorem seek_page_joins:
  assumes cd: "codec_ok cd" and "index < len" and "len \<le> len'" and "len' \<le> usize_max"
    and w_def: "w = page_window_around cd len limit index"
  shows "sw_start w \<le> index \<and> index < sw_end w \<and> sw_end w \<le> len \<and>
    sw_end w - sw_start w = min (clamp_limit limit) len \<and>
    (case sw_next_token w of
       None \<Rightarrow> sw_start w = 0
     | Some t \<Rightarrow> pw_end (page_window cd len' limit' (Some t)) = sw_start w) \<and>
    (case sw_prev_token w of
       None \<Rightarrow> sw_end w = len
     | Some t \<Rightarrow> map_option sw_start (forward_page_window cd len' limit' t) = Some (sw_end w))"
proof -
  obtain h where h: "h = clamp_limit limit div 2" "h < clamp_limit limit" by simp
  define lo where "lo = index - h"
  define hi where "hi = min (lo + clamp_limit limit) len"
  have w: "w = seek_window cd len (hi - clamp_limit limit) hi"
    using assms(2) by (simp add: w_def page_window_around_def Let_def lo_def hi_def h(1) min_absorb1)
  have hi: "index < hi" "hi \<le> len" "hi - clamp_limit limit \<le> index"
    "hi - (hi - clamp_limit limit) = min (clamp_limit limit) len"
    using assms(2) h(2) unfolding hi_def lo_def by (auto simp: min_def)
  show ?thesis
    using hi cd assms(3,4)
    by (auto simp: w seek_window_def page_window_def forward_page_window_def Let_def min_absorb1)
qed

theorem seek_page_joins_witness:
  "let w = page_window_around plain_codec 10 (Some 4) 9 in sw_start w = 6 \<and> sw_end w = 10 \<and>
     (case sw_next_token w of
        None \<Rightarrow> sw_start w = 0
      | Some t \<Rightarrow> pw_end (page_window plain_codec 12 None (Some t)) = 6)"
proof -
  let ?w = "page_window_around plain_codec 10 (Some 4) 9"
  have "sw_start ?w = 6" "sw_end ?w = 10"
    by (simp_all add: page_window_around_def Let_def seek_window_def clamp_limit_def MAX_PAGE_LIMIT_def)
  with seek_page_joins [OF plain_codec_ok, where index = 9 and len = 10 and len' = 12 and limit = "Some 4"
      and limit' = None and w = ?w] show ?thesis
    by (simp add: Let_def u64_max_def split: option.splits)
qed

section \<open>Budgeted pages\<close>

lemma sat_add_min: "sat_add (min a usize_max) b = min (a + b) usize_max"
  by (simp add: sat_add_def)

definition rows_size :: "nat list \<Rightarrow> nat \<Rightarrow> nat \<Rightarrow> nat" where
  "rows_size sizes lo hi = sum_list (rows_between lo hi sizes)"

lemma rows_size_same [simp]: "rows_size sizes lo lo = 0"
  by (simp add: rows_size_def rows_between_def)

lemma rows_size_older: "lo < hi \<Longrightarrow> hi \<le> length sizes \<Longrightarrow> rows_size sizes lo hi = rows_size sizes (Suc lo) hi + sizes ! lo"
proof -
  assume a: "lo < hi" "hi \<le> length sizes"
  then have "rows_between lo hi sizes = sizes ! lo # rows_between (Suc lo) hi sizes"
    unfolding rows_between_def by (metis Suc_diff_Suc Cons_nth_drop_Suc take_Suc_Cons less_le_trans)
  then show ?thesis by (simp add: rows_size_def)
qed

lemma rows_size_newer: "lo \<le> hi \<Longrightarrow> hi < length sizes \<Longrightarrow> rows_size sizes lo (Suc hi) = rows_size sizes lo hi + sizes ! hi"
  by (simp add: rows_size_def rows_between_def Suc_diff_le take_Suc_conv_app_nth)

lemma budget_newest_props:
  assumes "lo \<le> length sizes" and "budget < usize_max"
    and "tot = min (rows_size sizes lo (length sizes)) usize_max"
    and "lo = length sizes \<or> lo = length sizes - 1 \<or> rows_size sizes lo (length sizes) \<le> budget"
    and "r = budget_newest sizes budget lo tot"
  shows "r \<le> lo \<and> (lo = length sizes \<longrightarrow> 0 < lo \<longrightarrow> r < lo) \<and>
    (r \<ge> length sizes - 1 \<or> rows_size sizes r (length sizes) \<le> budget) \<and>
    (r = 0 \<or> budget < rows_size sizes (r - 1) (length sizes))"
  using assms
proof (induction lo arbitrary: tot)
  case 0
  then show ?case by auto
next
  case (Suc lo)
  let ?n = "length sizes"
  have size: "rows_size sizes lo ?n = rows_size sizes (Suc lo) ?n + sizes ! lo"
    using Suc.prems(1) by (intro rows_size_older) auto
  then have tot': "sat_add tot (sizes ! lo) = min (rows_size sizes lo ?n) usize_max"
    using Suc.prems(3) by (simp add: sat_add_min)
  show ?case
  proof (cases "Suc lo \<noteq> ?n \<and> sat_add tot (sizes ! lo) > budget")
    case True
    then show ?thesis using Suc.prems tot' by auto
  next
    case False
    then have "r = budget_newest sizes budget lo (sat_add tot (sizes ! lo))"
      unfolding Suc.prems(5) by (auto simp: Let_def)
    moreover have "lo = ?n \<or> lo = ?n - 1 \<or> rows_size sizes lo ?n \<le> budget"
      using False tot' Suc.prems(2) by (auto simp: min_def split: if_splits)
    ultimately show ?thesis using Suc.IH [OF _ Suc.prems(2) tot'] Suc.prems(1) by auto
  qed
qed

lemma budget_oldest_props:
  assumes "hi \<le> length sizes" and "budget < usize_max"
    and "tot = min (rows_size sizes 0 hi) usize_max"
    and "hi \<le> 1 \<or> rows_size sizes 0 hi \<le> budget"
    and "r = budget_oldest sizes budget hi tot"
  shows "hi \<le> r \<and> r \<le> length sizes \<and> (sizes \<noteq> [] \<longrightarrow> 0 < r) \<and>
    (r \<le> 1 \<or> rows_size sizes 0 r \<le> budget) \<and>
    (r = length sizes \<or> budget < rows_size sizes 0 (Suc r))"
  using assms
proof (induction "length sizes - hi" arbitrary: hi tot)
  case 0
  then show ?case using budget_oldest.simps [of sizes budget hi tot] by auto
next
  case (Suc m)
  have hi: "hi < length sizes" using Suc.hyps(2) by simp
  have size: "rows_size sizes 0 (Suc hi) = rows_size sizes 0 hi + sizes ! hi"
    using hi by (intro rows_size_newer) auto
  then have tot': "sat_add tot (sizes ! hi) = min (rows_size sizes 0 (Suc hi)) usize_max"
    using Suc.prems(3) by (simp add: sat_add_min)
  show ?case
  proof (cases "hi \<noteq> 0 \<and> sat_add tot (sizes ! hi) > budget")
    case True
    then have "r = hi" using Suc.prems(5) hi by (simp add: budget_oldest.simps [of sizes budget hi] Let_def)
    then show ?thesis using Suc.prems tot' True by auto
  next
    case False
    then have "r = budget_oldest sizes budget (Suc hi) (sat_add tot (sizes ! hi))"
      using Suc.prems(5) hi by (auto simp: budget_oldest.simps [of sizes budget hi] Let_def)
    moreover have "Suc hi \<le> 1 \<or> rows_size sizes 0 (Suc hi) \<le> budget"
      using False tot' Suc.prems(2) by (auto simp: min_def split: if_splits)
    ultimately show ?thesis using Suc.hyps(1) [OF _ _ Suc.prems(2) tot'] Suc.hyps(2) hi by fastforce
  qed
qed

lemma rows_size_mono_newer: "lo \<le> hi \<Longrightarrow> hi < length sizes \<Longrightarrow> rows_size sizes lo hi \<le> rows_size sizes lo (Suc hi)"
  by (simp add: rows_size_newer)

lemma rows_size_mono_older: "0 < lo \<Longrightarrow> lo \<le> hi \<Longrightarrow> hi \<le> length sizes \<Longrightarrow> rows_size sizes lo hi \<le> rows_size sizes (lo - 1) hi"
  using rows_size_older [of "lo - 1" hi sizes] by simp

definition target_inv :: "nat list \<Rightarrow> nat \<Rightarrow> nat \<Rightarrow> nat \<Rightarrow> nat \<Rightarrow> bool \<Rightarrow> bool \<Rightarrow> bool" where
  "target_inv sizes budget lo hi tot can_older can_newer \<longleftrightarrow>
     lo < hi \<and> hi \<le> length sizes \<and> tot = min (rows_size sizes lo hi) usize_max \<and>
     (hi = Suc lo \<or> rows_size sizes lo hi \<le> budget) \<and>
     (if can_older then 0 < lo else lo = 0 \<or> budget < rows_size sizes (lo - 1) hi) \<and>
     (if can_newer then hi < length sizes else hi = length sizes \<or> budget < rows_size sizes lo (Suc hi))"

lemma target_invI:
  assumes "lo < hi" "hi \<le> length sizes" "tot = min (rows_size sizes lo hi) usize_max"
    and "hi = Suc lo \<or> rows_size sizes lo hi \<le> budget"
    and "can_older \<Longrightarrow> 0 < lo" "\<not> can_older \<Longrightarrow> lo = 0 \<or> budget < rows_size sizes (lo - 1) hi"
    and "can_newer \<Longrightarrow> hi < length sizes"
    and "\<not> can_newer \<Longrightarrow> hi = length sizes \<or> budget < rows_size sizes lo (Suc hi)"
  shows "target_inv sizes budget lo hi tot can_older can_newer"
  using assms unfolding target_inv_def by simp

lemma target_older_inv:
  assumes inv: "target_inv sizes budget lo hi tot can_older can_newer" and "budget < usize_max"
    and step: "target_older sizes budget (lo, tot, can_older) = (lo', tot', can_older')"
  shows "target_inv sizes budget lo' hi tot' can_older' can_newer \<and> lo' \<le> lo"
proof (cases can_older)
  case False
  then show ?thesis using inv step by (simp add: target_older_def)
next
  case True
  with inv have lo: "0 < lo" "lo < hi" "hi \<le> length sizes"
    and newer: "can_newer \<Longrightarrow> hi < length sizes"
      "\<not> can_newer \<Longrightarrow> hi = length sizes \<or> budget < rows_size sizes lo (Suc hi)"
    by (simp_all add: target_inv_def)
  then have "rows_size sizes (lo - 1) hi = rows_size sizes lo hi + sizes ! (lo - 1)"
    using rows_size_older [of "lo - 1" hi sizes] by simp
  then have tot: "sat_add tot (sizes ! (lo - 1)) = min (rows_size sizes (lo - 1) hi) usize_max"
    using inv by (simp add: target_inv_def sat_add_min)
  then have fits: "sat_add tot (sizes ! (lo - 1)) \<le> budget \<longleftrightarrow> rows_size sizes (lo - 1) hi \<le> budget"
    using assms(2) by (simp add: min_le_iff_disj)
  have grow: "hi < length sizes \<Longrightarrow> rows_size sizes lo (Suc hi) \<le> rows_size sizes (lo - 1) (Suc hi)"
    using lo rows_size_mono_older [of lo "Suc hi" sizes] by simp
  show ?thesis
  proof (cases "rows_size sizes (lo - 1) hi \<le> budget")
    case fit: True
    then have s: "lo' = lo - 1" "tot' = sat_add tot (sizes ! (lo - 1))" "can_older' = (lo - 1 > 0)"
      using step True fits by (auto simp: target_older_def)
    have "target_inv sizes budget (lo - 1) hi tot' (lo - 1 > 0) can_newer"
      by (rule target_invI) (use lo newer grow fit s tot in \<open>force+\<close>)
    then show ?thesis by (simp add: s)
  next
    case False
    then have "lo' = lo" "tot' = tot" "can_older' = False"
      using step True fits by (simp_all add: target_older_def)
    then show ?thesis using inv False unfolding target_inv_def by simp
  qed
qed

lemma target_newer_inv:
  assumes inv: "target_inv sizes budget lo hi tot can_older can_newer" and "budget < usize_max"
    and step: "target_newer sizes budget (hi, tot, can_newer) = (hi', tot', can_newer')"
  shows "target_inv sizes budget lo hi' tot' can_older can_newer' \<and> hi \<le> hi'"
proof (cases can_newer)
  case False
  then show ?thesis using inv step by (simp add: target_newer_def)
next
  case True
  with inv have hi: "lo < hi" "hi < length sizes"
    and older: "can_older \<Longrightarrow> 0 < lo" "\<not> can_older \<Longrightarrow> lo = 0 \<or> budget < rows_size sizes (lo - 1) hi"
    by (simp_all add: target_inv_def)
  then have "rows_size sizes lo (Suc hi) = rows_size sizes lo hi + sizes ! hi"
    by (intro rows_size_newer) auto
  then have tot: "sat_add tot (sizes ! hi) = min (rows_size sizes lo (Suc hi)) usize_max"
    using inv by (simp add: target_inv_def sat_add_min)
  then have fits: "sat_add tot (sizes ! hi) \<le> budget \<longleftrightarrow> rows_size sizes lo (Suc hi) \<le> budget"
    using assms(2) by (simp add: min_le_iff_disj)
  have grow: "rows_size sizes (lo - 1) hi \<le> rows_size sizes (lo - 1) (Suc hi)"
    using hi by (intro rows_size_mono_newer) auto
  show ?thesis
  proof (cases "rows_size sizes lo (Suc hi) \<le> budget")
    case fit: True
    then have s: "hi' = Suc hi" "tot' = sat_add tot (sizes ! hi)" "can_newer' = (Suc hi < length sizes)"
      using step True fits by (auto simp: target_newer_def)
    have "target_inv sizes budget lo (Suc hi) tot' can_older (Suc hi < length sizes)"
      by (rule target_invI) (use hi older grow fit s tot in \<open>force+\<close>)
    then show ?thesis by (simp add: s)
  next
    case False
    then have "hi' = hi" "tot' = tot" "can_newer' = False"
      using step True fits by (simp_all add: target_newer_def)
    then show ?thesis using inv False unfolding target_inv_def by auto
  qed
qed

lemma target_loop_props:
  assumes "target_inv sizes budget lo hi tot can_older can_newer" and "budget < usize_max"
    and "target_loop sizes budget lo hi tot can_older can_newer = (lo', hi')"
  shows "lo' \<le> lo \<and> hi \<le> hi' \<and> (\<exists>tot'. target_inv sizes budget lo' hi' tot' False False)"
  using assms
proof (induction sizes budget lo hi tot can_older can_newer rule: target_loop.induct)
  case (1 sizes budget lo hi tot can_older can_newer)
  show ?case
  proof (cases "can_older \<or> can_newer")
    case True
    obtain lo1 tot1 older1 where o: "target_older sizes budget (lo, tot, can_older) = (lo1, tot1, older1)"
      by (metis prod_cases3)
    obtain hi1 tot2 newer1 where n: "target_newer sizes budget (hi, tot1, can_newer) = (hi1, tot2, newer1)"
      by (metis prod_cases3)
    note inv1 = target_older_inv [OF "1.prems"(1,2) o]
    note inv2 = target_newer_inv [OF conjunct1 [OF inv1] "1.prems"(2) n]
    have "target_loop sizes budget lo1 hi1 tot2 older1 newer1 = (lo', hi')"
      using "1.prems"(3) True o n by (simp add: target_loop.simps [of sizes budget lo])
    with "1.IH" [OF True o [symmetric] refl n [symmetric] refl] inv1 inv2 "1.prems"(2)
    show ?thesis by fastforce
  next
    case False
    with "1.prems" show ?thesis by (auto simp: target_loop.simps [of sizes budget lo])
  qed
qed

fun anchor_row :: "nat \<Rightarrow> budget_anchor \<Rightarrow> nat" where
  "anchor_row n Newest = n - 1"
| "anchor_row n Oldest = 0"
| "anchor_row n (Target p) = min p (n - 1)"

text \<open>
  C24. A budgeted page is the widest one its anchor allows. For a nonempty page the kept range is
  contiguous, never empty and holds the anchor row; it fits the budget unless it is the anchor row
  alone; and it cannot be extended on any side the anchor lets it grow to without exceeding the
  budget. (Below the saturation point of the byte counter, which no real budget reaches.)
\<close>

theorem budget_page_widest:
  assumes "sizes \<noteq> []" and "budget < usize_max" and "budget_page sizes anchor budget = (lo, hi)"
    and "list_all (\<lambda>s. s \<le> usize_max) sizes"
  shows "lo \<le> anchor_row (length sizes) anchor \<and> anchor_row (length sizes) anchor < hi \<and> hi \<le> length sizes \<and>
    (hi = Suc lo \<or> rows_size sizes lo hi \<le> budget) \<and>
    (if anchor = Oldest then lo = 0 else lo = 0 \<or> budget < rows_size sizes (lo - 1) hi) \<and>
    (if anchor = Newest then hi = length sizes else hi = length sizes \<or> budget < rows_size sizes lo (Suc hi))"
proof (cases anchor)
  case Newest
  with assms have "hi = length sizes" and "lo = budget_newest sizes budget (length sizes) 0"
    by (auto simp: budget_page_def Let_def)
  with budget_newest_props [of "length sizes" sizes budget 0 lo] assms(1,2) Newest
  show ?thesis by (cases "length sizes") auto
next
  case Oldest
  with assms have "lo = 0" and "hi = budget_oldest sizes budget 0 0"
    by (auto simp: budget_page_def Let_def)
  with budget_oldest_props [of 0 sizes budget 0 hi] assms(1,2) Oldest show ?thesis by (auto simp: le_Suc_eq)
next
  case (Target p)
  define pos where "pos = min p (length sizes - 1)"
  have pos: "pos < length sizes" using assms(1) by (cases sizes) (auto simp: pos_def)
  then have "sizes ! pos \<le> usize_max" using assms(4) by (simp add: list_all_length)
  moreover have "rows_size sizes pos (Suc pos) = sizes ! pos"
    using rows_size_newer [of pos pos sizes] pos by simp
  ultimately have inv: "target_inv sizes budget pos (Suc pos) (sizes ! pos) (pos > 0) (Suc pos < length sizes)"
    using pos by (auto simp: target_inv_def)
  have "target_loop sizes budget pos (Suc pos) (sizes ! pos) (pos > 0) (Suc pos < length sizes) = (lo, hi)"
    using assms(1,3) Target by (simp add: budget_page_def Let_def pos_def)
  from target_loop_props [OF inv assms(2) this] show ?thesis
    using Target by (auto simp: target_inv_def pos_def)
qed

theorem budget_page_widest_witness:
  "budget_page [5, 4, 3, 9] (Target 1) 12 = (0, 3) \<and> rows_size [5, 4, 3, 9] 0 3 \<le> 12 \<and>
    12 < rows_size [5, 4, 3, 9] 0 4"
proof -
  have page: "budget_page [5, 4, 3, 9] (Target 1) 12 = (0, 3)"
    by (simp add: budget_page_def Let_def target_loop.simps target_older_def target_newer_def
        sat_add_def u64_max_def numeral_3_eq_3)
  then show ?thesis
    using budget_page_widest [OF _ _ page] by (simp add: u64_max_def)
qed

end
