(* ===== verification/TextPaging.thy ===== *)
theory TextPaging
  imports Pagination
begin

text \<open>
  Text pages of \<open>crates/intent-services/src/pagination.rs\<close>: the bounded tail of a text, and the walk
  over the pages of a text, where a page may stop inside a line too long for one page.
\<close>

section \<open>Bounded tails\<close>

lemma json_escaped_len_bounds: "1 \<le> json_escaped_len c \<and> json_escaped_len c \<le> 6"
  by (auto simp: json_escaped_len_def len_utf8_def)

lemma escaped_len_simps [simp]:
  "escaped_len [] = 0" "escaped_len (c # t) = json_escaped_len c + escaped_len t"
  "escaped_len (s @ t) = escaped_len s + escaped_len t" "escaped_len (rev t) = escaped_len t"
  by (simp_all add: escaped_len_def flip: rev_map)

lemma escaped_len_ge: "length t \<le> escaped_len t"
proof (induction t)
  case (Cons c t)
  then show ?case using json_escaped_len_bounds [of c] by simp
qed simp

lemma escaped_len_mono: "suffix s t \<Longrightarrow> escaped_len s \<le> escaped_len t"
  by (auto simp: suffix_def)

text \<open>The tail begins on a whole line: after a newline, or with no newline before its last character.\<close>

definition whole_line :: "rtext \<Rightarrow> rtext \<Rightarrow> bool" where
  "whole_line pre tail \<longleftrightarrow> pre = [] \<or> last pre = 10 \<or> 10 \<notin> set (butlast tail)"

lemma after_newline_cases:
  obtains (same) "after_newline kept = kept" "10 \<notin> set (butlast kept)"
  | (cut_line) l rest where "after_newline kept = rest" "kept = l @ 10 # rest" "rest \<noteq> []" "10 \<notin> set l"
proof (cases "dropWhile (\<lambda>c. c \<noteq> 10) kept")
  case Nil
  then have "10 \<notin> set kept" by (auto simp: dropWhile_eq_Nil_conv)
  moreover have "after_newline kept = kept" unfolding after_newline_def Nil by simp
  ultimately show thesis by (intro same) (auto dest: in_set_butlastD)
next
  case (Cons d rest)
  then have d: "d = 10" using hd_dropWhile [of "\<lambda>c. c \<noteq> 10" kept] by force
  have split: "kept = takeWhile (\<lambda>c. c \<noteq> 10) kept @ 10 # rest"
    using takeWhile_dropWhile_id [of "\<lambda>c. c \<noteq> 10" kept] Cons d by simp
  have no: "10 \<notin> set (takeWhile (\<lambda>c. c \<noteq> 10) kept)" by (auto dest: set_takeWhileD)
  show thesis
  proof (cases "rest = []")
    case True
    with split have "butlast kept = takeWhile (\<lambda>c. c \<noteq> 10) kept" by (metis butlast_snoc)
    with True Cons no show thesis by (intro same) (auto simp: after_newline_def)
  next
    case False
    with Cons split no show thesis by (intro cut_line) (auto simp: after_newline_def)
  qed
qed

lemma tail_walk_props:
  assumes "tail_walk budget before (escaped_len kept) kept = (tail, dropped)"
    and "escaped_len kept \<le> budget" and "text = rev before @ kept"
  shows "(\<exists>pre. text = pre @ tail \<and> (dropped \<longrightarrow> pre \<noteq> [] \<and> whole_line pre tail) \<and>
      (\<not> dropped \<longrightarrow> pre = []) \<and>
      (dropped \<longrightarrow> 10 \<notin> set text \<longrightarrow> budget < escaped_len (last pre # tail))) \<and>
    escaped_len tail \<le> budget \<and> (dropped \<longleftrightarrow> budget < escaped_len text)"
  using assms
proof (induction before arbitrary: kept)
  case Nil
  then show ?case by auto
next
  case (Cons c before)
  show ?case
  proof (cases "escaped_len kept + json_escaped_len c > budget")
    case fits: False
    with Cons.prems have "tail_walk budget before (escaped_len (c # kept)) (c # kept) = (tail, dropped)"
      by (simp add: add.commute)
    moreover have "escaped_len (c # kept) \<le> budget" using fits by simp
    moreover have "text = rev before @ c # kept" using Cons.prems(3) by simp
    ultimately show ?thesis by (rule Cons.IH)
  next
    case True
    with Cons.prems have t: "tail = (if c = 10 then kept else after_newline kept)" "dropped = True" by auto
    show ?thesis
    proof (cases "c = 10")
      case True
      with t \<open>budget < escaped_len kept + json_escaped_len c\<close> Cons.prems(2,3) show ?thesis
        by (auto simp: whole_line_def intro!: exI [of _ "rev before @ [c]"])
    next
      case c: False
      show ?thesis
      proof (cases rule: after_newline_cases [of kept])
        case same
        with c t \<open>budget < escaped_len kept + json_escaped_len c\<close> Cons.prems(2,3) show ?thesis
          by (auto simp: whole_line_def intro!: exI [of _ "rev before @ [c]"])
      next
        case (cut_line l rest)
        with c t \<open>budget < escaped_len kept + json_escaped_len c\<close> Cons.prems(2,3) show ?thesis
          by (auto simp: whole_line_def intro!: exI [of _ "rev before @ c # l @ [10]"])
      qed
    qed
  qed
qed

text \<open>
  C27. A bounded tail is an honest suffix. The tail of a text within a budget is a suffix whose
  JSON-escaped size fits the budget; something is dropped exactly when the whole text does not fit;
  and after a cut the tail starts on a whole line whenever it holds a newline before its end.
\<close>

theorem tail_within_budget:
  assumes "tail_within_json_bytes text budget = (tail, dropped)"
  shows "\<exists>pre. text = pre @ tail \<and> escaped_len tail \<le> budget \<and> whole_line pre tail \<and>
    (dropped \<longleftrightarrow> budget < escaped_len text) \<and> (dropped \<longleftrightarrow> pre \<noteq> [])"
  using assms tail_walk_props [of budget "rev text" "[]" tail dropped "text"]
  by (auto simp: tail_within_json_bytes_def whole_line_def)

theorem tail_within_budget_witness:
  "\<exists>pre. [97, 98, 10, 99, 100] = pre @ [99, 100] \<and> escaped_len [99, 100] \<le> 4 \<and> whole_line pre [99, 100]"
proof -
  have "tail_within_json_bytes [97, 98, 10, 99, 100] 4 = ([99, 100], True)"
    by (simp add: tail_within_json_bytes_def json_escaped_len_def len_utf8_def after_newline_def)
  from tail_within_budget [OF this] show ?thesis by blast
qed

lemma tail_of_long_line:
  assumes "10 \<notin> set line" and "budget < escaped_len line" and "6 \<le> budget"
    and "tail_within_json_bytes line budget = (tail, dropped)"
  obtains pre where "line = pre @ tail" "pre \<noteq> []" "tail \<noteq> []" "escaped_len tail \<le> budget"
proof -
  from tail_walk_props [of budget "rev line" "[]" tail dropped line] assms obtain pre
    where p: "line = pre @ tail" "pre \<noteq> []" "escaped_len tail \<le> budget"
      and big: "budget < escaped_len (last pre # tail)"
    by (auto simp: tail_within_json_bytes_def)
  moreover have "tail \<noteq> []" using big assms(3) json_escaped_len_bounds [of "last pre"] by auto
  ultimately show thesis using that by blast
qed

section \<open>Lines\<close>

lemma split_nl_nonempty [simp]: "split_nl t \<noteq> []"
  by (induction t) (auto split: list.splits)

lemma split_nl_no_newline: "l \<in> set (split_nl t) \<Longrightarrow> 10 \<notin> set l"
  by (induction t arbitrary: l) (auto split: list.splits if_splits)

definition line_weight :: "rtext list \<Rightarrow> nat" where
  "line_weight ls = sum_list (map (\<lambda>l. Suc (length l)) ls)"

lemma line_weight_simps [simp]:
  "line_weight [] = 0" "line_weight (l # ls) = Suc (length l) + line_weight ls"
  "line_weight (ls @ ms) = line_weight ls + line_weight ms"
  by (simp_all add: line_weight_def)

lemma split_nl_weight: "line_weight (split_nl t) = Suc (length t)"
  by (induction t) (auto split: list.splits)

lemma trimmed_lines_prefix: "prefix (trimmed_lines t) (split_nl t)"
  unfolding trimmed_lines_def using suffix_dropWhile [of is_blank "rev (split_nl t)"]
  by (simp add: suffix_to_prefix)

lemma trimmed_lines_no_newline: "l \<in> set (trimmed_lines t) \<Longrightarrow> 10 \<notin> set l"
  using trimmed_lines_prefix split_nl_no_newline set_mono_prefix by blast

lemma trimmed_lines_weight: "line_weight (trimmed_lines t) \<le> Suc (length t)"
  using trimmed_lines_prefix [of t] split_nl_weight [of t] by (auto simp: prefix_def)

section \<open>One page\<close>

definition page_items :: "json \<Rightarrow> rtext list" where
  "page_items p =
     (case json_get p ''items'' of
        Some (JArr xs) \<Rightarrow> map (\<lambda>v. case v of JStr s \<Rightarrow> s | _ \<Rightarrow> []) xs
      | _ \<Rightarrow> [])"

definition page_next :: "json \<Rightarrow> rtext option" where
  "page_next p = get_str p ''nextToken''"

definition page_continues :: "json \<Rightarrow> bool" where
  "page_continues p \<longleftrightarrow> json_get p ''lineContinues'' = Some (JBool True)"

definition items_size :: "rtext list \<Rightarrow> nat" where
  "items_size its = sum_list (map (\<lambda>l. escaped_len l + 3) its)"

lemma items_size_simps [simp]:
  "items_size [] = 0" "items_size (l # ls) = escaped_len l + 3 + items_size ls"
  "items_size (ls @ ms) = items_size ls + items_size ms"
  by (simp_all add: items_size_def)

lemma text_page_loop_more:
  assumes "items \<noteq> []" and "used = items_size items" and "used \<le> OUTPUT_TAIL_MAX_JSON_BYTES"
  shows "\<exists>j \<le> length ls. text_page_loop ls items used fk = (items @ take j ls, fk - j, None) \<and>
    items_size (items @ take j ls) \<le> OUTPUT_TAIL_MAX_JSON_BYTES"
  using assms
proof (induction ls arbitrary: items used fk)
  case Nil
  then show ?case by simp
next
  case (Cons l ls)
  show ?case
  proof (cases "used + (escaped_len l + 3) > OUTPUT_TAIL_MAX_JSON_BYTES")
    case True
    with Cons.prems show ?thesis by (intro exI [of _ 0]) (simp add: Let_def)
  next
    case False
    with Cons.prems Cons.IH [of "items @ [l]" "used + (escaped_len l + 3)" "fk - 1"]
    obtain j where "j \<le> length ls"
      "text_page_loop ls (items @ [l]) (used + (escaped_len l + 3)) (fk - 1) =
        ((items @ [l]) @ take j ls, fk - 1 - j, None)"
      "items_size ((items @ [l]) @ take j ls) \<le> OUTPUT_TAIL_MAX_JSON_BYTES"
      by auto
    with False show ?thesis by (intro exI [of _ "Suc j"]) (simp add: Let_def)
  qed
qed

lemma bound_text_page_json:
  assumes "text_page_loop (rev window) [] 0 (start + length window) = (items, first_kept, resume)"
    and "next = (case resume of
           Some (stop, c) \<Rightarrow> Some (encode_token cd (cursor_fields [(''b'', stop), (''c'', c)]))
         | None \<Rightarrow> if first_kept > start then remint_backward_token cd first_kept else tok)"
  shows "page_items (bound_text_page cd window start tok) = items"
    and "page_next (bound_text_page cd window start tok) = next"
    and "page_continues (bound_text_page cd window start tok) \<longleftrightarrow> resume \<noteq> None"
proof -
  have p: "bound_text_page cd window start tok =
      (let page = JObj [(''items'', JArr (map JStr items)), (''nextToken'', opt_text next)] in
       if resume \<noteq> None then json_insert ''lineContinues'' (JBool True) page else page)"
    using assms by (simp add: bound_text_page_def Let_def)
  show "page_items (bound_text_page cd window start tok) = items"
    by (simp add: p page_items_def Let_def comp_def)
  show "page_next (bound_text_page cd window start tok) = next"
    by (cases "next") (simp_all add: p page_next_def Let_def get_str_def opt_text_def)
  show "page_continues (bound_text_page cd window start tok) \<longleftrightarrow> resume \<noteq> None"
    by (simp add: p page_continues_def Let_def)
qed

lemma bound_text_page_cases:
  assumes R: "R \<noteq> []" "start < length R" "10 \<notin> set (last R)"
    and page: "page = bound_text_page cd (drop start R) start (remint_backward_token cd start)"
  obtains
    (whole) m where "m < length R" "page_items page = rev (drop m R)" "\<not> page_continues page"
      "page_next page = remint_backward_token cd m" "items_size (page_items page) \<le> OUTPUT_TAIL_MAX_JSON_BYTES"
  | (part) pre tail where "last R = pre @ tail" "pre \<noteq> []" "tail \<noteq> []" "page_items page = [tail]"
      "page_continues page"
      "page_next page = Some (encode_token cd (cursor_fields [(''b'', length R), (''c'', str_len pre)]))"
      "items_size (page_items page) \<le> OUTPUT_TAIL_MAX_JSON_BYTES"
proof -
  let ?W = "drop start R" and ?l = "last R" and ?n = "length R"
  have fk: "start + length ?W = ?n" using R by simp
  have rev: "rev ?W = ?l # rev (drop start (butlast R))"
    using R by (cases R rule: rev_cases) auto
  show thesis
  proof (cases "escaped_len ?l + 3 > OUTPUT_TAIL_MAX_JSON_BYTES")
    case True
    obtain tail dropped where t: "tail_within_json_bytes ?l (OUTPUT_TAIL_MAX_JSON_BYTES - 3) = (tail, dropped)"
      by fastforce
    then obtain pre where pre: "?l = pre @ tail" "pre \<noteq> []" "tail \<noteq> []"
      "escaped_len tail \<le> OUTPUT_TAIL_MAX_JSON_BYTES - 3"
      using tail_of_long_line [OF R(3) _ _ t] True by (auto simp: OUTPUT_TAIL_MAX_JSON_BYTES_def)
    have loop: "text_page_loop (rev ?W) [] 0 (start + length ?W) =
        ([tail], ?n, Some (?n, str_len pre))"
      using rev True t pre(1) fk by (simp add: Let_def)
    show thesis
      using bound_text_page_json [OF loop refl] pre page
      by (intro part [of pre tail]) (simp_all add: OUTPUT_TAIL_MAX_JSON_BYTES_def)
  next
    case False
    obtain j where j: "j \<le> length (rev (drop start (butlast R)))"
      "text_page_loop (rev (drop start (butlast R))) [?l] (escaped_len ?l + 3) (?n - 1) =
         ([?l] @ take j (rev (drop start (butlast R))), ?n - 1 - j, None)"
      "items_size ([?l] @ take j (rev (drop start (butlast R)))) \<le> OUTPUT_TAIL_MAX_JSON_BYTES"
      using text_page_loop_more [of "[?l]" "escaped_len ?l + 3" "rev (drop start (butlast R))" "?n - 1"] False
      by auto
    let ?m = "?n - 1 - j"
    have taken: "[?l] @ take j (rev (drop start (butlast R))) = rev (drop ?m R)"
    proof -
      have "[?l] @ take j (rev (drop start (butlast R))) = take (Suc j) (rev ?W)" by (simp add: rev)
      also have "\<dots> = rev (drop (length ?W - Suc j) ?W)" by (simp add: take_rev)
      also have "\<dots> = rev (drop ?m R)" using j(1) R by (simp add: add.commute)
      finally show ?thesis .
    qed
    have loop: "text_page_loop (rev ?W) [] 0 (start + length ?W) = (rev (drop ?m R), ?m, None)"
      using rev False j(2) fk taken by (simp add: Let_def)
    have m: "start \<le> ?m" "?m < ?n" using j(1) R by auto
    show thesis
      using bound_text_page_json [OF loop refl] page m j(3) [unfolded taken]
      by (intro whole [of ?m]) auto
  qed
qed

section \<open>The walk over a text\<close>

fun text_walk :: "codec \<Rightarrow> rtext \<Rightarrow> int option \<Rightarrow> rtext option \<Rightarrow> nat \<Rightarrow> json list option" where
  "text_walk cd t limit token 0 = None"
| "text_walk cd t limit token (Suc fuel) =
     (let page = paginate_text_lines cd t limit token in
      case page_next page of
        None \<Rightarrow> Some [page]
      | Some tok \<Rightarrow> map_option (Cons page) (text_walk cd t limit (Some tok) fuel))"

text \<open>
  What the client puts together, newest line first: the items of the pages in order, where the first
  item of a page is put before the last item of a page that says its line continues.
\<close>

fun rebuild :: "json list \<Rightarrow> rtext list" where
  "rebuild [] = []"
| "rebuild (p # ps) =
     (if page_continues p
      then butlast (page_items p) @ [hd (rebuild ps) @ last (page_items p)] @ tl (rebuild ps)
      else page_items p @ rebuild ps)"

text \<open>
  \<open>R\<close> is what is left to serve at a token: whole lines, the last one possibly cut to a nonempty prefix.
\<close>

definition resumes :: "codec \<Rightarrow> rtext list \<Rightarrow> rtext option \<Rightarrow> rtext list \<Rightarrow> bool" where
  "resumes cd lines token R \<longleftrightarrow>
     R \<noteq> [] \<and> length R \<le> length lines \<and> butlast R = take (length R - 1) lines \<and>
     (token = None \<and> R = lines \<or>
      token = Some (encode_token cd (cursor_fields [(''b'', length R)])) \<and> last R = lines ! (length R - 1) \<or>
      token = Some (encode_token cd (cursor_fields [(''b'', length R), (''c'', str_len (last R))])) \<and>
        prefix (last R) (lines ! (length R - 1)))"

lemma floor_boundary: "is_char_boundary t n \<Longrightarrow> floor_char_boundary t n = n"
  using is_char_boundary_le [of t n] by (cases n) (simp_all add: floor_char_boundary_def min_absorb1)

lemma take_drop_last:
  assumes "R \<noteq> []" "length R \<le> length lines" "butlast R = take (length R - 1) lines" "start < length R"
  shows "take (length R - start) (drop start lines) = drop start (butlast R) @ [lines ! (length R - 1)]"
    and "drop start R = drop start (butlast R) @ [last R]"
proof -
  let ?b = "length R"
  have "take ?b lines = butlast R @ [lines ! (?b - 1)]"
    using assms(1-3) take_Suc_conv_app_nth [of "?b - 1" lines] by (cases R) auto
  then show "take (?b - start) (drop start lines) = drop start (butlast R) @ [lines ! (?b - 1)]"
    using assms(4) by (simp add: take_drop)
  show "drop start R = drop start (butlast R) @ [last R]"
    using assms(1,4) by (cases R rule: rev_cases) auto
qed

lemma paginate_resumes:
  assumes cd: "codec_ok cd" and R: "resumes cd (trimmed_lines t) token R"
    and fits: "length (trimmed_lines t) \<le> usize_max" "str_len (last R) \<le> usize_max"
    and start: "start = length R - clamp_limit limit"
  shows "start < length R \<and> paginate_text_lines cd t limit token =
    bound_text_page cd (drop start R) start (remint_backward_token cd start)"
proof -
  let ?ls = "trimmed_lines t" and ?b = "length R"
  from R have b: "R \<noteq> []" "?b \<le> length ?ls" "butlast R = take (?b - 1) ?ls" by (simp_all add: resumes_def)
  have pos: "0 < ?b" using b(1) by simp
  with start have lt: "start < ?b" using clamp_limit_pos [of limit] by linarith
  have b': "?b \<le> usize_max" using b(2) fits(1) by simp
  note split = take_drop_last [OF b lt]
  consider (first) "token = None" "R = ?ls"
    | (whole) "token = Some (encode_token cd (cursor_fields [(''b'', ?b)]))" "last R = ?ls ! (?b - 1)"
    | (part) "token = Some (encode_token cd (cursor_fields [(''b'', ?b), (''c'', str_len (last R))]))"
        "prefix (last R) (?ls ! (?b - 1))"
    using R by (auto simp: resumes_def)
  then show ?thesis
  proof cases
    case first
    then show ?thesis
      using start lt
      by (simp add: paginate_text_lines_def text_page_window_def page_window_def Let_def cut_last_def
          remint_backward_token_def)
  next
    case whole
    with cd b' b(2) start split have "text_page_window cd (length ?ls) limit token =
        (\<lparr>pw_start = start, pw_end = ?b, pw_next_token = remint_backward_token cd start\<rparr>, None)"
      by (simp add: text_page_window_def page_window_def Let_def remint_backward_token_def min_absorb1)
    with whole split lt show ?thesis by (simp add: paginate_text_lines_def cut_last_def)
  next
    case part
    with cd b' b(2) start lt fits(2) have win: "text_page_window cd (length ?ls) limit token =
        (\<lparr>pw_start = start, pw_end = ?b, pw_next_token = remint_backward_token cd start\<rparr>,
         Some (str_len (last R)))"
      by (simp add: text_page_window_def page_window_def backward_page_boundary_def Let_def
          remint_backward_token_def min_absorb1)
    from part(2) obtain r where r: "?ls ! (?b - 1) = last R @ r" by (auto simp: prefix_def)
    then have "bytes_upto (?ls ! (?b - 1)) (floor_char_boundary (?ls ! (?b - 1)) (str_len (last R))) = last R"
      by (simp add: floor_boundary)
    with win split lt show ?thesis by (simp add: paginate_text_lines_def cut_last_def)
  qed
qed

lemma split_nl_str_len: "sum_list (map str_len (split_nl t)) \<le> str_len t"
  by (induction t) (auto split: list.splits)

lemma trimmed_lines_fit:
  assumes "str_len t < usize_max"
  shows "length (trimmed_lines t) \<le> usize_max" and "l \<in> set (trimmed_lines t) \<Longrightarrow> str_len l \<le> usize_max"
proof -
  have "length ls \<le> line_weight ls" for ls :: "rtext list" by (induction ls) auto
  moreover note length_le_str_len [of t]
  ultimately show "length (trimmed_lines t) \<le> usize_max"
    using trimmed_lines_weight [of t] assms le_trans by (metis Suc_le_eq Suc_le_mono le_trans not_less_eq_eq)
  assume "l \<in> set (trimmed_lines t)"
  then have "l \<in> set (split_nl t)" using trimmed_lines_prefix set_mono_prefix by blast
  then have "str_len l \<le> sum_list (map str_len (split_nl t))" by (simp add: member_le_sum_list)
  then show "str_len l \<le> usize_max" using split_nl_str_len [of t] assms by simp
qed

lemma resumes_last:
  assumes "resumes cd lines token R"
  shows "\<exists>l \<in> set lines. prefix (last R) l" and "set (butlast R) \<subseteq> set lines"
proof -
  from assms have b: "R \<noteq> []" "length R \<le> length lines" "butlast R = take (length R - 1) lines"
    by (simp_all add: resumes_def)
  then have "lines ! (length R - 1) \<in> set lines" by (intro nth_mem) (cases R; simp)
  moreover have "prefix (last R) (lines ! (length R - 1))"
    using assms b(1) by (auto simp: resumes_def last_conv_nth)
  ultimately show "\<exists>l \<in> set lines. prefix (last R) l" by blast
  show "set (butlast R) \<subseteq> set lines" using b(3) set_take_subset by metis
qed

lemma resumes_whole:
  assumes "resumes cd lines token R" and "0 < m" and "m < length R"
  shows "resumes cd lines (Some (encode_token cd (cursor_fields [(''b'', m)]))) (take m R)"
    and "line_weight (take m R) < line_weight R"
proof -
  from assms(1) have b: "R \<noteq> []" "length R \<le> length lines" "butlast R = take (length R - 1) lines"
    by (simp_all add: resumes_def)
  have take: "take m R = take m lines"
    using b assms(3) by (metis butlast_conv_take diff_Suc_1 less_Suc_eq_le min.absorb1
        min.absorb2 Suc_pred take_take length_greater_0_conv)
  have m: "m \<le> length lines" using assms(3) b(2) by simp
  have "butlast (take m lines) = take (m - 1) lines" using m by (simp add: butlast_take)
  moreover have "last (take m lines) = lines ! (m - 1)" using m assms(2) by (subst last_conv_nth) auto
  ultimately show "resumes cd lines (Some (encode_token cd (cursor_fields [(''b'', m)]))) (take m R)"
    using assms(2) m b(1) by (auto simp: resumes_def take)
  have "line_weight R = line_weight (take m R) + line_weight (drop m R)"
    by (metis append_take_drop_id line_weight_simps(3))
  moreover have "0 < line_weight (drop m R)" using assms(3) by (cases "drop m R") auto
  ultimately show "line_weight (take m R) < line_weight R" by simp
qed

lemma resumes_part:
  assumes "resumes cd lines token R" and "last R = pre @ tail" and "tail \<noteq> []"
  shows "resumes cd lines (Some (encode_token cd (cursor_fields [(''b'', length R), (''c'', str_len pre)])))
      (butlast R @ [pre])"
    and "line_weight (butlast R @ [pre]) < line_weight R" and "(pre @ tail) # rev (butlast R) = rev R"
proof -
  from assms(1) have b: "R \<noteq> []" "length R \<le> length lines" "butlast R = take (length R - 1) lines"
    by (simp_all add: resumes_def)
  have R: "butlast R @ [pre @ tail] = R" using b(1) assms(2) by (metis append_butlast_last_id)
  have "prefix (last R) (lines ! (length R - 1))"
    using assms(1) b(1) by (auto simp: resumes_def last_conv_nth)
  then have "prefix pre (lines ! (length R - 1))" using assms(2) by (auto simp: prefix_def)
  moreover have "length (butlast R @ [pre]) = length R" using b(1) by (cases R rule: rev_cases) auto
  ultimately show "resumes cd lines
      (Some (encode_token cd (cursor_fields [(''b'', length R), (''c'', str_len pre)]))) (butlast R @ [pre])"
    using b by (auto simp: resumes_def)
  have "line_weight (butlast R @ [pre @ tail]) = line_weight (butlast R @ [pre]) + length tail" by simp
  then show "line_weight (butlast R @ [pre]) < line_weight R" using assms(3) unfolding R by simp
  have "rev (butlast R @ [pre @ tail]) = rev R" unfolding R ..
  then show "(pre @ tail) # rev (butlast R) = rev R" by (simp del: rev_is_rev_conv)
qed

lemma walk_resumes:
  assumes cd: "codec_ok cd" and size: "str_len t < usize_max"
    and "resumes cd (trimmed_lines t) token R" and "line_weight R \<le> fuel"
  shows "\<exists>pages. text_walk cd t limit token fuel = Some pages \<and> rebuild pages = rev R \<and>
    (\<forall>p \<in> set pages. items_size (page_items p) \<le> OUTPUT_TAIL_MAX_JSON_BYTES)"
  using assms(3,4)
proof (induction fuel arbitrary: token R)
  case 0
  then have "R = []" by (cases R) auto
  with 0 show ?case by (simp add: resumes_def)
next
  case (Suc fuel)
  let ?ls = "trimmed_lines t" and ?start = "length R - clamp_limit limit"
  from Suc.prems(1) have b: "R \<noteq> []" by (simp add: resumes_def)
  obtain l where l: "l \<in> set ?ls" "prefix (last R) l" using resumes_last [OF Suc.prems(1)] by blast
  then have nl: "10 \<notin> set (last R)" using trimmed_lines_no_newline set_mono_prefix by blast
  have "str_len (last R) \<le> usize_max"
    using l trimmed_lines_fit(2) [OF size l(1)] by (auto simp: prefix_def)
  with paginate_resumes [OF cd Suc.prems(1) trimmed_lines_fit(1) [OF size] _ refl]
  have start: "?start < length R" and page: "paginate_text_lines cd t limit token =
      bound_text_page cd (drop ?start R) ?start (remint_backward_token cd ?start)"
    by simp_all
  from b start nl page show ?case
  proof (cases rule: bound_text_page_cases)
    case (whole m)
    show ?thesis
    proof (cases "m = 0")
      case True
      with whole show ?thesis by (simp add: Let_def remint_backward_token_def)
    next
      case False
      then have m: "0 < m" by simp
      have "line_weight (take m R) \<le> fuel"
        using resumes_whole(2) [OF Suc.prems(1) m whole(1)] Suc.prems(2) by simp
      from Suc.IH [OF resumes_whole(1) [OF Suc.prems(1) m whole(1)] this] obtain pages where "text_walk cd t limit (Some (encode_token cd (cursor_fields [(''b'', m)]))) fuel = Some pages"
        "rebuild pages = rev (take m R)" "\<forall>p \<in> set pages. items_size (page_items p) \<le> OUTPUT_TAIL_MAX_JSON_BYTES"
        by blast
      moreover have "rev (drop m R) @ rev (take m R) = rev R" by (simp flip: rev_append)
      ultimately show ?thesis using whole False by (simp add: Let_def remint_backward_token_def)
    qed
  next
    case (part pre tail)
    have "line_weight (butlast R @ [pre]) \<le> fuel"
      using resumes_part(2) [OF Suc.prems(1) part(1,3)] Suc.prems(2) by simp
    from Suc.IH [OF resumes_part(1) [OF Suc.prems(1) part(1,3)] this] obtain pages where
      "text_walk cd t limit (Some (encode_token cd (cursor_fields [(''b'', length R), (''c'', str_len pre)]))) fuel =
        Some pages" "rebuild pages = rev (butlast R @ [pre])"
      "\<forall>p \<in> set pages. items_size (page_items p) \<le> OUTPUT_TAIL_MAX_JSON_BYTES"
      by blast
    with part(2-) resumes_part(3) [OF Suc.prems(1) part(1,3)] show ?thesis by (simp add: Let_def)
  qed
qed

text \<open>
  C8. Walking the pages of a text loses no byte. Following the tokens from the first page ends after
  at most two more pages than the text has characters; putting the items together, with every
  continued piece in front of the rest of its line, gives exactly the lines of the text (without
  trailing blank lines); and every page keeps its JSON-escaped line text within the page budget.
\<close>

theorem text_walk_rebuilds:
  assumes "codec_ok cd" and "str_len t < usize_max"
  shows "\<exists>pages. text_walk cd t limit None (length t + 2) = Some pages \<and>
    rebuild pages = rev (trimmed_lines t) \<and>
    (\<forall>p \<in> set pages. items_size (page_items p) \<le> OUTPUT_TAIL_MAX_JSON_BYTES)"
proof (cases "trimmed_lines t = []")
  case True
  have "paginate_text_lines cd t limit None = JObj [(''items'', JArr []), (''nextToken'', JNull)]"
    using True by (simp add: paginate_text_lines_def text_page_window_def page_window_def Let_def
        cut_last_def bound_text_page_def opt_text_def)
  then show ?thesis using True
    by (simp add: Let_def page_next_def get_str_def page_continues_def page_items_def)
next
  case False
  then have "resumes cd (trimmed_lines t) None (trimmed_lines t)"
    by (simp add: resumes_def butlast_conv_take)
  moreover have "line_weight (trimmed_lines t) \<le> length t + 2" using trimmed_lines_weight [of t] by simp
  ultimately show ?thesis using walk_resumes [OF assms] by blast
qed

theorem text_walk_rebuilds_witness:
  "\<exists>pages. text_walk plain_codec [97, 10, 98, 10] (Some 1) None (length [97, 10, 98, 10 :: nat] + 2) = Some pages \<and>
    rebuild pages = [[98], [97]]"
proof -
  have "trimmed_lines [97, 10, 98, 10] = [[97], [98]]"
    by (simp add: trimmed_lines_def is_blank_def is_whitespace_def)
  moreover have "str_len [97, 10, 98, 10] < usize_max" by (simp add: len_utf8_def u64_max_def)
  ultimately show ?thesis
    using text_walk_rebuilds [OF plain_codec_ok, of "[97, 10, 98, 10]" "Some 1"] by auto
qed

end
