(* ===== verification/ListPaging.thy ===== *)
theory ListPaging
  imports Pagination
begin

text \<open>
  Queue pages, keyset tokens and bounded rows of \<open>crates/intent-services/src/pagination.rs\<close>.
\<close>

section \<open>Rows within a budget\<close>

definition marker_of :: "string set \<Rightarrow> string \<Rightarrow> bool" where
  "marker_of fs k \<longleftrightarrow> (\<exists>f \<in> fs. k = f @ ''Omitted'' \<or> k = f @ ''Bytes'')"

lemma marker_of_insert [simp]:
  "marker_of (insert f fs) k \<longleftrightarrow> k = f @ ''Omitted'' \<or> k = f @ ''Bytes'' \<or> marker_of fs k"
  by (auto simp: marker_of_def)





section \<open>Queue pages\<close>

lemma fit_rows_from_bounds:
  "i \<le> fit_rows_from cd budget i tot rows \<and> fit_rows_from cd budget i tot rows \<le> i + length rows"
proof (induction rows arbitrary: i tot)
  case Nil
  then show ?case by simp
next
  case (Cons r rows)
  let ?s = "sat_add tot (length (to_vec cd r) + 1)"
  show ?case using Cons [of "i + 1" ?s] by (auto simp: Let_def)
qed

lemma fit_rows_bounds:
  "fit_rows_to_budget cd rows budget \<le> length rows"
  "rows \<noteq> [] \<Longrightarrow> 0 < fit_rows_to_budget cd rows budget"
proof -
  show "fit_rows_to_budget cd rows budget \<le> length rows"
    using fit_rows_from_bounds [where i = 0 and tot = 2] by (simp add: fit_rows_to_budget_def)
  assume "rows \<noteq> []"
  then obtain r rs where "rows = r # rs" by (cases rows) auto
  then show "0 < fit_rows_to_budget cd rows budget"
    using fit_rows_from_bounds [of 1 cd budget "sat_add 2 (length (to_vec cd r) + 1)" rs]
    by (simp add: fit_rows_to_budget_def Let_def)
qed

fun queue_of :: "json \<Rightarrow> json list" where
  "queue_of (JObj m) = (case map_of m ''queue'' of Some (JArr es) \<Rightarrow> es | _ \<Rightarrow> [])"
| "queue_of _ = []"

fun queue_walk :: "codec \<Rightarrow> json \<Rightarrow> rtext \<Rightarrow> int option \<Rightarrow> rtext option \<Rightarrow> nat \<Rightarrow> json list list option" where
  "queue_walk cd reply agent limit token 0 = None"
| "queue_walk cd reply agent limit token (Suc fuel) =
     (case page_queue_reply cd reply agent limit token of
        Inl _ \<Rightarrow> None
      | Inr page \<Rightarrow>
          (case get_str page ''nextToken'' of
             None \<Rightarrow> Some [queue_of page]
           | Some t \<Rightarrow> map_option (Cons (queue_of page)) (queue_walk cd reply agent limit (Some t) fuel)))"

definition queue_codec_ok :: "codec \<Rightarrow> rtext \<Rightarrow> bool" where
  "queue_codec_ok cd agent \<longleftrightarrow>
     (\<forall>n \<le> usize_max. from_str cd (to_text cd (queue_cursor agent n)) = Some (queue_cursor agent n))"

lemma page_queue_at:
  assumes "queue_start cd agent token = Inr start" and "obj_wf obj" and es: "queue_of (JObj obj) = es"
    and "start \<le> length es" and "length es \<le> usize_max"
    and lim: "lim = clamp_page_limit limit AGENT_QUEUE_DEFAULT_LIMIT AGENT_QUEUE_MAX_LIMIT" "0 < lim"
  shows "\<exists>page stop. page_queue_reply cd (JObj obj) agent limit token = Inr page \<and>
    start \<le> stop \<and> stop \<le> length es \<and> (start < length es \<longrightarrow> start < stop) \<and>
    queue_of page = rows_between start stop es \<and> length (queue_of page) \<le> lim \<and>
    get_str page ''nextToken'' =
      (if stop < length es then Some (to_text cd (queue_cursor agent stop)) else None)"
proof -
  define w where "w = take lim (drop start es)"
  define kept where "kept = fit_rows_to_budget cd w AGENT_QUEUE_PAGE_BUDGET_BYTES"
  have kept: "kept \<le> length w" "w \<noteq> [] \<Longrightarrow> 0 < kept"
    unfolding kept_def using fit_rows_bounds [where cd = cd and rows = w] by simp_all
  have stop: "start + kept \<le> length es" using kept(1) assms(4) by (auto simp: w_def)
  then have sat: "sat_add start kept = start + kept" using assms(5) by (simp add: sat_add_def)
  have es': "(case map_of obj ''queue'' of Some (JArr es) \<Rightarrow> es | _ \<Rightarrow> []) = es" using es by simp
  obtain rest where page: "page_queue_reply cd (JObj obj) agent limit token =
      Inr (JObj (obj_insert ''nextToken''
        (if start + kept < length es then JStr (to_text cd (queue_cursor agent (start + kept))) else JNull)
        (obj_insert ''queue'' (JArr (take kept w)) rest)))"
    unfolding page_queue_reply_def Let_def assms(1) sum.case json.case es' lim(1) [symmetric]
      w_def [symmetric] kept_def [symmetric] sat by blast
  have rows: "take kept w = rows_between start (start + kept) es"
    using kept(1) by (auto simp: rows_between_def w_def min_absorb1)
  have "length (rows_between start (start + kept) es) \<le> lim" unfolding rows [symmetric] by (simp add: w_def)
  moreover have "start < length es \<Longrightarrow> start < start + kept" using kept(2) lim(2) by (auto simp: w_def)
  ultimately show ?thesis
    using stop unfolding page
    by - (rule exI, rule exI [of _ "start + kept"], rule conjI [OF refl], auto simp: get_str_def rows)
qed

text \<open>
  C26. Paging an agent's queue serves every entry once, in order. From the first page, following the
  tokens ends within one call more than the queue has entries, the pages put together are the queue,
  and no page is longer than the clamped limit. (The queue cursor survives printing and parsing.)
\<close>

theorem queue_walk_complete:
  assumes "queue_codec_ok cd agent" and "obj_wf obj" and "length (queue_of (JObj obj)) \<le> usize_max"
  shows "\<exists>pages. queue_walk cd (JObj obj) agent limit None (length (queue_of (JObj obj)) + 1) = Some pages \<and>
    concat pages = queue_of (JObj obj) \<and>
    (\<forall>p \<in> set pages. length p \<le> clamp_page_limit limit AGENT_QUEUE_DEFAULT_LIMIT AGENT_QUEUE_MAX_LIMIT)"
proof -
  define es where "es = queue_of (JObj obj)"
  define lim where "lim = clamp_page_limit limit AGENT_QUEUE_DEFAULT_LIMIT AGENT_QUEUE_MAX_LIMIT"
  have lim: "0 < lim"
    by (auto simp: lim_def clamp_page_limit_def AGENT_QUEUE_DEFAULT_LIMIT_def AGENT_QUEUE_MAX_LIMIT_def
        split: option.splits)
  have len: "length es \<le> usize_max" using assms(3) by (simp add: es_def)
  have "\<exists>pages. queue_walk cd (JObj obj) agent limit token fuel = Some pages \<and> concat pages = drop start es \<and>
      (\<forall>p \<in> set pages. length p \<le> lim)"
    if "queue_start cd agent token = Inr start" "start \<le> length es" "length es - start < fuel" for token start fuel
    using that
  proof (induction fuel arbitrary: token start)
    case 0
    then show ?case by simp
  next
    case (Suc fuel)
    obtain page stop where page: "page_queue_reply cd (JObj obj) agent limit token = Inr page"
      and stop: "start \<le> stop" "stop \<le> length es" "start < length es \<longrightarrow> start < stop"
      and q: "queue_of page = rows_between start stop es" "length (queue_of page) \<le> lim"
      and t: "get_str page ''nextToken'' =
        (if stop < length es then Some (to_text cd (queue_cursor agent stop)) else None)"
      using page_queue_at [OF Suc.prems(1) assms(2) es_def [symmetric] Suc.prems(2) len lim_def lim] by blast
    have split: "rows_between start stop es @ drop stop es = drop start es"
      using stop(1) by (simp add: rows_between_def)
        (metis append_take_drop_id drop_drop le_add_diff_inverse2)
    show ?case
    proof (cases "stop < length es")
      case True
      have "queue_start cd agent (Some (to_text cd (queue_cursor agent stop))) = Inr stop"
        using assms(1) True len by (simp add: queue_start_def queue_codec_ok_def)
          (simp add: queue_cursor_def cursor_u64_def)
      moreover have "length es - stop < fuel" using Suc.prems(3) stop True by auto
      ultimately obtain pages where "queue_walk cd (JObj obj) agent limit
          (Some (to_text cd (queue_cursor agent stop))) fuel = Some pages"
        "concat pages = drop stop es" "\<forall>p \<in> set pages. length p \<le> lim"
        using Suc.IH stop(2) by blast
      with True page q t split show ?thesis by simp
    next
      case False
      with page q t split stop show ?thesis by simp
    qed
  qed
  from this [of None 0 "length es + 1"] show ?thesis
    by (simp add: queue_start_def es_def lim_def)
qed

definition queue_codec :: codec where
  "queue_codec = plain_codec\<lparr>to_text := (\<lambda>v. case cursor_u64 v ''offset'' of None \<Rightarrow> [] | Some n \<Rightarrow> dec_string n),
     from_str := (\<lambda>t. map_option (queue_cursor [97]) (parse_u64 t))\<rparr>"

theorem queue_walk_complete_witness:
  "\<exists>pages. queue_walk queue_codec (JObj [(''queue'', JArr [JNull, JBool True, JNull])]) [97] (Some 2) None
      (length [JNull, JBool True, JNull] + 1) = Some pages \<and> concat pages = [JNull, JBool True, JNull]"
proof -
  have "queue_codec_ok queue_codec [97]"
    by (simp add: queue_codec_ok_def queue_codec_def) (simp add: queue_cursor_def cursor_u64_def)
  moreover have "obj_wf [(''queue'', JArr [JNull, JBool True, JNull])]" by (simp add: obj_wf_def)
  ultimately show ?thesis
    using queue_walk_complete [of queue_codec "[97]" "[(''queue'', JArr [JNull, JBool True, JNull])]" "Some 2"]
    by (simp add: u64_max_def del: queue_walk.simps) blast
qed

section \<open>Keyset tokens\<close>



end
