(* ===== verification/NoteMerge.thy ===== *)
theory NoteMerge
  imports Pagination
begin

text \<open>
  The three-way character merge of \<open>crates/intent-services/src/note_merge.rs\<close> and the repair of task
  markers a conflicting merge left doubled. The character diff of the \<open>similar\<close> crate is a parameter;
  what the merge relies on is that it returns a script of the two texts (\<open>valid_ops\<close>). A slice out of
  range would panic: \<open>None\<close>.
\<close>

section \<open>Merging\<close>


















section \<open>Repairing task markers\<close>


definition is_marker_char :: "uchar \<Rightarrow> bool" where
  "is_marker_char c \<longleftrightarrow> c \<in> {32, 120, 88, 47}"

text \<open>The scan for the closing bracket: the marker characters and what follows the bracket.\<close>

fun scan_markers :: "rtext \<Rightarrow> (rtext \<times> rtext) option" where
  "scan_markers [] = None"
| "scan_markers (c # t) =
     (if c = 93 then Some ([], t)
      else if is_marker_char c then map_option (\<lambda>(ms, r). (c # ms, r)) (scan_markers t)
      else None)"





section \<open>Diff scripts\<close>













lemma rows_between_same [simp]: "rows_between i i xs = []"
  by (simp add: rows_between_def)

lemma rows_between_all: "j \<le> length xs \<Longrightarrow> rows_between j (length xs) xs = drop j xs"
  by (simp add: rows_between_def)


section \<open>Clusters\<close>





section \<open>What a merge is\<close>

text \<open>
  A merge is explained by segments that cut all four texts at once: a piece of the base with what each
  side made of it and what the merge renders. \<open>Keep\<close> was touched by nobody, \<open>Ours\<close> by the current side,
  \<open>Theirs\<close> by the incoming side, \<open>Both\<close> by both.
\<close>

datatype seg_kind = Keep | Ours | Theirs | Both

record segment =
  sg_kind :: seg_kind
  sg_base :: rtext
  sg_current :: rtext
  sg_incoming :: rtext

definition seg_ok :: "segment \<Rightarrow> bool" where
  "seg_ok g \<longleftrightarrow>
     (case sg_kind g of
        Keep \<Rightarrow> sg_current g = sg_base g \<and> sg_incoming g = sg_base g
      | Ours \<Rightarrow> sg_incoming g = sg_base g
      | Theirs \<Rightarrow> sg_current g = sg_base g
      | Both \<Rightarrow> True)"

text \<open>
  The rendering: an untouched or one-sided segment takes the side that changed it; a segment both
  sides changed the same way is taken once; otherwise both variants follow each other, current first.
\<close>

definition sg_out :: "segment \<Rightarrow> rtext" where
  "sg_out g =
     (case sg_kind g of
        Keep \<Rightarrow> sg_base g
      | Ours \<Rightarrow> sg_current g
      | Theirs \<Rightarrow> sg_incoming g
      | Both \<Rightarrow> if sg_current g = sg_incoming g then sg_current g else sg_current g @ sg_incoming g)"

definition sg_conflict :: "segment \<Rightarrow> bool" where
  "sg_conflict g \<longleftrightarrow> sg_kind g = Both \<and> sg_current g \<noteq> sg_incoming g \<and> sg_base g \<noteq> []"

definition texts :: "(segment \<Rightarrow> rtext) \<Rightarrow> segment list \<Rightarrow> rtext" where
  "texts f gs = concat (map f gs)"


lemma texts_simps [simp]: "texts f [] = []" "texts f (g # gs) = f g @ texts f gs"
  by (simp_all add: texts_def)

text \<open>One pass of the outer loop renders the gap before the cluster and the cluster.\<close>

definition keep_seg :: "rtext \<Rightarrow> segment" where
  "keep_seg t = \<lparr>sg_kind = Keep, sg_base = t, sg_current = t, sg_incoming = t\<rparr>"




lemma keep_seg_simps [simp]:
  "seg_ok (keep_seg t)" "sg_base (keep_seg t) = t" "sg_current (keep_seg t) = t"
  "sg_incoming (keep_seg t) = t" "sg_out (keep_seg t) = t" "\<not> sg_conflict (keep_seg t)"
  by (simp_all add: seg_ok_def keep_seg_def sg_out_def sg_conflict_def)













section \<open>Repaired markers\<close>





lemma scan_markers_close: "scan_markers (93 # rest) = Some ([], rest)"
  by simp









end
