(* ===== verification/Observation.thy ===== *)
theory Observation
  imports Transition
begin

text \<open>
  Eligibility of cached observations (\<open>intent-services/src/observation_policy.rs\<close>). Shared cells are
  explicit: a heap holds the atomic flags and the mutexes around denial tokens by address, and an
  \<open>Arc<()>\<close> token is the number drawn when it was allocated, so pointer equality of two live tokens is
  equality of their numbers. The lemmas follow one slot through arbitrary interleavings of reads,
  denials and retirements and say exactly when a retained read may still be served.
\<close>

section \<open>Heap, scopes and tickets\<close>

record heap =
  hp_next :: nat
  hp_flag :: "nat \<Rightarrow> bool"
  hp_cell :: "nat \<Rightarrow> nat"

record ('s, 'r) ObservationKey =
  ok_scope :: 's
  ok_resource :: 'r

record 's ObservationScope =
  sc_key :: 's
  sc_active :: nat
  sc_denial :: nat

record ScopeTicket =
  st_active :: nat
  st_denial :: nat

datatype Ineligible = RetiredScope | DifferentSlot | DeniedSinceRequest | OlderObservation
  | SequenceExhausted | HistoryExpired

text \<open>One allocation for the flag, one for the mutex, one for the first token.\<close>

definition scope_new :: "heap \<Rightarrow> 's \<Rightarrow> heap \<times> 's ObservationScope" where
  "scope_new h k =
     (let n = hp_next h in
      (h\<lparr>hp_next := n + 3, hp_flag := (hp_flag h)(n := True), hp_cell := (hp_cell h)(n + 1 := n + 2)\<rparr>,
       \<lparr>sc_key = k, sc_active = n, sc_denial = n + 1\<rparr>))"

definition retire :: "heap \<Rightarrow> 's ObservationScope \<Rightarrow> heap" where
  "retire h sc = h\<lparr>hp_flag := (hp_flag h)(sc_active sc := False)\<rparr>"

definition is_active :: "heap \<Rightarrow> 's ObservationScope \<Rightarrow> bool" where
  "is_active h sc = hp_flag h (sc_active sc)"

definition validate_owner :: "heap \<Rightarrow> 's ObservationScope \<Rightarrow> ScopeTicket \<Rightarrow> (Ineligible, unit) res" where
  "validate_owner h sc t =
     (if \<not> is_active h sc then Inl RetiredScope
      else if sc_active sc \<noteq> st_active t then Inl DifferentSlot
      else Inr ())"

definition scope_begin :: "heap \<Rightarrow> 's ObservationScope \<Rightarrow> (Ineligible, ScopeTicket) res" where
  "scope_begin h sc =
     (let t = \<lparr>st_active = sc_active sc, st_denial = hp_cell h (sc_denial sc)\<rparr> in
      case validate_owner h sc t of Inl e \<Rightarrow> Inl e | Inr _ \<Rightarrow> Inr t)"

definition scope_validate :: "heap \<Rightarrow> 's ObservationScope \<Rightarrow> ScopeTicket \<Rightarrow> (Ineligible, unit) res" where
  "scope_validate h sc t =
     (case validate_owner h sc t of
        Inl e \<Rightarrow> Inl e
      | Inr _ \<Rightarrow> if hp_cell h (sc_denial sc) \<noteq> st_denial t then Inl DeniedSinceRequest else Inr ())"

definition scope_deny :: "heap \<Rightarrow> 's ObservationScope \<Rightarrow> heap" where
  "scope_deny h sc =
     h\<lparr>hp_next := hp_next h + 1, hp_cell := (hp_cell h)(sc_denial sc := hp_next h)\<rparr>"

section \<open>Slots\<close>

datatype Coverage = Detail | Summary

fun index :: "Coverage \<Rightarrow> nat" where
  "index Detail = 0"
| "index Summary = 1"

record ReadTicket =
  rt_slot :: nat
  rt_denial :: nat
  rt_scope_denial :: nat
  rt_sequence :: nat
  rt_coverage :: Coverage

datatype EligibleRead = EligibleRead (er_ticket: ReadTicket)

record ('s, 'r) ObservationSlot =
  sl_key :: "('s, 'r) ObservationKey"
  sl_active :: nat
  sl_scope_denial :: nat
  sl_slot :: nat
  sl_denial :: nat
  sl_sequence :: nat
  sl_accepted :: "nat option list"
  sl_observed :: "nat option list"

definition slot_new :: "heap \<Rightarrow> 's ObservationScope \<Rightarrow> 'r \<Rightarrow> heap \<times> ('s, 'r) ObservationSlot" where
  "slot_new h sc resource =
     (let n = hp_next h in
      (h\<lparr>hp_next := n + 2\<rparr>,
       \<lparr>sl_key = \<lparr>ok_scope = sc_key sc, ok_resource = resource\<rparr>, sl_active = sc_active sc,
        sl_scope_denial = sc_denial sc, sl_slot = n, sl_denial = n + 1, sl_sequence = 0,
        sl_accepted = [None, None], sl_observed = [None, None]\<rparr>))"

definition ensure_active :: "heap \<Rightarrow> ('s, 'r) ObservationSlot \<Rightarrow> (Ineligible, unit) res" where
  "ensure_active h sl = (if hp_flag h (sl_active sl) then Inr () else Inl RetiredScope)"

definition ensure_slot :: "heap \<Rightarrow> ('s, 'r) ObservationSlot \<Rightarrow> ReadTicket \<Rightarrow> (Ineligible, unit) res" where
  "ensure_slot h sl t =
     (case ensure_active h sl of
        Inl e \<Rightarrow> Inl e
      | Inr _ \<Rightarrow> if sl_slot sl = rt_slot t then Inr () else Inl DifferentSlot)"

definition slot_begin ::
    "heap \<Rightarrow> ('s, 'r) ObservationSlot \<Rightarrow> Coverage \<Rightarrow> ('s, 'r) ObservationSlot \<times> (Ineligible, ReadTicket) res" where
  "slot_begin h sl cov =
     (case ensure_active h sl of
        Inl e \<Rightarrow> (sl, Inl e)
      | Inr _ \<Rightarrow>
          (case checked_add_u64 (sl_sequence sl) 1 of
             None \<Rightarrow> (sl, Inl SequenceExhausted)
           | Some n \<Rightarrow>
               (sl\<lparr>sl_sequence := n\<rparr>,
                Inr \<lparr>rt_slot = sl_slot sl, rt_denial = sl_denial sl,
                     rt_scope_denial = hp_cell h (sl_scope_denial sl), rt_sequence = n,
                     rt_coverage = cov\<rparr>)))"

definition slot_validate :: "heap \<Rightarrow> ('s, 'r) ObservationSlot \<Rightarrow> ReadTicket \<Rightarrow> (Ineligible, unit) res" where
  "slot_validate h sl t =
     (case ensure_slot h sl t of
        Inl e \<Rightarrow> Inl e
      | Inr _ \<Rightarrow>
          if sl_denial sl \<noteq> rt_denial t \<or> hp_cell h (sl_scope_denial sl) \<noteq> rt_scope_denial t
          then Inl DeniedSinceRequest
          else (case sl_observed sl ! index (rt_coverage t) of
                  Some sequence \<Rightarrow> if sequence > rt_sequence t then Inl OlderObservation else Inr ()
                | None \<Rightarrow> Inr ()))"

definition observe ::
    "heap \<Rightarrow> ('s, 'r) ObservationSlot \<Rightarrow> ReadTicket \<Rightarrow> ('s, 'r) ObservationSlot \<times> (Ineligible, unit) res" where
  "observe h sl t =
     (case slot_validate h sl t of
        Inl e \<Rightarrow> (sl, Inl e)
      | Inr _ \<Rightarrow>
          (sl\<lparr>sl_observed := (sl_observed sl)[index (rt_coverage t) := Some (rt_sequence t)]\<rparr>, Inr ()))"

definition success ::
    "heap \<Rightarrow> ('s, 'r) ObservationSlot \<Rightarrow> ReadTicket \<Rightarrow> ('s, 'r) ObservationSlot \<times> (Ineligible, EligibleRead) res" where
  "success h sl t =
     (case observe h sl t of
        (sl', Inl e) \<Rightarrow> (sl', Inl e)
      | (sl', Inr _) \<Rightarrow>
          (sl'\<lparr>sl_accepted := (sl_accepted sl')[index (rt_coverage t) := Some (rt_sequence t)]\<rparr>,
           Inr (EligibleRead t)))"

definition slot_deny ::
    "heap \<Rightarrow> ('s, 'r) ObservationSlot \<Rightarrow> ReadTicket \<Rightarrow> heap \<times> ('s, 'r) ObservationSlot \<times> (Ineligible, unit) res" where
  "slot_deny h sl t =
     (case ensure_slot h sl t of
        Inl e \<Rightarrow> (h, sl, Inl e)
      | Inr _ \<Rightarrow>
          (h\<lparr>hp_next := hp_next h + 1\<rparr>,
           sl\<lparr>sl_denial := hp_next h, sl_accepted := [None, None], sl_observed := [None, None]\<rparr>,
           Inr ()))"

definition failure ::
    "heap \<Rightarrow> ('s, 'r) ObservationSlot \<Rightarrow> ReadTicket \<Rightarrow> 'e \<Rightarrow> ('e \<Rightarrow> bool) \<Rightarrow>
     heap \<times> ('s, 'r) ObservationSlot \<times> (Ineligible, 'e) res" where
  "failure h sl t error denies_primary_access =
     (case ensure_slot h sl t of
        Inl e \<Rightarrow> (h, sl, Inl e)
      | Inr _ \<Rightarrow>
          if denies_primary_access error
          then (case slot_deny h sl t of
                  (h', sl', Inl e) \<Rightarrow> (h', sl', Inl e)
                | (h', sl', Inr _) \<Rightarrow> (h', sl', Inr error))
          else (h, sl, Inr error))"

definition belongs_to :: "heap \<Rightarrow> ('s, 'r) ObservationSlot \<Rightarrow> 's ObservationScope \<Rightarrow> bool" where
  "belongs_to h sl sc \<longleftrightarrow> sl_active sl = sc_active sc \<and> is_ok (ensure_active h sl)"

definition can_serve :: "heap \<Rightarrow> ('s, 'r) ObservationSlot \<Rightarrow> EligibleRead \<Rightarrow> 's ObservationScope \<Rightarrow> bool" where
  "can_serve h sl read sc \<longleftrightarrow>
     (let t = er_ticket read in
      belongs_to h sl sc \<and> is_ok (ensure_slot h sl t) \<and> sl_denial sl = rt_denial t \<and>
      hp_cell h (sl_scope_denial sl) = rt_scope_denial t \<and>
      sl_accepted sl ! index (rt_coverage t) = Some (rt_sequence t))"

section \<open>Interleavings\<close>

text \<open>
  One slot and the heap it shares with every scope. The operations are those of the slot, of any
  scope, and the creation of further scopes and slots; a failed read carries its classification.
\<close>

datatype ('s, 'r) obs_op =
    ONewScope 's
  | ONewSlot "'s ObservationScope" 'r
  | ORetire "'s ObservationScope"
  | OScopeDeny "'s ObservationScope"
  | OBegin Coverage
  | OObserve ReadTicket
  | OSuccess ReadTicket
  | ODeny ReadTicket
  | OFailure ReadTicket bool

type_synonym ('s, 'r) obs_state = "heap \<times> ('s, 'r) ObservationSlot"

fun obs_step :: "('s, 'r) obs_state \<Rightarrow> ('s, 'r) obs_op \<Rightarrow> ('s, 'r) obs_state" where
  "obs_step (h, sl) (ONewScope k) = (fst (scope_new h k), sl)"
| "obs_step (h, sl) (ONewSlot sc r) = (fst (slot_new h sc r), sl)"
| "obs_step (h, sl) (ORetire sc) = (retire h sc, sl)"
| "obs_step (h, sl) (OScopeDeny sc) = (scope_deny h sc, sl)"
| "obs_step (h, sl) (OBegin cov) = (h, fst (slot_begin h sl cov))"
| "obs_step (h, sl) (OObserve t) = (h, fst (observe h sl t))"
| "obs_step (h, sl) (OSuccess t) = (h, fst (success h sl t))"
| "obs_step (h, sl) (ODeny t) = (case slot_deny h sl t of (h', sl', _) \<Rightarrow> (h', sl'))"
| "obs_step (h, sl) (OFailure t d) = (case failure h sl t d id of (h', sl', _) \<Rightarrow> (h', sl'))"

text \<open>Every address and token in use was allocated, and both coverage arrays have two entries.\<close>

fun obs_inv :: "('s, 'r) obs_state \<Rightarrow> bool" where
  "obs_inv (h, sl) \<longleftrightarrow>
     sl_active sl < hp_next h \<and> sl_scope_denial sl < hp_next h \<and> sl_slot sl < hp_next h \<and>
     sl_denial sl < hp_next h \<and> hp_cell h (sl_scope_denial sl) < hp_next h \<and>
     length (sl_accepted sl) = 2 \<and> length (sl_observed sl) = 2 \<and> sl_sequence sl \<le> u64_max"

text \<open>The steps that move a slot or a scope past a read, at the state they act on.\<close>

fun revokes :: "('s, 'r) obs_state \<Rightarrow> ('s, 'r) obs_op \<Rightarrow> bool" where
  "revokes (h, sl) (ORetire sc) \<longleftrightarrow> sc_active sc = sl_active sl"
| "revokes (h, sl) (OScopeDeny sc) \<longleftrightarrow> sc_denial sc = sl_scope_denial sl"
| "revokes (h, sl) (ODeny t) \<longleftrightarrow> is_ok (ensure_slot h sl t)"
| "revokes (h, sl) (OFailure t d) \<longleftrightarrow> is_ok (ensure_slot h sl t) \<and> d"
| "revokes _ _ \<longleftrightarrow> False"

fun supersedes :: "ReadTicket \<Rightarrow> ('s, 'r) obs_state \<Rightarrow> ('s, 'r) obs_op \<Rightarrow> bool" where
  "supersedes t (h, sl) (OSuccess t') \<longleftrightarrow>
     is_ok (snd (success h sl t')) \<and> rt_coverage t' = rt_coverage t \<and> rt_sequence t' \<noteq> rt_sequence t"
| "supersedes t _ _ \<longleftrightarrow> False"

section \<open>Invariants of a run\<close>

lemmas obs_defs = scope_new_def slot_new_def retire_def scope_deny_def slot_begin_def observe_def success_def
  slot_deny_def failure_def slot_validate_def ensure_slot_def ensure_active_def Let_def

lemma index_less [simp]: "index c < 2"
  by (cases c) auto

lemma index_inj [simp]: "index c = index d \<longleftrightarrow> c = d"
  by (cases c; cases d) auto

lemma obs_step_inv: "obs_inv s \<Longrightarrow> obs_inv (obs_step s x)"
  by (cases s; cases x)
    (auto simp: obs_defs checked_add_u64_one split: sum.splits option.splits if_splits )

fun obs_below :: "('s, 'r) obs_state \<Rightarrow> ('s, 'r) obs_state \<Rightarrow> bool" where
  "obs_below (h, sl) (h', sl') \<longleftrightarrow>
     hp_next h \<le> hp_next h' \<and> sl_sequence sl \<le> sl_sequence sl' \<and> sl_active sl' = sl_active sl \<and>
     sl_scope_denial sl' = sl_scope_denial sl \<and> sl_slot sl' = sl_slot sl \<and> sl_key sl' = sl_key sl \<and>
     (hp_flag h' (sl_active sl) \<longrightarrow> hp_flag h (sl_active sl))"

lemma obs_step_below: "obs_inv s \<Longrightarrow> obs_below s (obs_step s x)"
  by (cases s; cases x)
    (auto simp: obs_defs checked_add_u64_one split: sum.splits option.splits if_splits )

interpretation obs: step_monotone obs_step obs_inv obs_below
proof
  show "obs_below s s" for s :: "('s, 'r) obs_state" by (cases s) simp
  show "obs_below s t \<Longrightarrow> obs_below t u \<Longrightarrow> obs_below s u" for s t u :: "('s, 'r) obs_state"
    by (cases s; cases t; cases u) auto
qed (simp_all add: obs_step_inv obs_step_below)

text \<open>
  Tickets have private fields: those handed to a slot that name it were drawn from it, so their
  sequence is not ahead of its counter. A reachable state is a fresh slot of an allocated scope
  followed by steps whose tickets were issued.
\<close>

fun ticket_of :: "('s, 'r) obs_op \<Rightarrow> ReadTicket option" where
  "ticket_of (OObserve t) = Some t"
| "ticket_of (OSuccess t) = Some t"
| "ticket_of (ODeny t) = Some t"
| "ticket_of (OFailure t _) = Some t"
| "ticket_of _ = None"

fun issued :: "('s, 'r) obs_state \<Rightarrow> ('s, 'r) obs_op \<Rightarrow> bool" where
  "issued (h, sl) x \<longleftrightarrow>
     (case ticket_of x of
        Some t \<Rightarrow> rt_slot t = sl_slot sl \<longrightarrow> rt_sequence t \<le> sl_sequence sl
      | None \<Rightarrow> True)"

inductive reachable :: "('s, 'r) obs_state \<Rightarrow> bool" where
  fresh: "sc_active sc < hp_next h \<Longrightarrow> sc_denial sc < hp_next h \<Longrightarrow> hp_cell h (sc_denial sc) < hp_next h \<Longrightarrow>
    reachable (slot_new h sc r)"
| step: "reachable s \<Longrightarrow> issued s x \<Longrightarrow> reachable (obs_step s x)"

fun obs_ordered :: "('s, 'r) obs_state \<Rightarrow> bool" where
  "obs_ordered (h, sl) \<longleftrightarrow>
     (\<forall>c m. sl_observed sl ! index c = Some m \<longrightarrow> m \<le> sl_sequence sl)"

lemma index_cases: "[None, None] ! index c = None"
  by (cases c) auto

lemma obs_step_ordered:
  "obs_inv s \<Longrightarrow> obs_ordered s \<Longrightarrow> issued s x \<Longrightarrow> obs_ordered (obs_step s x)"
  by (cases s; cases x)
    (auto simp: obs_defs checked_add_u64_one index_cases nth_list_update split: sum.splits option.splits if_splits
       intro: le_SucI)

lemma reachable_inv: "reachable s \<Longrightarrow> obs_inv s \<and> obs_ordered s"
proof (induction rule: reachable.induct)
  case (fresh sc h r)
  then show ?case by (simp add: slot_new_def Let_def index_cases)
next
  case (step s x)
  then show ?case by (simp add: obs_step_inv obs_step_ordered)
qed

section \<open>When a read may be served\<close>

fun same_epoch :: "ReadTicket \<Rightarrow> ('s, 'r) obs_state \<Rightarrow> bool" where
  "same_epoch t (h, sl) \<longleftrightarrow>
     hp_flag h (sl_active sl) \<and> sl_slot sl = rt_slot t \<and> sl_denial sl = rt_denial t \<and>
     hp_cell h (sl_scope_denial sl) = rt_scope_denial t"

fun tokens_known :: "ReadTicket \<Rightarrow> ('s, 'r) obs_state \<Rightarrow> bool" where
  "tokens_known t (h, sl) \<longleftrightarrow> rt_denial t < hp_next h \<and> rt_scope_denial t < hp_next h"

text \<open>The newest observation of the ticket's coverage.\<close>

fun newest :: "ReadTicket \<Rightarrow> ('s, 'r) obs_state \<Rightarrow> nat option" where
  "newest t (h, sl) = sl_observed sl ! index (rt_coverage t)"

fun admitted :: "ReadTicket \<Rightarrow> ('s, 'r) obs_state \<Rightarrow> nat option" where
  "admitted t (h, sl) = sl_accepted sl ! index (rt_coverage t)"

lemma epoch_step:
  assumes "obs_inv s" "tokens_known t s"
  shows "tokens_known t (obs_step s x)"
    and "same_epoch t (obs_step s x) \<longleftrightarrow> same_epoch t s \<and> \<not> revokes s x"
  using assms by (cases s; cases x;
    force simp: obs_defs checked_add_u64_one split: sum.splits option.splits if_splits)+








text \<open>A scope, a slot of it, one detail request and a denial of the scope before the response.\<close>

definition demo_heap :: heap where
  "demo_heap = fst (scope_new \<lparr>hp_next = 0, hp_flag = (\<lambda>_. False), hp_cell = (\<lambda>_. 0)\<rparr> (7 :: nat))"

definition demo_scope :: "nat ObservationScope" where
  "demo_scope = \<lparr>sc_key = 7, sc_active = 0, sc_denial = 1\<rparr>"

definition demo_slot :: "(nat, nat) obs_state" where
  "demo_slot = slot_new demo_heap demo_scope 9"

definition demo_ticket :: ReadTicket where
  "demo_ticket = \<lparr>rt_slot = 3, rt_denial = 4, rt_scope_denial = 2, rt_sequence = 1, rt_coverage = Detail\<rparr>"

definition demo_pending :: "(nat, nat) obs_state" where
  "demo_pending = obs_step demo_slot (OBegin Detail)"

lemmas demo_defs = demo_heap_def demo_scope_def demo_slot_def demo_ticket_def demo_pending_def

lemma demo_reachable: "reachable demo_slot" "reachable demo_pending"
proof -
  show r: "reachable demo_slot"
    unfolding demo_slot_def by (rule reachable.fresh) (simp_all add: demo_defs scope_new_def)
  show "reachable demo_pending"
    unfolding demo_pending_def using r by (rule reachable.step) (simp add: demo_slot_def slot_new_def Let_def)
qed



section \<open>Retained reads\<close>

text \<open>Once accepted, a read is the admitted one until a later success replaces it.\<close>

definition replaced_or_current :: "ReadTicket \<Rightarrow> ('s, 'r) obs_state \<Rightarrow> bool" where
  "replaced_or_current t s \<longleftrightarrow>
     (same_epoch t s \<longrightarrow> (\<exists>m \<ge> rt_sequence t. newest t s = Some m \<and>
        (admitted t s = Some (rt_sequence t) \<or> rt_sequence t < m)))"

lemma admitted_step:
  assumes "obs_inv s" "tokens_known t s" "replaced_or_current t s"
  shows "replaced_or_current t (obs_step s x)"
    and "same_epoch t (obs_step s x) \<and> admitted t (obs_step s x) = Some (rt_sequence t) \<longleftrightarrow>
      (same_epoch t s \<and> admitted t s = Some (rt_sequence t)) \<and> \<not> (revokes s x \<or> supersedes t s x)"
proof -
  have e: "same_epoch t (obs_step s x) \<longleftrightarrow> same_epoch t s \<and> \<not> revokes s x"
    using assms by (simp add: epoch_step)
  have "same_epoch t s \<Longrightarrow> \<not> revokes s x \<Longrightarrow> replaced_or_current t (obs_step s x) \<and>
      (admitted t (obs_step s x) = Some (rt_sequence t) \<longleftrightarrow>
       admitted t s = Some (rt_sequence t) \<and> \<not> supersedes t s x)"
    using assms by (cases s; cases x)
      (auto simp: obs_defs replaced_or_current_def checked_add_u64_one nth_list_update
        split: sum.splits option.splits if_splits)
  with e show "replaced_or_current t (obs_step s x)"
    and "same_epoch t (obs_step s x) \<and> admitted t (obs_step s x) = Some (rt_sequence t) \<longleftrightarrow>
      (same_epoch t s \<and> admitted t s = Some (rt_sequence t)) \<and> \<not> (revokes s x \<or> supersedes t s x)"
    unfolding replaced_or_current_def by blast+
qed

interpretation served: step_invariant obs_step
  "\<lambda>s. obs_inv s \<and> tokens_known t s \<and> replaced_or_current t s" for t
  by unfold_locales (simp add: obs_step_inv epoch_step admitted_step)

lemma admitted_until:
  "obs_inv s \<and> tokens_known t s \<and> replaced_or_current t s \<Longrightarrow>
    same_epoch t (obs_step s x) \<and> admitted t (obs_step s x) = Some (rt_sequence t) \<longleftrightarrow>
      (same_epoch t s \<and> admitted t s = Some (rt_sequence t)) \<and> \<not> (revokes s x \<or> supersedes t s x)"
  by (rule admitted_step(2)) simp_all

lemma success_admits:
  assumes "obs_inv (h, sl)" "success h sl t = (sl', Inr r)"
  shows "r = EligibleRead t" "obs_inv (h, sl')" "tokens_known t (h, sl')" "same_epoch t (h, sl')"
    "admitted t (h, sl') = Some (rt_sequence t)" "replaced_or_current t (h, sl')"
  using assms obs_step_inv [OF assms(1), of "OSuccess t"]
  by (auto simp: obs_defs replaced_or_current_def split: sum.splits option.splits if_splits)

lemma can_serve_iff:
  "can_serve h sl (EligibleRead t) sc \<longleftrightarrow>
     sl_active sl = sc_active sc \<and> same_epoch t (h, sl) \<and> admitted t (h, sl) = Some (rt_sequence t)"
  by (auto simp: can_serve_def belongs_to_def obs_defs split: if_splits)

text \<open>
  C36. A retained read may be served exactly to callers of the slot's own scope and exactly until the
  scope is retired, the resource or the scope is denied, or a different read of the same coverage is
  accepted. In particular no denial is ever undone for it by later successful reads.
\<close>

theorem retained_read_servable_iff:
  assumes "reachable (h, sl)" "success h sl t = (sl', Inr r)" "foldl obs_step (h, sl') ops = (h2, sl2)"
  shows "can_serve h2 sl2 r sc \<longleftrightarrow> sl_active sl = sc_active sc \<and>
    \<not> sometime obs_step (\<lambda>s x. revokes s x \<or> supersedes t s x) (h, sl') ops"
proof -
  note a = success_admits [OF reachable_inv [OF assms(1), THEN conjunct1] assms(2)]
  have "same_epoch t (h2, sl2) \<and> admitted t (h2, sl2) = Some (rt_sequence t) \<longleftrightarrow>
      \<not> sometime obs_step (\<lambda>s x. revokes s x \<or> supersedes t s x) (h, sl') ops"
    using served.run_until [of t "\<lambda>s. same_epoch t s \<and> admitted t s = Some (rt_sequence t)"
        "\<lambda>s x. revokes s x \<or> supersedes t s x", OF admitted_until, of "(h, sl')" ops] a assms(3)
    by simp
  moreover have "sl_active sl2 = sl_active sl"
    using obs.run_below [of "(h, sl)" "OSuccess t # ops"] reachable_inv [OF assms(1)] assms(2,3) by simp
  ultimately show ?thesis by (auto simp: a(1) can_serve_iff)
qed

theorem retained_read_servable_iff_witness:
  "can_serve (fst demo_pending) (fst (success (fst demo_pending) (snd demo_pending) demo_ticket))
     (EligibleRead demo_ticket) demo_scope"
proof -
  have a: "success (fst demo_pending) (snd demo_pending) demo_ticket =
      (fst (success (fst demo_pending) (snd demo_pending) demo_ticket), Inr (EligibleRead demo_ticket))"
    and s: "sl_active (snd demo_pending) = sc_active demo_scope"
    by (simp_all add: demo_defs obs_defs checked_add_u64_def u64_max_def)
  from retained_read_servable_iff [of "fst demo_pending" "snd demo_pending", OF _ a, of "[]"] demo_reachable(2) s
  show ?thesis by simp
qed

end
