(* ===== verification/CriticalPath.thy ===== *)
theory CriticalPath
  imports Prelude
begin

text \<open>
  The scheduling graph of the batch delegate (\<open>intent-services/src/agent_ops/batch.rs\<close>): the task
  snapshot, the reverse \<open>dependsOn\<close> graph with its indegrees, Kahn's worklist pass and the
  effort-weighted critical path. A hash map is the list of its entries in iteration order, with
  distinct keys; a lookup that the code unwraps is \<open>None\<close> when it fails. The lemmas show that the pass
  never panics and ends, that the priority of a task is its longest chain of dependents, and that no
  result depends on the iteration order of the maps.
\<close>

section \<open>Snapshots\<close>

datatype TaskStatus = NotStarted | Waiting | DiscussionNeeded | Blocked | InProgress | ReviewRequired
  | Complete | Cancelled

record BatchTaskSnap =
  status :: TaskStatus
  depends_on :: "rtext list"
  conflicts_with :: "rtext list"
  live_agent :: "(rtext \<times> rtext) option"
  effort_minutes :: "nat option"

type_synonym snaps = "(rtext \<times> BatchTaskSnap) list"

definition DEFAULT_EFFORT_MINUTES :: nat where
  "DEFAULT_EFFORT_MINUTES = 30"

definition is_workable :: "TaskStatus \<Rightarrow> bool" where
  "is_workable s \<longleftrightarrow> \<not> (s = Complete \<or> s = Cancelled)"

definition effort_of :: "BatchTaskSnap \<Rightarrow> nat" where
  "effort_of snap = (case effort_minutes snap of Some m \<Rightarrow> m | None \<Rightarrow> DEFAULT_EFFORT_MINUTES)"

section \<open>Dependents\<close>

definition push_edge :: "rtext \<Rightarrow> (rtext \<Rightarrow> rtext list) \<Rightarrow> rtext \<Rightarrow> rtext \<Rightarrow> rtext list" where
  "push_edge tid m dep = m(dep := m dep @ [tid])"

definition dependent_edges :: "snaps \<Rightarrow> rtext \<Rightarrow> rtext list" where
  "dependent_edges snaps =
     foldl (\<lambda>m (tid, snap).
        if \<not> is_workable (status snap) then m
        else foldl (push_edge tid) m (remdups (depends_on snap))) (\<lambda>_. []) snaps"

text \<open>The graph over workable tasks with its indegrees.\<close>

type_synonym graph = "(rtext \<Rightarrow> rtext list) \<times> (rtext \<times> nat) list"

definition update_entry :: "rtext \<Rightarrow> (nat \<Rightarrow> nat) \<Rightarrow> (rtext \<times> nat) list \<Rightarrow> (rtext \<times> nat) list" where
  "update_entry k f ind = map (\<lambda>(a, n). (a, if a = k then f n else n)) ind"

definition workable_ids :: "snaps \<Rightarrow> rtext list" where
  "workable_ids snaps = map fst (filter (\<lambda>(_, s). is_workable (status s)) snaps)"

fun add_deps :: "rtext list \<Rightarrow> rtext \<Rightarrow> rtext list \<Rightarrow> graph \<Rightarrow> graph option" where
  "add_deps w tid [] g = Some g"
| "add_deps w tid (dep # deps) (dm, ind) =
     (if dep \<in> set w
      then (case map_of ind tid of
              None \<Rightarrow> None
            | Some _ \<Rightarrow> add_deps w tid deps (push_edge tid dm dep, update_entry tid Suc ind))
      else add_deps w tid deps (dm, ind))"

fun build_graph :: "rtext list \<Rightarrow> snaps \<Rightarrow> graph \<Rightarrow> graph option" where
  "build_graph w [] g = Some g"
| "build_graph w ((tid, snap) # rest) g =
     (if tid \<notin> set w then build_graph w rest g
      else (case add_deps w tid (remdups (depends_on snap)) g of
              None \<Rightarrow> None
            | Some g' \<Rightarrow> build_graph w rest g'))"

section \<open>The worklist pass\<close>

text \<open>The queue is a stack: its top is the head of the list.\<close>

fun relax :: "rtext list \<Rightarrow> (rtext \<times> nat) list \<Rightarrow> rtext list \<Rightarrow> ((rtext \<times> nat) list \<times> rtext list) option" where
  "relax [] ind queue = Some (ind, queue)"
| "relax (d # ds) ind queue =
     (case map_of ind d of
        Some (Suc n) \<Rightarrow> relax ds (update_entry d (\<lambda>x. x - 1) ind) (if n = 0 then d # queue else queue)
      | _ \<Rightarrow> None)"

lemma update_entry_sum_le: "sum_list (map snd (update_entry d (\<lambda>x. x - 1) ind)) \<le> sum_list (map snd ind)"
  by (induction ind) (auto simp: update_entry_def)

lemma update_entry_sum_less:
  "map_of ind d = Some (Suc n) \<Longrightarrow>
   sum_list (map snd (update_entry d (\<lambda>x. x - 1) ind)) < sum_list (map snd ind)"
proof (induction ind)
  case (Cons e ind)
  then show ?case using update_entry_sum_le [of d ind]
    by (cases e) (auto simp: update_entry_def split: if_splits)
qed simp

lemma relax_sum_le: "relax ds ind q = Some (ind', q') \<Longrightarrow> sum_list (map snd ind') \<le> sum_list (map snd ind)"
proof (induction ds ind q rule: relax.induct)
  case (2 d ds ind q)
  then obtain n where "map_of ind d = Some (Suc n)" by (auto split: option.splits nat.splits)
  with 2 update_entry_sum_le [of d ind] show ?case by fastforce
qed simp

lemma relax_sum_less:
  assumes "relax (d # ds) ind q = Some (ind', q')"
  shows "sum_list (map snd ind') < sum_list (map snd ind)"
proof -
  from assms obtain n where n: "map_of ind d = Some (Suc n)" by (auto split: option.splits nat.splits)
  with assms relax_sum_le [of ds _ _ ind' q'] update_entry_sum_less [OF n] show ?thesis by fastforce
qed

function kahn :: "(rtext \<Rightarrow> rtext list) \<Rightarrow> rtext list \<Rightarrow> (rtext \<times> nat) list \<Rightarrow> rtext list \<Rightarrow> rtext list option" where
  "kahn dm [] ind order = Some order"
| "kahn dm (tid # queue) ind order =
     (case relax (dm tid) ind queue of
        None \<Rightarrow> None
      | Some (ind', queue') \<Rightarrow> kahn dm queue' ind' (order @ [tid]))"
  by pat_completeness auto

termination
proof (relation "measures [\<lambda>(_, _, ind, _). sum_list (map snd ind), \<lambda>(_, queue, _, _). length queue]")
  fix dm :: "rtext \<Rightarrow> rtext list" and tid queue ind order x2 x y
  assume r: "relax (dm tid) ind queue = Some x2" "(x, y) = x2"
  show "((dm, y, x, order @ [tid]), dm, tid # queue, ind, order)
    \<in> measures [\<lambda>(_, _, ind, _). sum_list (map snd ind), \<lambda>(_, queue, _, _). length queue]"
  proof (cases "dm tid")
    case (Cons d ds)
    with r relax_sum_less [of d ds ind queue x y] show ?thesis by simp
  qed (use r in auto)
qed simp

section \<open>Critical paths\<close>

type_synonym path_detail = "nat \<times> bool"

definition max_or_zero :: "nat list \<Rightarrow> nat" where
  "max_or_zero xs = foldr max xs 0"

text \<open>Sinks first: the last task of the topological order is treated first.\<close>

fun detail_pass ::
    "snaps \<Rightarrow> (rtext \<Rightarrow> rtext list) \<Rightarrow> rtext list \<Rightarrow> (rtext \<rightharpoonup> path_detail) \<Rightarrow> (rtext \<rightharpoonup> path_detail) option" where
  "detail_pass snaps dm [] details = Some details"
| "detail_pass snaps dm (tid # ids) details =
     (let downstream = List.map_filter details (dm tid);
          mx = max_or_zero (map fst downstream);
          chain_estimated = list_ex (\<lambda>(p, estimated). p = mx \<and> estimated) downstream in
      case map_of snaps tid of
        None \<Rightarrow> None
      | Some own \<Rightarrow>
          detail_pass snaps dm ids
            (details(tid \<mapsto> (sat_add (effort_of own) mx, effort_minutes own \<noteq> None \<or> chain_estimated))))"

fun fill_own :: "snaps \<Rightarrow> rtext list \<Rightarrow> (rtext \<rightharpoonup> path_detail) \<Rightarrow> (rtext \<rightharpoonup> path_detail) option" where
  "fill_own snaps [] details = Some details"
| "fill_own snaps (tid # ids) details =
     (case details tid of
        Some _ \<Rightarrow> fill_own snaps ids details
      | None \<Rightarrow>
          (case map_of snaps tid of
             None \<Rightarrow> None
           | Some own \<Rightarrow>
               fill_own snaps ids (details(tid \<mapsto> (effort_of own, effort_minutes own \<noteq> None)))))"

definition critical_path_details :: "snaps \<Rightarrow> (rtext \<rightharpoonup> path_detail) option" where
  "critical_path_details snaps =
     (let workable = workable_ids snaps in
      case build_graph workable snaps (\<lambda>_. [], map (\<lambda>tid. (tid, 0)) workable) of
        None \<Rightarrow> None
      | Some (dependents, indegree) \<Rightarrow>
          (case kahn dependents (rev (map fst (filter (\<lambda>(_, deg). deg = 0) indegree))) indegree [] of
             None \<Rightarrow> None
           | Some order \<Rightarrow>
               (case detail_pass snaps dependents (rev order) Map.empty of
                  None \<Rightarrow> None
                | Some details \<Rightarrow> fill_own snaps workable details)))"

definition critical_path_priorities :: "snaps \<Rightarrow> (rtext \<rightharpoonup> nat) option" where
  "critical_path_priorities snaps =
     map_option (\<lambda>details tid. map_option fst (details tid)) (critical_path_details snaps)"

definition serial_remaining_minutes :: "rtext list \<Rightarrow> snaps \<Rightarrow> nat option option" where
  "serial_remaining_minutes requested snaps =
     (case critical_path_details snaps of
        None \<Rightarrow> None
      | Some details \<Rightarrow>
          (let mins = map fst (filter snd (List.map_filter details requested)) in
           Some (if mins = [] then None
                 else if max_or_zero mins > 0 then Some (max_or_zero mins) else None)))"

section \<open>The graph in closed form\<close>

lemma map_of_update_entry:
  "map_of (update_entry k f ind) x = (if x = k then map_option f (map_of ind x) else map_of ind x)"
  by (induction ind) (auto simp: update_entry_def)

lemma update_entry_keys [simp]: "map fst (update_entry k f ind) = map fst ind"
  by (auto simp: update_entry_def)

lemma update_entry_comp: "update_entry k f (update_entry k g ind) = update_entry k (f \<circ> g) ind"
  by (auto simp: update_entry_def)

lemma update_entry_id: "(\<And>n. f n = n) \<Longrightarrow> update_entry k f ind = ind"
  by (induction ind) (auto simp: update_entry_def)

definition dep_count :: "rtext list \<Rightarrow> BatchTaskSnap \<Rightarrow> nat" where
  "dep_count w snap = card (set w \<inter> set (depends_on snap))"

lemma add_deps_spec:
  assumes "distinct deps" "map_of ind tid \<noteq> None"
  shows "add_deps w tid deps (dm, ind) =
    Some (\<lambda>d. dm d @ (if d \<in> set w \<inter> set deps then [tid] else []),
          update_entry tid (\<lambda>n. n + card (set w \<inter> set deps)) ind)"
  using assms
proof (induction deps arbitrary: dm ind)
  case Nil
  then show ?case by (simp add: update_entry_id)
next
  case (Cons d ds)
  have e: "map_of (update_entry tid Suc ind) tid \<noteq> None" using Cons.prems by (simp add: map_of_update_entry)
  have c: "d \<in> set w \<Longrightarrow> card (set w \<inter> insert d (set ds)) = Suc (card (set w \<inter> set ds))"
    using Cons.prems by (simp add: Int_insert_right)
  show ?case
    using Cons.prems Cons.IH [OF _ e] Cons.IH c
    by (auto simp: push_edge_def update_entry_comp comp_def fun_eq_iff Int_insert_right)
qed

fun indegree_sum :: "rtext list \<Rightarrow> snaps \<Rightarrow> rtext \<Rightarrow> nat" where
  "indegree_sum w [] a = 0"
| "indegree_sum w ((i, s) # rest) a = (if i = a \<and> i \<in> set w then dep_count w s else 0) + indegree_sum w rest a"

lemma build_graph_spec:
  assumes "set w \<subseteq> fst ` set ind"
  shows "\<exists>ind'. build_graph w snaps (dm, ind) =
      Some (\<lambda>d. dm d @ (if d \<in> set w then map fst (filter (\<lambda>(i, s). i \<in> set w \<and> d \<in> set (depends_on s)) snaps) else []), ind')
    \<and> map fst ind' = map fst ind \<and>
    (\<forall>a. map_of ind' a = map_option (\<lambda>n. n + indegree_sum w snaps a) (map_of ind a))"
  using assms
proof (induction snaps arbitrary: dm ind)
  case Nil
  then show ?case by (simp add: option.map_ident fun_eq_iff)
next
  case (Cons e snaps)
  obtain i s where e: "e = (i, s)" by (cases e)
  show ?case
  proof (cases "i \<in> set w")
    case True
    let ?ind = "update_entry i (\<lambda>n. n + card (set w \<inter> set (depends_on s))) ind"
    have k: "fst ` set ?ind = fst ` set ind" using update_entry_keys by (metis set_map)
    have "map_of ind i \<noteq> None" using True Cons.prems by (auto simp: map_of_eq_None_iff simp del: not_None_eq)
    moreover obtain ind' where "build_graph w snaps
        (\<lambda>d. dm d @ (if d \<in> set w \<inter> set (depends_on s) then [i] else []), ?ind) =
        Some (\<lambda>d. (dm d @ (if d \<in> set w \<inter> set (depends_on s) then [i] else [])) @
          (if d \<in> set w then map fst (filter (\<lambda>(i, s). i \<in> set w \<and> d \<in> set (depends_on s)) snaps) else []), ind')"
      "map fst ind' = map fst ?ind"
      "\<forall>a. map_of ind' a = map_option (\<lambda>n. n + indegree_sum w snaps a) (map_of ?ind a)"
      using Cons.IH [of ?ind "\<lambda>d. dm d @ (if d \<in> set w \<inter> set (depends_on s) then [i] else [])"] Cons.prems k
      by auto
    ultimately show ?thesis
      using True
      by (auto simp: e add_deps_spec fun_eq_iff map_of_update_entry option.map_comp comp_def dep_count_def add.assoc)
  next
    case False
    then have "indegree_sum w (e # snaps) a = indegree_sum w snaps a" for a by (simp add: e)
    with False Cons.IH [OF Cons.prems, of dm] show ?thesis by (simp add: e cong: if_cong)
  qed
qed

text \<open>Task graph over a snapshot: the workable tasks and the edges from a task to its dependents.\<close>

definition dependents_of :: "snaps \<Rightarrow> rtext \<Rightarrow> rtext list" where
  "dependents_of snaps d =
     (if d \<in> set (workable_ids snaps)
      then map fst (filter (\<lambda>(i, s). is_workable (status s) \<and> d \<in> set (depends_on s)) snaps) else [])"

definition preds :: "snaps \<Rightarrow> rtext \<Rightarrow> rtext set" where
  "preds snaps i = {d \<in> set (workable_ids snaps). i \<in> set (dependents_of snaps d)}"

lemma workable_ids_iff:
  "distinct (map fst snaps) \<Longrightarrow>
   i \<in> set (workable_ids snaps) \<longleftrightarrow> (\<exists>s. map_of snaps i = Some s \<and> is_workable (status s))"
  by (auto simp: workable_ids_def intro: map_of_is_SomeI dest: map_of_SomeD) force

lemma dependents_of_iff:
  "distinct (map fst snaps) \<Longrightarrow>
   i \<in> set (dependents_of snaps d) \<longleftrightarrow> d \<in> set (workable_ids snaps) \<and>
     (\<exists>s. map_of snaps i = Some s \<and> is_workable (status s) \<and> d \<in> set (depends_on s))"
  by (auto simp: dependents_of_def intro: map_of_is_SomeI dest: map_of_SomeD) force

lemma distinct_map_fst_filter: "distinct (map fst xs) \<Longrightarrow> distinct (map fst (filter P xs))"
  by (induction xs) auto

lemma distinct_graph:
  assumes "distinct (map fst snaps)"
  shows "distinct (workable_ids snaps)" "distinct (dependents_of snaps d)"
  using assms by (auto simp: workable_ids_def dependents_of_def intro: distinct_map_fst_filter)

lemma indegree_sum_eq:
  assumes "distinct (map fst snaps)"
  shows "indegree_sum w snaps a =
    (case map_of snaps a of Some s \<Rightarrow> if a \<in> set w then dep_count w s else 0 | None \<Rightarrow> 0)"
  using assms
proof (induction snaps)
  case (Cons e snaps)
  then show ?case
    by (cases e) (auto split: option.splits simp: map_of_eq_None_iff dest: map_of_SomeD intro: rev_image_eqI)
qed simp

lemma build_graph_closed:
  assumes "distinct (map fst snaps)"
  shows "\<exists>ind. build_graph (workable_ids snaps) snaps (\<lambda>_. [], map (\<lambda>i. (i, 0)) (workable_ids snaps)) =
      Some (dependents_of snaps, ind) \<and> map fst ind = workable_ids snaps \<and>
    (\<forall>i \<in> set (workable_ids snaps). map_of ind i = Some (card (preds snaps i)))"
proof -
  let ?w = "workable_ids snaps"
  have w: "map_of (map (\<lambda>i. (i, 0 :: nat)) ?w) i = (if i \<in> set ?w then Some 0 else None)" for i
    by (induction ?w) (auto simp: map_of_map_restrict restrict_map_def)
  have f: "filter (\<lambda>(i, s). i \<in> set ?w \<and> d \<in> set (depends_on s)) snaps =
      filter (\<lambda>(i, s). is_workable (status s) \<and> d \<in> set (depends_on s)) snaps" for d
    using assms by (intro filter_cong) (auto simp: workable_ids_iff dest: eq_key_imp_eq_value)
  have p: "preds snaps i = set ?w \<inter> set (depends_on s)"
    if "map_of snaps i = Some s" "is_workable (status s)" for i s
    using that assms by (auto simp: preds_def dependents_of_iff)
  have d: "(\<lambda>d. [] @ (if d \<in> set ?w then map fst (filter (\<lambda>(i, s). i \<in> set ?w \<and> d \<in> set (depends_on s)) snaps)
      else [])) = dependents_of snaps"
    by (rule ext) (simp add: f dependents_of_def)
  have sub: "set ?w \<subseteq> fst ` set (map (\<lambda>i. (i, 0)) ?w)" by (simp add: image_image)
  from build_graph_spec [OF sub, of snaps "\<lambda>_. []", unfolded d] obtain ind where
    g: "build_graph ?w snaps (\<lambda>_. [], map (\<lambda>i. (i, 0)) ?w) = Some (dependents_of snaps, ind)"
    "map fst ind = ?w"
    and m: "\<And>a. map_of ind a = map_option (\<lambda>n. n + indegree_sum ?w snaps a) (map_of (map (\<lambda>i. (i, 0)) ?w) a)"
    by (auto simp: comp_def)
  have "map_of ind i = Some (card (preds snaps i))" if "i \<in> set ?w" for i
    using that assms p by (auto simp: m w indegree_sum_eq dep_count_def workable_ids_iff [OF assms] simp del: map_of_eq_Some_iff)
  with g show ?thesis by blast
qed

section \<open>Correctness of the worklist pass\<close>

text \<open>Every predecessor of a task stands before it.\<close>

definition topological :: "snaps \<Rightarrow> rtext list \<Rightarrow> bool" where
  "topological snaps order \<longleftrightarrow> distinct order \<and> set order \<subseteq> set (workable_ids snaps) \<and>
     (\<forall>k < length order. preds snaps (order ! k) \<subseteq> set (take k order))"

definition kahn_inv :: "snaps \<Rightarrow> rtext list \<Rightarrow> (rtext \<times> nat) list \<Rightarrow> rtext list \<Rightarrow> bool" where
  "kahn_inv snaps queue ind order \<longleftrightarrow> topological snaps order \<and> distinct (order @ queue) \<and>
     (\<forall>i \<in> set (workable_ids snaps). map_of ind i = Some (card (preds snaps i - set order))) \<and>
     (\<forall>i. i \<in> set (order @ queue) \<longleftrightarrow> i \<in> set (workable_ids snaps) \<and> preds snaps i \<subseteq> set order)"

lemma relax_spec:
  assumes "distinct ds" "\<And>d. d \<in> set ds \<Longrightarrow> \<exists>n. map_of ind d = Some (Suc n)"
  shows "\<exists>ind'. relax ds ind q = Some (ind', rev (filter (\<lambda>d. map_of ind d = Some 1) ds) @ q) \<and>
    (\<forall>i. map_of ind' i = (if i \<in> set ds then map_option (\<lambda>x. x - 1) (map_of ind i) else map_of ind i))"
  using assms
proof (induction ds arbitrary: ind q)
  case (Cons d ds)
  obtain n where n: "map_of ind d = Some (Suc n)" using Cons.prems by auto
  let ?ind = "update_entry d (\<lambda>x. x - 1) ind"
  have same: "e \<in> set ds \<Longrightarrow> map_of ?ind e = map_of ind e" for e
    using Cons.prems(1) by (auto simp: map_of_update_entry)
  then have f: "filter (\<lambda>e. map_of ?ind e = Some 1) ds = filter (\<lambda>e. map_of ind e = Some 1) ds"
    by (intro filter_cong) auto
  have pre: "distinct ds" "\<And>e. e \<in> set ds \<Longrightarrow> \<exists>n. map_of ?ind e = Some (Suc n)"
    using Cons.prems same by auto
  obtain ind' where i: "relax ds ?ind (if n = 0 then d # q else q) =
      Some (ind', rev (filter (\<lambda>e. map_of ind e = Some 1) ds) @ (if n = 0 then d # q else q))"
    "\<forall>i. map_of ind' i = (if i \<in> set ds then map_option (\<lambda>x. x - 1) (map_of ?ind i) else map_of ?ind i)"
    using Cons.IH [OF pre, of "if n = 0 then d # q else q"] f by auto
  then show ?case using n Cons.prems(1) by (auto simp: map_of_update_entry)
qed simp

lemma topological_snoc:
  assumes "topological snaps order" "i \<in> set (workable_ids snaps)" "i \<notin> set order" "preds snaps i \<subseteq> set order"
  shows "topological snaps (order @ [i])"
  using assms by (auto simp: topological_def nth_append less_Suc_eq)

lemma kahn_step:
  assumes s: "distinct (map fst snaps)" and inv: "kahn_inv snaps (i # queue) ind order"
  obtains ind' queue' where "relax (dependents_of snaps i) ind queue = Some (ind', queue')"
    "kahn_inv snaps queue' ind' (order @ [i])"
proof -
  let ?w = "set (workable_ids snaps)" and ?dm = "dependents_of snaps i"
  note I = inv [unfolded kahn_inv_def]
  have i: "i \<in> ?w" "preds snaps i \<subseteq> set order" "i \<notin> set order" using I by auto
  have fin: "finite (preds snaps d - A)" for d A by (simp add: preds_def)
  have pd: "i \<in> preds snaps d \<longleftrightarrow> d \<in> set ?dm" for d using i by (simp add: preds_def)
  have dw: "d \<in> set ?dm \<Longrightarrow> d \<in> ?w" for d using s by (auto simp: dependents_of_iff workable_ids_iff)
  have card1: "card (preds snaps d - set order) = Suc (card (preds snaps d - set (order @ [i])))"
    if "d \<in> set ?dm" for d
  proof -
    have "preds snaps d - set (order @ [i]) = preds snaps d - set order - {i}" by auto
    with that pd i show ?thesis using card_Suc_Diff1 [OF fin, of i d "set order"] by simp
  qed
  have other: "preds snaps d - set (order @ [i]) = preds snaps d - set order" if "d \<notin> set ?dm" for d
    using that pd by auto
  have indd: "map_of ind d = Some (card (preds snaps d - set order))" if "d \<in> ?w" for d using I that by blast
  obtain ind' where r: "relax ?dm ind queue = Some (ind', rev (filter (\<lambda>d. map_of ind d = Some 1) ?dm) @ queue)"
    and m: "\<forall>d. map_of ind' d = (if d \<in> set ?dm then map_option (\<lambda>x. x - 1) (map_of ind d) else map_of ind d)"
    using relax_spec [of ?dm ind queue] distinct_graph(2) [OF s] indd dw card1 by (metis (no_types, lifting))
  have new: "d \<in> set (filter (\<lambda>d. map_of ind d = Some 1) ?dm) \<longleftrightarrow>
      d \<in> set ?dm \<and> preds snaps d \<subseteq> set (order @ [i])" for d
    using indd dw card1 fin [of d "set (order @ [i])"] by (auto simp: card_eq_0_iff)
  have notold: "d \<in> set ?dm \<Longrightarrow> d \<notin> set (order @ i # queue)" for d
    using I pd i by blast
  have dq: "distinct (order @ i # queue)" "set ?dm \<inter> set (order @ i # queue) = {}"
    using I notold by blast+
  have "kahn_inv snaps (rev (filter (\<lambda>d. map_of ind d = Some 1) ?dm) @ queue) ind' (order @ [i])"
    unfolding kahn_inv_def
  proof (intro conjI allI ballI)
    show "topological snaps (order @ [i])" using I i by (intro topological_snoc) auto
    show "distinct ((order @ [i]) @ rev (filter (\<lambda>d. map_of ind d = Some 1) ?dm) @ queue)"
      using dq distinct_graph(2) [OF s, of i] by auto
    show "map_of ind' d = Some (card (preds snaps d - set (order @ [i])))" if "d \<in> ?w" for d
      using m indd [OF that] card1 [of d] other [of d] by (cases "d \<in> set ?dm") (simp_all del: set_append)
    show "d \<in> set ((order @ [i]) @ rev (filter (\<lambda>d. map_of ind d = Some 1) ?dm) @ queue) \<longleftrightarrow>
        d \<in> ?w \<and> preds snaps d \<subseteq> set (order @ [i])" for d
    proof (cases "d \<in> set ?dm")
      case True
      then show ?thesis using new [of d] notold [of d] dw [of d] by auto
    next
      case False
      then have "preds snaps d \<subseteq> set (order @ [i]) \<longleftrightarrow> preds snaps d \<subseteq> set order" using pd by auto
      with False I show ?thesis by auto
    qed
  qed
  with r show thesis by (rule that)
qed

lemma kahn_correct:
  assumes "distinct (map fst snaps)" "kahn_inv snaps queue ind order"
  shows "\<exists>out ind'. kahn (dependents_of snaps) queue ind order = Some out \<and> kahn_inv snaps [] ind' out"
  using assms(2)
proof (induction "dependents_of snaps" queue ind order rule: kahn.induct)
  case (1 ind order)
  then show ?case by auto
next
  case (2 i queue ind order)
  from kahn_step [OF assms(1) 2(2)] obtain ind' queue' where
    "relax (dependents_of snaps i) ind queue = Some (ind', queue')" "kahn_inv snaps queue' ind' (order @ [i])" .
  with 2(1) show ?case by simp
qed

text \<open>The processed tasks are closed: a task all of whose predecessors are processed is processed.\<close>

definition closed_order :: "snaps \<Rightarrow> rtext list \<Rightarrow> bool" where
  "closed_order snaps order \<longleftrightarrow> topological snaps order \<and>
     (\<forall>i \<in> set (workable_ids snaps). preds snaps i \<subseteq> set order \<longrightarrow> i \<in> set order)"

lemma kahn_start:
  assumes "distinct (map fst snaps)" "map fst ind = workable_ids snaps"
    "\<forall>i \<in> set (workable_ids snaps). map_of ind i = Some (card (preds snaps i))"
  shows "\<exists>out. kahn (dependents_of snaps) (rev (map fst (filter (\<lambda>(_, deg). deg = 0) ind))) ind [] = Some out \<and>
    closed_order snaps out"
proof -
  have d: "distinct (map fst ind)" using assms(2) distinct_graph(1) [OF assms(1)] by simp
  have fin: "finite (preds snaps i)" for i by (simp add: preds_def)
  have z: "i \<in> set (map fst (filter (\<lambda>(_, deg). deg = 0) ind)) \<longleftrightarrow> map_of ind i = Some 0" for i
    using d by force
  have dm: "map_of ind i \<noteq> None \<Longrightarrow> i \<in> set (workable_ids snaps)" for i
    using assms(2) by (metis map_of_eq_None_iff set_map)
  have "kahn_inv snaps (rev (map fst (filter (\<lambda>(_, deg). deg = 0) ind))) ind []"
    unfolding kahn_inv_def
  proof (intro conjI allI ballI)
    show "distinct ([] @ rev (map fst (filter (\<lambda>(_, deg). deg = 0) ind)))"
      using distinct_map_fst_filter [OF d] by simp
    show "i \<in> set ([] @ rev (map fst (filter (\<lambda>(_, deg). deg = 0) ind))) \<longleftrightarrow>
        i \<in> set (workable_ids snaps) \<and> preds snaps i \<subseteq> set []" for i
      using z [of i] dm [of i] assms(3) fin [of i] by (auto simp del: map_of_eq_Some_iff)
  qed (use assms(3) in \<open>auto simp: topological_def\<close>)
  from kahn_correct [OF assms(1) this] show ?thesis
    by (auto simp: kahn_inv_def closed_order_def)
qed

lemma closed_order_unique:
  assumes "closed_order snaps xs" "closed_order snaps' ys"
    "set (workable_ids snaps) = set (workable_ids snaps')" "preds snaps = preds snaps'"
  shows "set xs \<subseteq> set ys"
proof -
  have "xs ! k \<in> set ys" if "k < length xs" for k
    using that
  proof (induction k rule: less_induct)
    case (less k)
    then have "set (take k xs) \<subseteq> set ys" by (auto simp: in_set_conv_nth)
    moreover have "preds snaps (xs ! k) \<subseteq> set (take k xs)" "xs ! k \<in> set (workable_ids snaps)"
      using assms(1) less by (auto simp: closed_order_def topological_def)
    ultimately show ?case using assms by (auto simp: closed_order_def)
  qed
  then show ?thesis by (auto simp: in_set_conv_nth)
qed

definition dep_edges :: "snaps \<Rightarrow> (rtext \<times> rtext) set" where
  "dep_edges snaps = {(d, i). i \<in> set (dependents_of snaps d)}"

lemma preds_edges: "preds snaps i = {d. (d, i) \<in> dep_edges snaps}"
  by (auto simp: preds_def dep_edges_def dependents_of_def split: if_splits)

lemma closed_order_acyclic:
  assumes "closed_order snaps xs" "acyclic (dep_edges snaps)" "distinct (map fst snaps)"
  shows "set xs = set (workable_ids snaps)"
proof (rule ccontr)
  let ?w = "set (workable_ids snaps)"
  assume "set xs \<noteq> ?w"
  with assms(1) obtain i where i: "i \<in> ?w - set xs" by (auto simp: closed_order_def topological_def)
  have "dep_edges snaps \<subseteq> ?w \<times> ?w"
    using assms(3) by (auto simp: dep_edges_def dependents_of_iff workable_ids_iff)
  then have "finite (dep_edges snaps)" by (rule finite_subset) simp
  then have "wf (dep_edges snaps)" using assms(2) by (rule finite_acyclic_wf)
  with i obtain m where m: "m \<in> ?w - set xs" "\<And>y. (y, m) \<in> dep_edges snaps \<Longrightarrow> y \<notin> ?w - set xs"
    by (elim wfE_min) blast+
  then have "preds snaps m \<subseteq> set xs" by (auto simp: preds_edges) (auto simp: dep_edges_def dependents_of_def split: if_splits)
  with m assms(1) show False by (auto simp: closed_order_def)
qed

text \<open>Induction from the sinks of a topological order.\<close>

lemma topological_before:
  assumes "topological snaps (xs @ x # ys)" "i \<in> set (x # ys)"
  shows "x \<notin> set (dependents_of snaps i)"
proof
  assume "x \<in> set (dependents_of snaps i)"
  then have "i \<in> preds snaps x" by (auto simp: preds_def dependents_of_def split: if_splits)
  moreover have "preds snaps x \<subseteq> set xs"
    using assms(1) by (auto simp: topological_def dest!: spec [of _ "length xs"])
  ultimately show False using assms by (auto simp: topological_def)
qed

lemma topological_induct:
  assumes "topological snaps order" "i \<in> set order"
    and step: "\<And>i. i \<in> set order \<Longrightarrow> (\<And>j. j \<in> set order \<Longrightarrow> j \<in> set (dependents_of snaps i) \<Longrightarrow> P j) \<Longrightarrow> P i"
  shows "P i"
proof -
  have "\<forall>i \<in> set ys. P i" if "order = xs @ ys" for xs ys
    using that
  proof (induction ys arbitrary: xs)
    case (Cons y ys)
    have ys: "\<forall>i \<in> set ys. P i" using Cons.IH [of "xs @ [y]"] Cons.prems by simp
    have "P y"
    proof (rule step)
      fix j assume j: "j \<in> set order" "j \<in> set (dependents_of snaps y)"
      have "j \<notin> set xs"
      proof
        assume "j \<in> set xs"
        then obtain as bs where "xs = as @ j # bs" by (meson split_list)
        with topological_before [of snaps as j "bs @ y # ys" y] assms(1) Cons.prems j show False by simp
      qed
      moreover have "j \<noteq> y" using topological_before [of snaps xs y ys y] assms(1) Cons.prems j by auto
      ultimately have "j \<in> set ys" using j(1) Cons.prems by simp
      then show "P j" using ys by simp
    qed (use Cons.prems in simp)
    with ys show ?case by simp
  qed simp
  from this [of "[]" order] assms(2) show ?thesis by simp
qed

section \<open>The details as a recursion over dependents\<close>

definition downstream :: "snaps \<Rightarrow> (rtext \<rightharpoonup> path_detail) \<Rightarrow> rtext \<Rightarrow> path_detail set" where
  "downstream snaps D i = {pe. \<exists>d \<in> set (dependents_of snaps i). D d = Some pe}"

definition local_detail :: "snaps \<Rightarrow> (rtext \<rightharpoonup> path_detail) \<Rightarrow> rtext \<Rightarrow> BatchTaskSnap \<Rightarrow> path_detail" where
  "local_detail snaps D i own =
     (let P = downstream snaps D i; mx = Max (insert 0 (fst ` P)) in
      (sat_add (effort_of own) mx, effort_minutes own \<noteq> None \<or> (mx, True) \<in> P))"

lemma max_or_zero_Max: "max_or_zero xs = Max (insert 0 (set xs))"
proof (induction xs)
  case (Cons x xs)
  then show ?case by (simp add: max_or_zero_def insert_commute [of 0])
qed (simp add: max_or_zero_def)

lemma map_filter_downstream: "set (List.map_filter D (dependents_of snaps i)) = downstream snaps D i"
  by (auto simp: downstream_def map_filter_def image_iff) force

lemma finite_downstream: "finite (downstream snaps D i)"
  by (metis List.finite_set map_filter_downstream)

lemma list_ex_pair: "list_ex (\<lambda>(p, e). p = m \<and> e) xs \<longleftrightarrow> (m, True) \<in> set xs"
  by (induction xs) auto

lemma detail_pass_Cons:
  assumes "map_of snaps i = Some own"
  shows "detail_pass snaps (dependents_of snaps) (i # ids) D =
   detail_pass snaps (dependents_of snaps) ids (D(i \<mapsto> local_detail snaps D i own))"
  unfolding detail_pass.simps Let_def list_ex_pair max_or_zero_Max set_map map_filter_downstream
  by (simp add: assms local_detail_def Let_def)

lemma local_detail_cong:
  assumes "\<And>d. d \<in> set (dependents_of snaps i) \<Longrightarrow> D d = D' d"
  shows "local_detail snaps D i own = local_detail snaps D' i own"
proof -
  have "downstream snaps D i = downstream snaps D' i" unfolding downstream_def using assms by auto
  then show ?thesis by (simp add: local_detail_def)
qed

definition detail_eqs :: "snaps \<Rightarrow> rtext set \<Rightarrow> (rtext \<rightharpoonup> path_detail) \<Rightarrow> bool" where
  "detail_eqs snaps S D \<longleftrightarrow> dom D = S \<and>
     (\<forall>i \<in> S. \<exists>own. map_of snaps i = Some own \<and> D i = Some (local_detail snaps D i own))"

lemma detail_pass_eqs:
  assumes "topological snaps (xs @ ys)" "detail_eqs snaps (set ys) D" "distinct (map fst snaps)"
  shows "\<exists>D'. detail_pass snaps (dependents_of snaps) (rev xs) D = Some D' \<and> detail_eqs snaps (set (xs @ ys)) D'"
  using assms(1,2)
proof (induction xs arbitrary: ys D rule: rev_induct)
  case (snoc x xs)
  have "x \<in> set (workable_ids snaps)" using snoc.prems by (auto simp: topological_def)
  then obtain own where own: "map_of snaps x = Some own" using assms(3) by (auto simp: workable_ids_iff simp del: map_of_eq_Some_iff)
  let ?D = "D(x \<mapsto> local_detail snaps D x own)"
  have nx: "i \<in> set (x # ys) \<Longrightarrow> x \<notin> set (dependents_of snaps i)" for i
    using snoc.prems by (intro topological_before [of snaps xs x ys]) auto
  have ld: "i \<in> set (x # ys) \<Longrightarrow> local_detail snaps ?D i o' = local_detail snaps D i o'" for i o'
    using nx [of i] by (intro local_detail_cong) auto
  have "x \<notin> set ys" using snoc.prems by (auto simp: topological_def)
  then have "detail_eqs snaps (set (x # ys)) ?D"
    using snoc.prems(2) own ld by (auto simp: detail_eqs_def simp del: map_of_eq_Some_iff)
  from snoc.IH [OF _ this] snoc.prems(1) own show ?case
    by (simp add: detail_pass_Cons fun_upd_def del: detail_pass.simps)
qed simp

lemma detail_eqs_unique:
  assumes "topological snaps order" "detail_eqs snaps (set order) D" "detail_eqs snaps' (set order) D'"
    "\<And>i. set (dependents_of snaps i) = set (dependents_of snaps' i)" "map_of snaps = map_of snaps'"
  shows "D = D'"
proof
  fix i
  show "D i = D' i"
  proof (cases "i \<in> set order")
    case True
    from assms(1) True show ?thesis
    proof (rule topological_induct)
      fix i assume i: "i \<in> set order" and
        ih: "\<And>j. j \<in> set order \<Longrightarrow> j \<in> set (dependents_of snaps i) \<Longrightarrow> D j = D' j"
      have "D d = D' d" if "d \<in> set (dependents_of snaps i)" for d
        using ih [OF _ that] assms(2,3) unfolding detail_eqs_def by (metis domIff)
      then have "downstream snaps D i = downstream snaps' D' i" by (auto simp: downstream_def assms(4))
      moreover obtain own own' where "map_of snaps i = Some own" "D i = Some (local_detail snaps D i own)"
        "map_of snaps' i = Some own'" "D' i = Some (local_detail snaps' D' i own')"
        using i assms(2,3) unfolding detail_eqs_def by blast
      ultimately show "D i = D' i" using assms(5) by (simp add: local_detail_def)
    qed
  next
    case False
    with assms(2,3) show ?thesis unfolding detail_eqs_def by (metis domIff)
  qed
qed

lemma fill_own_spec:
  assumes "\<And>i. i \<in> set ids \<Longrightarrow> map_of snaps i \<noteq> None"
  shows "fill_own snaps ids D = Some (\<lambda>i. case D i of Some p \<Rightarrow> Some p
    | None \<Rightarrow> if i \<in> set ids then map_option (\<lambda>own. (effort_of own, effort_minutes own \<noteq> None)) (map_of snaps i) else None)"
  using assms
proof (induction ids arbitrary: D)
  case Nil
  then show ?case by (auto simp: fun_eq_iff split: option.splits)
next
  case (Cons i ids)
  then obtain own where "map_of snaps i = Some own" by fastforce
  with Cons show ?case by (auto simp: fun_eq_iff split: option.splits simp del: map_of_eq_Some_iff)
qed

definition with_own :: "snaps \<Rightarrow> (rtext \<rightharpoonup> path_detail) \<Rightarrow> rtext \<rightharpoonup> path_detail" where
  "with_own snaps D i = (case D i of Some p \<Rightarrow> Some p
    | None \<Rightarrow> if i \<in> set (workable_ids snaps)
        then map_option (\<lambda>own. (effort_of own, effort_minutes own \<noteq> None)) (map_of snaps i) else None)"

lemma critical_path_details_spec:
  assumes "distinct (map fst snaps)"
  shows "\<exists>order D. closed_order snaps order \<and> detail_eqs snaps (set order) D \<and>
    critical_path_details snaps = Some (with_own snaps D)"
proof -
  from build_graph_closed [OF assms] obtain ind where
    g: "build_graph (workable_ids snaps) snaps (\<lambda>_. [], map (\<lambda>i. (i, 0)) (workable_ids snaps)) = Some (dependents_of snaps, ind)"
    and i: "map fst ind = workable_ids snaps" "\<forall>i \<in> set (workable_ids snaps). map_of ind i = Some (card (preds snaps i))"
    by blast
  from kahn_start [OF assms i] obtain order where
    k: "kahn (dependents_of snaps) (rev (map fst (filter (\<lambda>(_, deg). deg = 0) ind))) ind [] = Some order"
      "closed_order snaps order"
    by blast
  from detail_pass_eqs [of snaps order "[]" Map.empty] k(2) assms obtain D where
    d: "detail_pass snaps (dependents_of snaps) (rev order) Map.empty = Some D" "detail_eqs snaps (set order) D"
    by (auto simp: closed_order_def detail_eqs_def)
  have "fill_own snaps (workable_ids snaps) D = Some (with_own snaps D)"
    using assms by (subst fill_own_spec) (auto simp: with_own_def [abs_def] workable_ids_iff simp del: map_of_eq_Some_iff)
  with g k d show ?thesis by (auto simp: critical_path_details_def)
qed

section \<open>Longest chains\<close>

text \<open>A chain of workable tasks, each depending on the one before it.\<close>

fun chain :: "snaps \<Rightarrow> rtext list \<Rightarrow> bool" where
  "chain snaps [] \<longleftrightarrow> False"
| "chain snaps [i] \<longleftrightarrow> i \<in> set (workable_ids snaps)"
| "chain snaps (i # j # r) \<longleftrightarrow> j \<in> set (dependents_of snaps i) \<and> chain snaps (j # r)"

definition effort_at :: "snaps \<Rightarrow> rtext \<Rightarrow> nat" where
  "effort_at snaps i = (case map_of snaps i of Some s \<Rightarrow> effort_of s | None \<Rightarrow> 0)"

definition chain_effort :: "snaps \<Rightarrow> rtext list \<Rightarrow> nat" where
  "chain_effort snaps c = sum_list (map (effort_at snaps) c)"

definition estimated_at :: "snaps \<Rightarrow> rtext \<Rightarrow> bool" where
  "estimated_at snaps i = (case map_of snaps i of Some s \<Rightarrow> effort_minutes s \<noteq> None | None \<Rightarrow> False)"

lemma chain_Cons: "chain snaps (i # c) \<longleftrightarrow>
    (c = [] \<and> i \<in> set (workable_ids snaps)) \<or> (c \<noteq> [] \<and> hd c \<in> set (dependents_of snaps i) \<and> chain snaps c)"
  by (cases c) auto

lemma sat_add_saturated: "sat_add e (min usize_max m) = min usize_max (e + m)"
  by (auto simp: sat_add_def)

text \<open>The detail of a task is the longest chain from it, at the width of the code.\<close>

definition longest :: "snaps \<Rightarrow> rtext \<Rightarrow> path_detail \<Rightarrow> bool" where
  "longest snaps i pe \<longleftrightarrow>
     (\<forall>c. chain snaps (i # c) \<longrightarrow> chain_effort snaps (i # c) \<le> fst pe \<or> usize_max \<le> fst pe) \<and>
     (\<exists>c. chain snaps (i # c) \<and> fst pe = min usize_max (chain_effort snaps (i # c))) \<and>
     (fst pe < usize_max \<longrightarrow> (snd pe \<longleftrightarrow>
        (\<exists>c. chain snaps (i # c) \<and> chain_effort snaps (i # c) = fst pe \<and> (\<exists>j \<in> set (i # c). estimated_at snaps j))))"

definition mx_below :: "snaps \<Rightarrow> (rtext \<rightharpoonup> path_detail) \<Rightarrow> rtext \<Rightarrow> nat" where
  "mx_below snaps D i = Max (insert 0 (fst ` downstream snaps D i))"

definition long_below :: "snaps \<Rightarrow> (rtext \<rightharpoonup> path_detail) \<Rightarrow> rtext \<Rightarrow> bool" where
  "long_below snaps D i \<longleftrightarrow>
     (\<forall>j \<in> set (dependents_of snaps i). \<exists>pe. D j = Some pe \<and> longest snaps j pe)"

lemma mx_below_ge: "pe \<in> downstream snaps D i \<Longrightarrow> fst pe \<le> mx_below snaps D i"
  unfolding mx_below_def using finite_downstream by (intro Max_ge) auto

lemma mx_below_attained:
  assumes "downstream snaps D i \<noteq> {}"
  shows "\<exists>pe \<in> downstream snaps D i. fst pe = mx_below snaps D i"
proof -
  have "Max (fst ` downstream snaps D i) \<in> fst ` downstream snaps D i"
    using assms finite_downstream [of snaps D i] by (intro Max_in) auto
  moreover have "mx_below snaps D i = Max (fst ` downstream snaps D i)"
    using assms finite_downstream [of snaps D i] by (simp add: mx_below_def)
  ultimately show ?thesis by (metis imageE)
qed

lemma long_belowD:
  assumes "long_below snaps D i"
  shows "j \<in> set (dependents_of snaps i) \<Longrightarrow> \<exists>pe. pe \<in> downstream snaps D i \<and> longest snaps j pe"
    and "pe \<in> downstream snaps D i \<Longrightarrow> \<exists>j. j \<in> set (dependents_of snaps i) \<and> longest snaps j pe"
  using assms by (fastforce simp: downstream_def long_below_def)+

lemma chain_upper:
  assumes "long_below snaps D i" "chain snaps (i # c)"
  shows "chain_effort snaps c \<le> mx_below snaps D i \<or> usize_max \<le> mx_below snaps D i"
proof (cases c)
  case (Cons j r)
  with assms long_belowD(1) [of snaps D i j] obtain pe where
    "pe \<in> downstream snaps D i" "longest snaps j pe" by auto
  with assms Cons mx_below_ge [of pe snaps D i] show ?thesis by (fastforce simp: longest_def)
qed (simp add: chain_effort_def)

lemma chain_attains:
  assumes "long_below snaps D i" "i \<in> set (workable_ids snaps)"
  shows "\<exists>c. chain snaps (i # c) \<and> mx_below snaps D i = min usize_max (chain_effort snaps c)"
proof (cases "downstream snaps D i = {}")
  case True
  with assms(2) show ?thesis by (intro exI [of _ "[]"]) (simp add: chain_effort_def mx_below_def)
next
  case False
  then obtain pe where pe: "pe \<in> downstream snaps D i" "fst pe = mx_below snaps D i"
    using mx_below_attained by blast
  with long_belowD(2) [OF assms(1)] obtain j where j: "j \<in> set (dependents_of snaps i)" "longest snaps j pe"
    by blast
  then obtain c where "chain snaps (j # c)" "fst pe = min usize_max (chain_effort snaps (j # c))"
    by (auto simp: longest_def)
  with j pe show ?thesis by (intro exI [of _ "j # c"]) simp
qed

lemma chain_flag:
  assumes lb: "long_below snaps D i" and m: "mx_below snaps D i < usize_max"
  shows "(mx_below snaps D i, True) \<in> downstream snaps D i \<longleftrightarrow>
    (\<exists>j r. chain snaps (i # j # r) \<and> chain_effort snaps (j # r) = mx_below snaps D i \<and>
       (\<exists>k \<in> set (j # r). estimated_at snaps k))"
proof
  assume "(mx_below snaps D i, True) \<in> downstream snaps D i"
  with long_belowD(2) [OF lb] obtain j where j: "j \<in> set (dependents_of snaps i)"
    "longest snaps j (mx_below snaps D i, True)" by blast
  with m obtain r where "chain snaps (j # r)" "chain_effort snaps (j # r) = mx_below snaps D i"
    "\<exists>k \<in> set (j # r). estimated_at snaps k" by (auto simp: longest_def)
  with j show "\<exists>j r. chain snaps (i # j # r) \<and> chain_effort snaps (j # r) = mx_below snaps D i \<and>
       (\<exists>k \<in> set (j # r). estimated_at snaps k)" by (intro exI [of _ j] exI [of _ r]) simp
next
  assume "\<exists>j r. chain snaps (i # j # r) \<and> chain_effort snaps (j # r) = mx_below snaps D i \<and>
       (\<exists>k \<in> set (j # r). estimated_at snaps k)"
  then obtain j r where c: "chain snaps (i # j # r)" "chain_effort snaps (j # r) = mx_below snaps D i"
    "\<exists>k \<in> set (j # r). estimated_at snaps k" by blast
  with long_belowD(1) [OF lb, of j] obtain pe where pe: "pe \<in> downstream snaps D i" "longest snaps j pe" by auto
  have "fst pe \<le> mx_below snaps D i" using pe(1) by (rule mx_below_ge)
  moreover have "mx_below snaps D i \<le> fst pe \<or> usize_max \<le> fst pe"
    using pe(2) c unfolding longest_def by (metis chain.simps(3))
  ultimately have f: "fst pe = mx_below snaps D i" using m by linarith
  then have "snd pe" using pe(2) c m unfolding longest_def by (metis chain.simps(3))
  with f pe(1) show "(mx_below snaps D i, True) \<in> downstream snaps D i" by (cases pe) simp
qed

lemma longest_step:
  assumes own: "map_of snaps i = Some own" "i \<in> set (workable_ids snaps)" and lb: "long_below snaps D i"
  shows "longest snaps i (local_detail snaps D i own)"
proof -
  let ?mx = "mx_below snaps D i" and ?e = "effort_of own"
  have p: "local_detail snaps D i own =
      (sat_add ?e ?mx, effort_minutes own \<noteq> None \<or> (?mx, True) \<in> downstream snaps D i)"
    by (simp add: local_detail_def Let_def mx_below_def)
  have e: "chain_effort snaps (i # c) = ?e + chain_effort snaps c" for c
    by (simp add: chain_effort_def effort_at_def own)
  have est: "estimated_at snaps i \<longleftrightarrow> effort_minutes own \<noteq> None" by (simp add: estimated_at_def own)
  obtain c0 where c0: "chain snaps (i # c0)" "?mx = min usize_max (chain_effort snaps c0)"
    using chain_attains [OF lb own(2)] by blast
  have "chain_effort snaps (i # c) \<le> sat_add ?e ?mx \<or> usize_max \<le> sat_add ?e ?mx" if "chain snaps (i # c)" for c
    using chain_upper [OF lb that] by (auto simp: e sat_add_def)
  moreover have "sat_add ?e ?mx = min usize_max (chain_effort snaps (i # c0))"
    by (simp add: c0(2) e sat_add_saturated)
  moreover have "(effort_minutes own \<noteq> None \<or> (?mx, True) \<in> downstream snaps D i) \<longleftrightarrow>
      (\<exists>c. chain snaps (i # c) \<and> chain_effort snaps (i # c) = sat_add ?e ?mx \<and>
        (\<exists>j \<in> set (i # c). estimated_at snaps j))" (is "_ \<longleftrightarrow> (\<exists>c. ?C c)")
    if lt: "sat_add ?e ?mx < usize_max"
  proof -
    have mx: "?mx < usize_max" "sat_add ?e ?mx = ?e + ?mx" using lt by (auto simp: sat_add_def)
    show ?thesis
    proof (cases "effort_minutes own = None")
      case False
      have "?C c0" using c0 mx False est by (simp add: e min_def split: if_splits)
      with False show ?thesis by blast
    next
      case True
      then have "?C c \<Longrightarrow> \<exists>j r. c = j # r" for c using est by (cases c) auto
      moreover have "?C (j # r) \<longleftrightarrow> chain snaps (i # j # r) \<and> chain_effort snaps (j # r) = ?mx \<and>
          (\<exists>k \<in> set (j # r). estimated_at snaps k)" for j r
        using True est by (simp add: e mx(2))
      ultimately show ?thesis using True chain_flag [OF lb mx(1)] by metis
    qed
  qed
  ultimately show ?thesis using c0(1) unfolding p longest_def by auto
qed

lemma detail_eqs_longest:
  assumes "topological snaps order" "detail_eqs snaps (set order) D" "set order = set (workable_ids snaps)"
    "distinct (map fst snaps)" "i \<in> set order"
  shows "\<exists>pe. D i = Some pe \<and> longest snaps i pe"
  using assms(1,5)
proof (rule topological_induct)
  fix i assume i: "i \<in> set order" and
    ih: "\<And>j. j \<in> set order \<Longrightarrow> j \<in> set (dependents_of snaps i) \<Longrightarrow> \<exists>pe. D j = Some pe \<and> longest snaps j pe"
  have "j \<in> set order" if "j \<in> set (dependents_of snaps i)" for j
    using that assms(3,4) by (auto simp: dependents_of_iff workable_ids_iff)
  with ih have "long_below snaps D i" by (simp add: long_below_def)
  moreover obtain own where "map_of snaps i = Some own" "D i = Some (local_detail snaps D i own)"
    using assms(2) i unfolding detail_eqs_def by blast
  ultimately show "\<exists>pe. D i = Some pe \<and> longest snaps i pe" using longest_step i assms(3) by blast
qed

text \<open>
  C31. On an acyclic snapshot the priority of every workable task is the effort of its longest chain of
  dependents, its own effort included, at the width of the code, and its flag says whether such a
  longest chain holds an explicit estimate. The pass returns and gives nothing for other tasks.
\<close>

theorem critical_path_longest_chain:
  assumes "distinct (map fst snaps)" "acyclic (dep_edges snaps)"
  shows "\<exists>details. critical_path_details snaps = Some details \<and>
    (\<forall>i. case details i of
        Some pe \<Rightarrow> i \<in> set (workable_ids snaps) \<and> longest snaps i pe
      | None \<Rightarrow> i \<notin> set (workable_ids snaps))"
proof -
  obtain order D where o: "closed_order snaps order" "detail_eqs snaps (set order) D"
    "critical_path_details snaps = Some (with_own snaps D)"
    using critical_path_details_spec [OF assms(1)] by blast
  note w = closed_order_acyclic [OF o(1) assms(2,1)]
  have "with_own snaps D = D"
    using o(2) w by (auto simp: detail_eqs_def with_own_def fun_eq_iff split: option.splits)
  moreover have "i \<in> set order \<Longrightarrow> \<exists>pe. D i = Some pe \<and> longest snaps i pe" for i
    using detail_eqs_longest [OF _ o(2) w assms(1)] o(1) by (simp add: closed_order_def)
  moreover have "dom D = set order" using o(2) by (simp add: detail_eqs_def)
  ultimately show ?thesis using o(3) w by (intro exI [of _ D]) (force split: option.splits)
qed

text \<open>Task \<open>b\<close> depends on task \<open>a\<close>, which has an explicit estimate.\<close>

definition demo_snaps :: snaps where
  "demo_snaps =
     [(lit ''a'', \<lparr>status = NotStarted, depends_on = [], conflicts_with = [], live_agent = None,
                effort_minutes = Some 20\<rparr>),
      (lit ''b'', \<lparr>status = NotStarted, depends_on = [lit ''a''], conflicts_with = [], live_agent = None,
                effort_minutes = None\<rparr>)]"

theorem critical_path_longest_chain_witness:
  "\<exists>details pe. critical_path_details demo_snaps = Some details \<and> details (lit ''a'') = Some pe \<and>
     longest demo_snaps (lit ''a'') pe"
proof -
  have d: "distinct (map fst demo_snaps)" by (simp add: demo_snaps_def lit_def)
  have "dep_edges demo_snaps \<subseteq> {(lit ''a'', lit ''b'')}"
    by (auto simp: dep_edges_def dependents_of_def demo_snaps_def split: if_splits)
  moreover have "lit ''a'' \<noteq> lit ''b''" by (simp add: lit_def)
  ultimately have a: "acyclic (dep_edges demo_snaps)"
    by (intro acyclicI_order [where f = "\<lambda>i. if i = lit ''a'' then 1 else (0 :: nat)"]) auto
  have w: "lit ''a'' \<in> set (workable_ids demo_snaps)"
    by (simp add: workable_ids_def demo_snaps_def is_workable_def)
  from critical_path_longest_chain [OF d a] obtain details where
    c: "critical_path_details demo_snaps = Some details"
    and l: "\<forall>i. case details i of Some pe \<Rightarrow> i \<in> set (workable_ids demo_snaps) \<and> longest demo_snaps i pe
      | None \<Rightarrow> i \<notin> set (workable_ids demo_snaps)" by blast
  from spec [OF l, of "lit ''a''"] w c show ?thesis by (auto split: option.splits)
qed

end
