(* ===== verification/Batch.thy ===== *)
theory Batch
  imports CriticalPath "HOL-Library.Product_Lexorder"
begin

text \<open>
  Batch delegation (\<open>intent-services/src/agent_ops/batch.rs\<close>): the classification of every requested
  task as started, held or skipped, the relations annotation and the unlock plan. The lemmas show what
  each disposition means, that the started tasks are ready and free of conflicts with each other and
  with running work, that a task is held only by running or better-placed work, that the result does
  not depend on the iteration order of the maps, and what the unlock plan promises.
\<close>

section \<open>Classification\<close>

definition relations_unknown_ids :: "rtext list \<Rightarrow> snaps \<Rightarrow> rtext list" where
  "relations_unknown_ids requested snaps =
     (let referenced = concat (map (\<lambda>i. case map_of snaps i of
                          Some snap \<Rightarrow> depends_on snap @ conflicts_with snap | None \<Rightarrow> []) requested) in
      filter (\<lambda>i. case map_of snaps i of
                Some s \<Rightarrow> depends_on s = [] \<and> conflicts_with s = [] \<and> i \<notin> set referenced
              | None \<Rightarrow> False) requested)"

datatype BatchDisposition =
    Start
  | HeldOnDeps (hd_unmet: "rtext list") (hd_decision_needed: "rtext list")
  | HeldOnConflict (hc_conflicts_with: "rtext list")
  | SkippedAlreadyRunning (sr_agent_id: rtext) (sr_agent_name: rtext)
  | SkippedComplete
  | SkippedCancelled

text \<open>Neighbour sets are lists without repetition.\<close>

definition add_conflict :: "rtext \<Rightarrow> (rtext \<Rightarrow> rtext list) \<Rightarrow> rtext \<Rightarrow> rtext \<Rightarrow> rtext list" where
  "add_conflict tid m other =
     (let m' = m(tid := List.insert other (m tid)) in m'(other := List.insert tid (m' other)))"

definition conflict_edges :: "snaps \<Rightarrow> rtext \<Rightarrow> rtext list" where
  "conflict_edges snaps =
     foldl (\<lambda>m (tid, snap). foldl (add_conflict tid) m (conflicts_with snap)) (\<lambda>_. []) snaps"

definition is_running :: "BatchTaskSnap \<Rightarrow> bool" where
  "is_running s \<longleftrightarrow> live_agent s \<noteq> None \<and> is_workable (status s)"

definition running_ids :: "snaps \<Rightarrow> rtext list" where
  "running_ids snaps = map fst (filter (\<lambda>(_, s). is_running s) snaps)"

definition unmet_deps :: "snaps \<Rightarrow> BatchTaskSnap \<Rightarrow> rtext list" where
  "unmet_deps snaps snap =
     filter (\<lambda>dep. map_option status (map_of snaps dep) \<noteq> Some Complete) (depends_on snap)"

definition decision_needed :: "snaps \<Rightarrow> rtext list \<Rightarrow> rtext list" where
  "decision_needed snaps unmet =
     filter (\<lambda>dep. case map_of snaps dep of Some d \<Rightarrow> status d = Cancelled | None \<Rightarrow> True) unmet"

definition fixed_disposition :: "snaps \<Rightarrow> BatchTaskSnap \<Rightarrow> BatchDisposition option" where
  "fixed_disposition snaps snap =
     (case status snap of
        Complete \<Rightarrow> Some SkippedComplete
      | Cancelled \<Rightarrow> Some SkippedCancelled
      | _ \<Rightarrow>
          (case live_agent snap of
             Some (agent_id, agent_name) \<Rightarrow> Some (SkippedAlreadyRunning agent_id agent_name)
           | None \<Rightarrow>
               (let unmet = unmet_deps snaps snap in
                if unmet = [] then None
                else Some (HeldOnDeps unmet (decision_needed snaps unmet)))))"

fun first_pass :: "snaps \<Rightarrow> rtext list \<Rightarrow> rtext list \<Rightarrow> (rtext \<times> BatchDisposition option) list" where
  "first_pass snaps seen [] = []"
| "first_pass snaps seen (tid # ids) =
     (if tid \<in> set seen then first_pass snaps seen ids
      else (case map_of snaps tid of
              None \<Rightarrow> first_pass snaps (tid # seen) ids
            | Some snap \<Rightarrow> (tid, fixed_disposition snaps snap) # first_pass snaps (tid # seen) ids))"

definition startable_ids :: "(rtext \<times> BatchDisposition option) list \<Rightarrow> rtext list" where
  "startable_ids out = map fst (filter (\<lambda>(_, d). d = None) out)"

definition priority_of :: "(rtext \<rightharpoonup> nat) \<Rightarrow> rtext \<Rightarrow> nat" where
  "priority_of priorities i = (case priorities i of Some p \<Rightarrow> p | None \<Rightarrow> 0)"

text \<open>Descending priority, then more dependents, then less effort, then the id.\<close>

definition admission_key :: "snaps \<Rightarrow> (rtext \<rightharpoonup> nat) \<Rightarrow> rtext \<Rightarrow> int \<times> int \<times> nat \<times> rtext" where
  "admission_key snaps priorities i =
     (- int (priority_of priorities i), - int (length (dependent_edges snaps i)), effort_at snaps i, i)"

fun admit :: "(rtext \<Rightarrow> rtext list) \<Rightarrow> rtext list \<Rightarrow> rtext list \<Rightarrow> rtext list \<Rightarrow> rtext list \<times> rtext list" where
  "admit conflicts [] active held = (active, held)"
| "admit conflicts (tid # ids) active held =
     (if list_ex (\<lambda>n. n \<in> set active) (conflicts tid)
      then admit conflicts ids active (tid # held)
      else admit conflicts ids (tid # active) held)"

definition final_disposition ::
    "(rtext \<Rightarrow> rtext list) \<Rightarrow> rtext list \<Rightarrow> rtext list \<Rightarrow> rtext \<Rightarrow> BatchDisposition option \<Rightarrow> BatchDisposition" where
  "final_disposition conflicts active held tid d =
     (case d of
        Some d' \<Rightarrow> d'
      | None \<Rightarrow>
          if tid \<in> set held
          then HeldOnConflict (sort (filter (\<lambda>n. n \<in> set active) (conflicts tid)))
          else Start)"

definition classify_batch_tasks :: "rtext list \<Rightarrow> snaps \<Rightarrow> (rtext \<times> BatchDisposition) list option" where
  "classify_batch_tasks requested snaps =
     (let conflicts = conflict_edges snaps;
          out = first_pass snaps [] requested in
      case critical_path_priorities snaps of
        None \<Rightarrow> None
      | Some priorities \<Rightarrow>
          (let startable = sort_key (admission_key snaps priorities) (startable_ids out) in
           case admit conflicts startable (running_ids snaps) [] of
             (active, held) \<Rightarrow>
               Some (map (\<lambda>(tid, d). (tid, final_disposition conflicts active held tid d)) out)))"

definition settle :: "rtext list \<Rightarrow> rtext \<times> BatchTaskSnap \<Rightarrow> rtext \<times> BatchTaskSnap" where
  "settle started e =
     (case e of (tid, snap) \<Rightarrow>
        let running = live_agent snap \<noteq> None \<and> \<not> (status snap = Complete \<or> status snap = Cancelled) in
        if tid \<in> set started \<or> running then (tid, snap\<lparr>status := Complete, live_agent := None\<rparr>)
        else (tid, snap))"

fun is_held :: "BatchDisposition \<Rightarrow> bool" where
  "is_held (HeldOnDeps _ _) \<longleftrightarrow> True"
| "is_held (HeldOnConflict _) \<longleftrightarrow> True"
| "is_held _ \<longleftrightarrow> False"

definition project_unlock_plan ::
    "(rtext \<times> BatchDisposition) list \<Rightarrow> snaps \<Rightarrow> rtext list \<Rightarrow> rtext list option" where
  "project_unlock_plan classified snaps started =
     (let simulated = map (settle started) snaps;
          held = map fst (filter (\<lambda>(_, d). is_held d) classified) in
      map_option (\<lambda>out. map fst (filter (\<lambda>(_, d). d = Start) out)) (classify_batch_tasks held simulated))"

section \<open>The passes in closed form\<close>

text \<open>First occurrences, in order.\<close>

fun nub :: "'a list \<Rightarrow> 'a list" where
  "nub [] = []"
| "nub (x # xs) = x # filter (\<lambda>y. y \<noteq> x) (nub xs)"

lemma set_nub [simp]: "set (nub xs) = set xs"
  by (induction xs) auto

lemma distinct_nub [simp]: "distinct (nub xs)"
  by (induction xs) auto

lemma first_pass_ids:
  "map fst (first_pass snaps seen ids) = filter (\<lambda>i. i \<notin> set seen \<and> map_of snaps i \<noteq> None) (nub ids)"
proof (induction ids arbitrary: seen)
  case (Cons i ids)
  then show ?case by (auto split: option.splits simp del: map_of_eq_Some_iff intro!: filter_cong)
qed simp

lemma first_pass_entry:
  "(i, d) \<in> set (first_pass snaps seen ids) \<Longrightarrow>
   \<exists>snap. map_of snaps i = Some snap \<and> d = fixed_disposition snaps snap"
  by (induction ids arbitrary: seen) (auto split: option.splits if_splits simp del: map_of_eq_Some_iff)

definition conflicting :: "snaps \<Rightarrow> rtext \<Rightarrow> rtext \<Rightarrow> bool" where
  "conflicting snaps i j \<longleftrightarrow>
     (\<exists>s. map_of snaps i = Some s \<and> j \<in> set (conflicts_with s)) \<or>
     (\<exists>s. map_of snaps j = Some s \<and> i \<in> set (conflicts_with s))"

lemma conflicting_sym: "conflicting snaps i j \<longleftrightarrow> conflicting snaps j i"
  by (auto simp: conflicting_def)

lemma add_conflicts:
  "set (foldl (add_conflict a) m cs i) =
     set (m i) \<union> (if i = a then set cs else {}) \<union> (if i \<in> set cs then {a} else {})"
  by (induction cs arbitrary: m) (auto simp: add_conflict_def Let_def)

lemma add_conflicts_distinct: "distinct (m i) \<Longrightarrow> (\<And>j. distinct (m j)) \<Longrightarrow> distinct (foldl (add_conflict a) m cs i)"
  by (induction cs arbitrary: m) (auto simp: add_conflict_def Let_def)

lemma conflict_edges_fold:
  "set (foldl (\<lambda>m (a, snap). foldl (add_conflict a) m (conflicts_with snap)) m snaps i) =
     set (m i) \<union> {j. \<exists>s. (i, s) \<in> set snaps \<and> j \<in> set (conflicts_with s)} \<union>
     {j. \<exists>s. (j, s) \<in> set snaps \<and> i \<in> set (conflicts_with s)}"
  by (induction snaps arbitrary: m) (auto simp: add_conflicts split: if_splits)

lemma conflict_edges_iff:
  "distinct (map fst snaps) \<Longrightarrow> j \<in> set (conflict_edges snaps i) \<longleftrightarrow> conflicting snaps i j"
  by (auto simp: conflict_edges_def conflict_edges_fold conflicting_def)

lemma conflict_edges_distinct: "distinct (conflict_edges snaps i)"
proof -
  have "\<forall>j. distinct (m j) \<Longrightarrow>
      distinct (foldl (\<lambda>m (a, snap). foldl (add_conflict a) m (conflicts_with snap)) m snaps i)" for m
    by (induction snaps arbitrary: m) (auto simp: add_conflicts_distinct)
  from this [of "\<lambda>_. []"] show ?thesis by (simp add: conflict_edges_def)
qed

lemma push_edges:
  "distinct deps \<Longrightarrow> foldl (push_edge i) m deps d = m d @ (if d \<in> set deps then [i] else [])"
  by (induction deps arbitrary: m) (auto simp: push_edge_def)

lemma dependent_edges_eq:
  "dependent_edges snaps d = map fst (filter (\<lambda>(i, s). is_workable (status s) \<and> d \<in> set (depends_on s)) snaps)"
proof -
  have "foldl (\<lambda>m (i, s). if \<not> is_workable (status s) then m else foldl (push_edge i) m (remdups (depends_on s))) m snaps d =
      m d @ map fst (filter (\<lambda>(i, s). is_workable (status s) \<and> d \<in> set (depends_on s)) snaps)" for m
    by (induction snaps arbitrary: m) (auto simp: push_edges split: if_splits)
  from this [of "\<lambda>_. []"] show ?thesis by (simp add: dependent_edges_def)
qed

lemma running_ids_iff:
  "distinct (map fst snaps) \<Longrightarrow> i \<in> set (running_ids snaps) \<longleftrightarrow> (\<exists>s. map_of snaps i = Some s \<and> is_running s)"
  by (force simp: running_ids_def)

lemma admit_spec:
  assumes "admit c ids active held = (A, H)" "distinct ids" "set ids \<inter> set held = {}"
  shows "set A = set active \<union> (set ids - set H) \<and> set H \<subseteq> set held \<union> set ids \<and> set held \<subseteq> set H \<and>
    (\<forall>k < length ids. ids ! k \<in> set H \<longleftrightarrow>
       (\<exists>j \<in> set (c (ids ! k)). j \<in> set active \<or> j \<in> set (take k ids) - set H))"
  using assms
proof (induction ids arbitrary: active held)
  case (Cons i ids)
  let ?b = "list_ex (\<lambda>n. n \<in> set active) (c i)"
  let ?active = "if ?b then active else i # active" and ?held = "if ?b then i # held else held"
  have "admit c ids ?active ?held = (A, H)" using Cons.prems(1) by (simp split: if_splits)
  moreover have "set ids \<inter> set ?held = {}" using Cons.prems by auto
  ultimately have ih: "set A = set ?active \<union> (set ids - set H) \<and> set H \<subseteq> set ?held \<union> set ids \<and> set ?held \<subseteq> set H \<and>
    (\<forall>k < length ids. ids ! k \<in> set H \<longleftrightarrow>
       (\<exists>j \<in> set (c (ids ! k)). j \<in> set ?active \<or> j \<in> set (take k ids) - set H))"
    using Cons.IH Cons.prems(2) by simp
  have i: "i \<in> set H \<longleftrightarrow> ?b" using ih Cons.prems by (auto split: if_splits)
  have "(i # ids) ! k \<in> set H \<longleftrightarrow>
      (\<exists>j \<in> set (c ((i # ids) ! k)). j \<in> set active \<or> j \<in> set (take k (i # ids)) - set H)"
    if "k < length (i # ids)" for k
  proof (cases k)
    case 0
    then show ?thesis using i by (simp add: list_ex_iff)
  next
    case (Suc k')
    with ih that i show ?thesis by (cases ?b) auto
  qed
  moreover have "set A = set active \<union> (set (i # ids) - set H)" using ih i by (cases ?b) auto
  moreover have "set H \<subseteq> set held \<union> set (i # ids)" "set held \<subseteq> set H" using ih by (auto split: if_splits)
  ultimately show ?case by blast
qed simp

section \<open>What a classification promises\<close>

definition task_ready :: "snaps \<Rightarrow> rtext \<Rightarrow> bool" where
  "task_ready snaps i \<longleftrightarrow>
     (case map_of snaps i of
        Some s \<Rightarrow> is_workable (status s) \<and> live_agent s = None \<and>
          (\<forall>dep \<in> set (depends_on s). map_option status (map_of snaps dep) = Some Complete)
      | None \<Rightarrow> False)"

definition task_running :: "snaps \<Rightarrow> rtext \<Rightarrow> bool" where
  "task_running snaps i \<longleftrightarrow> (case map_of snaps i of Some s \<Rightarrow> is_running s | None \<Rightarrow> False)"

lemma fixed_disposition_None:
  "map_of snaps i = Some s \<Longrightarrow> fixed_disposition snaps s = None \<longleftrightarrow> task_ready snaps i"
  by (auto simp: fixed_disposition_def task_ready_def is_workable_def unmet_deps_def filter_empty_conv Let_def
      simp del: map_of_eq_Some_iff split: TaskStatus.splits option.splits)

lemma fixed_disposition_kinds:
  "fixed_disposition snaps s \<noteq> Some Start" "fixed_disposition snaps s \<noteq> Some (HeldOnConflict cs)"
  by (auto simp: fixed_disposition_def Let_def split: TaskStatus.splits option.splits)

lemma first_pass_distinct: "distinct (map fst (first_pass snaps seen ids))"
  by (simp add: first_pass_ids)

lemma startable_iff:
  "i \<in> set (startable_ids (first_pass snaps [] requested)) \<longleftrightarrow> i \<in> set requested \<and> task_ready snaps i"
proof
  assume "i \<in> set (startable_ids (first_pass snaps [] requested))"
  then have e: "(i, None) \<in> set (first_pass snaps [] requested)" by (auto simp: startable_ids_def)
  then have "i \<in> set (map fst (first_pass snaps [] requested))" by force
  then have "i \<in> set requested" unfolding first_pass_ids by simp
  moreover obtain s where "map_of snaps i = Some s" "fixed_disposition snaps s = None"
    using first_pass_entry [OF e] by auto
  ultimately show "i \<in> set requested \<and> task_ready snaps i" using fixed_disposition_None by blast
next
  assume r: "i \<in> set requested \<and> task_ready snaps i"
  then have "i \<in> set (map fst (first_pass snaps [] requested))"
    by (auto simp: first_pass_ids task_ready_def split: option.splits simp del: set_map)
  then obtain d where e: "(i, d) \<in> set (first_pass snaps [] requested)" by force
  with first_pass_entry [OF e] r fixed_disposition_None have "d = None" by metis
  with e show "i \<in> set (startable_ids (first_pass snaps [] requested))"
    by (force simp: startable_ids_def)
qed

lemma startable_distinct: "distinct (startable_ids (first_pass snaps [] requested))"
  unfolding startable_ids_def by (rule distinct_map_fst_filter [OF first_pass_distinct])

text \<open>Admission over the tasks in key order: who is held, and by whom.\<close>

lemma admission_key_inj: "admission_key snaps p i = admission_key snaps p j \<longleftrightarrow> i = j"
  by (auto simp: admission_key_def)

lemma sorted_take_less:
  assumes "sorted (map (admission_key snaps p) xs)" "distinct xs" "k < length xs" "j \<in> set (take k xs)"
  shows "admission_key snaps p j < admission_key snaps p (xs ! k)"
proof -
  obtain m where m: "m < k" "j = xs ! m" using assms(3,4) by (auto simp: in_set_conv_nth)
  then have "admission_key snaps p j \<le> admission_key snaps p (xs ! k)"
    using assms(1,3) by (auto simp: sorted_iff_nth_mono)
  moreover have "j \<noteq> xs ! k" using m assms(2,3) by (auto simp: nth_eq_iff_index_eq)
  ultimately show ?thesis using admission_key_inj [of snaps p j "xs ! k"] by simp
qed

lemma admission_order:
  assumes d: "distinct (map fst snaps)"
    and a: "admit (conflict_edges snaps)
      (sort_key (admission_key snaps p) (startable_ids (first_pass snaps [] requested))) (running_ids snaps) [] = (A, H)"
  obtains xs where "distinct xs" "sorted (map (admission_key snaps p) xs)"
    "\<And>i. i \<in> set requested \<Longrightarrow> task_ready snaps i \<Longrightarrow> \<exists>k < length xs. i = xs ! k"
    "\<And>i. i \<in> set xs \<Longrightarrow> i \<in> set requested \<and> task_ready snaps i"
    "\<And>i. i \<in> set A \<longleftrightarrow> task_running snaps i \<or> (i \<in> set requested \<and> task_ready snaps i \<and> i \<notin> set H)"
    "set H \<subseteq> set xs"
    "\<And>k. k < length xs \<Longrightarrow> xs ! k \<in> set H \<longleftrightarrow> (\<exists>j. conflicting snaps (xs ! k) j \<and>
      (task_running snaps j \<or> j \<in> set (take k xs) - set H))"
proof
  let ?xs = "sort_key (admission_key snaps p) (startable_ids (first_pass snaps [] requested))"
  show xs: "distinct ?xs" using startable_distinct by auto
  have set_xs: "set ?xs = {i. i \<in> set requested \<and> task_ready snaps i}" using startable_iff by auto
  have run: "i \<in> set (running_ids snaps) \<longleftrightarrow> task_running snaps i" for i
    using running_ids_iff [OF d] by (auto simp: task_running_def split: option.splits simp del: map_of_eq_Some_iff)
  note s = admit_spec [OF a xs, simplified]
  show "sorted (map (admission_key snaps p) ?xs)" by simp
  show "\<exists>k < length ?xs. i = ?xs ! k" if "i \<in> set requested" "task_ready snaps i" for i
    using that set_xs by (metis (mono_tags, lifting) in_set_conv_nth mem_Collect_eq)
  show "i \<in> set requested \<and> task_ready snaps i" if "i \<in> set ?xs" for i using that set_xs by blast
  show "i \<in> set A \<longleftrightarrow> task_running snaps i \<or> (i \<in> set requested \<and> task_ready snaps i \<and> i \<notin> set H)" for i
    using s set_xs run by (auto simp: startable_iff)
  show "set H \<subseteq> set ?xs" using s by simp
  show "?xs ! k \<in> set H \<longleftrightarrow> (\<exists>j. conflicting snaps (?xs ! k) j \<and>
      (task_running snaps j \<or> j \<in> set (take k ?xs) - set H))" if "k < length ?xs" for k
    using s that by (auto simp: conflict_edges_iff [OF d] run)
qed

lemma held_by:
  assumes "distinct (map fst snaps)"
    and "admit (conflict_edges snaps)
      (sort_key (admission_key snaps p) (startable_ids (first_pass snaps [] requested))) (running_ids snaps) [] = (A, H)"
    and i: "i \<in> set H"
  shows "i \<in> set requested \<and> task_ready snaps i \<and>
      (\<exists>j. conflicting snaps i j \<and> j \<in> set A \<and>
         (task_running snaps j \<or> admission_key snaps p j < admission_key snaps p i))"
proof (rule admission_order [OF assms(1,2)])
  fix xs
  assume xs: "distinct xs" "sorted (map (admission_key snaps p) xs)"
    and m: "\<And>i. i \<in> set xs \<Longrightarrow> i \<in> set requested \<and> task_ready snaps i"
    and nth: "\<And>i. i \<in> set requested \<Longrightarrow> task_ready snaps i \<Longrightarrow> \<exists>k < length xs. i = xs ! k"
    and A: "\<And>i. i \<in> set A \<longleftrightarrow> task_running snaps i \<or> (i \<in> set requested \<and> task_ready snaps i \<and> i \<notin> set H)"
    and Hs: "set H \<subseteq> set xs" and H: "\<And>k. k < length xs \<Longrightarrow> xs ! k \<in> set H \<longleftrightarrow>
      (\<exists>j. conflicting snaps (xs ! k) j \<and> (task_running snaps j \<or> j \<in> set (take k xs) - set H))"
  have r: "i \<in> set requested" "task_ready snaps i" using i Hs m by auto
  then obtain k where k: "k < length xs" "i = xs ! k" using nth by blast
  with H i obtain j where "conflicting snaps i j" "task_running snaps j \<or> j \<in> set (take k xs) - set H" by auto
  moreover have "j \<in> set (take k xs) \<Longrightarrow> admission_key snaps p j < admission_key snaps p i"
    using sorted_take_less [OF xs(2,1) k(1)] k(2) by simp
  moreover have "j \<in> set (take k xs) \<Longrightarrow> j \<in> set requested \<and> task_ready snaps j"
    using set_take_subset [of k xs] m by blast
  ultimately show ?thesis using r A by blast
qed

lemma admitted_free:
  assumes "distinct (map fst snaps)"
    and "admit (conflict_edges snaps)
      (sort_key (admission_key snaps p) (startable_ids (first_pass snaps [] requested))) (running_ids snaps) [] = (A, H)"
    and i: "i \<in> set requested" "task_ready snaps i" "i \<notin> set H" and c: "conflicting snaps i j" "j \<noteq> i"
  shows "j \<notin> set A"
proof (rule admission_order [OF assms(1,2)], rule notI)
  fix xs
  assume nth: "\<And>i. i \<in> set requested \<Longrightarrow> task_ready snaps i \<Longrightarrow> \<exists>k < length xs. i = xs ! k"
    and A: "\<And>i. i \<in> set A \<longleftrightarrow> task_running snaps i \<or> (i \<in> set requested \<and> task_ready snaps i \<and> i \<notin> set H)"
    and H: "\<And>k. k < length xs \<Longrightarrow> xs ! k \<in> set H \<longleftrightarrow>
      (\<exists>j. conflicting snaps (xs ! k) j \<and> (task_running snaps j \<or> j \<in> set (take k xs) - set H))"
    and "j \<in> set A"
  obtain k where k: "k < length xs" "i = xs ! k" using nth i by blast
  with H i(3) c have nr: "\<not> task_running snaps j" "j \<notin> set (take k xs) - set H" by auto
  with \<open>j \<in> set A\<close> A have j: "j \<in> set requested" "task_ready snaps j" "j \<notin> set H" by auto
  then obtain m where m: "m < length xs" "j = xs ! m" using nth by blast
  have before: "a < b \<Longrightarrow> b < length xs \<Longrightarrow> xs ! a \<in> set (take b xs)" for a b
    by (auto simp: in_set_conv_nth)
  have "k < m" using before [of m k] nr j k m c(2) by (cases m k rule: linorder_cases) auto
  then have "i \<in> set (take m xs) - set H" using before [of k m] k m i(3) by simp
  with H [OF m(1)] m(2) j(3) c(1) conflicting_sym show False by blast
qed

lemma classified_entry:
  "(i, x) \<in> set (map (\<lambda>(i, x). (i, g i x)) (first_pass snaps [] requested)) \<longleftrightarrow>
   i \<in> set requested \<and> (\<exists>s. map_of snaps i = Some s \<and> x = g i (fixed_disposition snaps s))"
proof -
  let ?fp = "first_pass snaps [] requested"
  have "i \<in> set (map fst ?fp) \<longleftrightarrow> i \<in> set requested \<and> map_of snaps i \<noteq> None"
    unfolding first_pass_ids by simp
  then have keys: "(\<exists>y. (i, y) \<in> set ?fp) \<longleftrightarrow> i \<in> set requested \<and> (\<exists>s. map_of snaps i = Some s)"
    by (auto simp: image_iff simp del: map_of_eq_Some_iff) force+
  have vals: "(i, y) \<in> set ?fp \<Longrightarrow> map_of snaps i = Some s \<Longrightarrow> y = fixed_disposition snaps s" for y s
    using first_pass_entry [of i y snaps "[]" requested] by (auto simp del: map_of_eq_Some_iff)
  have "(i, x) \<in> set (map (\<lambda>(i, x). (i, g i x)) ?fp) \<longleftrightarrow> (\<exists>y. (i, y) \<in> set ?fp \<and> x = g i y)" by force
  moreover have "(\<exists>y. (i, y) \<in> set ?fp \<and> x = g i y) \<longleftrightarrow>
      i \<in> set requested \<and> (\<exists>s. map_of snaps i = Some s \<and> x = g i (fixed_disposition snaps s))"
  proof (cases "\<exists>y. (i, y) \<in> set ?fp")
    case True
    then obtain y s where y: "(i, y) \<in> set ?fp" "i \<in> set requested" "map_of snaps i = Some s" using keys by blast
    then have "(\<exists>y. (i, y) \<in> set ?fp \<and> x = g i y) \<longleftrightarrow> x = g i (fixed_disposition snaps s)" using vals by blast
    moreover have "(\<exists>s. map_of snaps i = Some s \<and> x = g i (fixed_disposition snaps s)) \<longleftrightarrow>
        x = g i (fixed_disposition snaps s)" using y(3) by simp
    ultimately show ?thesis using y(2) by blast
  next
    case False
    with keys show ?thesis by blast
  qed
  ultimately show ?thesis by blast
qed

lemma classified_kinds:
  assumes "map_of snaps i = Some s" "i \<in> set H \<longrightarrow> task_ready snaps i"
  shows "final_disposition c A H i (fixed_disposition snaps s) = Start \<longleftrightarrow> task_ready snaps i \<and> i \<notin> set H"
    and "final_disposition c A H i (fixed_disposition snaps s) = HeldOnConflict cs \<longleftrightarrow>
      i \<in> set H \<and> cs = sort (filter (\<lambda>n. n \<in> set A) (c i))"
  using assms fixed_disposition_None [OF assms(1)] fixed_disposition_kinds [of snaps s]
  by (auto simp: final_disposition_def split: option.splits)

lemma classified_meaning:
  assumes d: "distinct (map fst snaps)"
    and a: "admit (conflict_edges snaps)
      (sort_key (admission_key snaps p) (startable_ids (first_pass snaps [] requested))) (running_ids snaps) [] = (A, H)"
    and s: "map_of snaps i = Some s" "i \<in> set requested"
    and x: "x = final_disposition (conflict_edges snaps) A H i (fixed_disposition snaps s)"
  shows "task_ready snaps i \<longleftrightarrow> x = Start \<or> (\<exists>cs. x = HeldOnConflict cs)"
    and "x = Start \<Longrightarrow> conflicting snaps i j \<Longrightarrow> j \<noteq> i \<Longrightarrow> j \<notin> set A"
    and "x = HeldOnConflict cs \<Longrightarrow> sorted cs \<and> distinct cs \<and> set cs = {j. conflicting snaps i j \<and> j \<in> set A} \<and>
      (\<exists>j \<in> set cs. task_running snaps j \<or> admission_key snaps p j < admission_key snaps p i)"
proof -
  have rH: "i \<in> set H \<longrightarrow> task_ready snaps i" using held_by [OF d a] by blast
  note k = classified_kinds [OF s(1) rH, where c = "conflict_edges snaps" and A = A, folded x]
  show "task_ready snaps i \<longleftrightarrow> x = Start \<or> (\<exists>cs. x = HeldOnConflict cs)" using k rH by blast
  show "x = Start \<Longrightarrow> conflicting snaps i j \<Longrightarrow> j \<noteq> i \<Longrightarrow> j \<notin> set A"
    using k(1) admitted_free [OF d a s(2)] by blast
  assume "x = HeldOnConflict cs"
  then have cs: "i \<in> set H" "cs = sort (filter (\<lambda>n. n \<in> set A) (conflict_edges snaps i))" using k(2) by auto
  have "set cs = {j. conflicting snaps i j \<and> j \<in> set A}"
    unfolding cs(2) by (auto simp: conflict_edges_iff [OF d])
  with held_by [OF d a cs(1)] cs(2) conflict_edges_distinct [of snaps i] show "sorted cs \<and> distinct cs \<and>
      set cs = {j. conflicting snaps i j \<and> j \<in> set A} \<and>
      (\<exists>j \<in> set cs. task_running snaps j \<or> admission_key snaps p j < admission_key snaps p i)"
    by auto
qed

lemma started_iff:
  assumes d: "distinct (map fst snaps)"
    and a: "admit (conflict_edges snaps)
      (sort_key (admission_key snaps p) (startable_ids (first_pass snaps [] requested))) (running_ids snaps) [] = (A, H)"
  shows "(j, Start) \<in> set (map (\<lambda>(i, x). (i, final_disposition (conflict_edges snaps) A H i x))
      (first_pass snaps [] requested)) \<longleftrightarrow> j \<in> set requested \<and> task_ready snaps j \<and> j \<notin> set H"
    and "j \<in> set A \<longleftrightarrow> task_running snaps j \<or>
      (j, Start) \<in> set (map (\<lambda>(i, x). (i, final_disposition (conflict_edges snaps) A H i x))
      (first_pass snaps [] requested))"
proof -
  let ?S = "(j, Start) \<in> set (map (\<lambda>(i, x). (i, final_disposition (conflict_edges snaps) A H i x))
      (first_pass snaps [] requested))"
  have rH: "j \<in> set H \<longrightarrow> task_ready snaps j" using held_by [OF d a] by blast
  show S: "?S \<longleftrightarrow> j \<in> set requested \<and> task_ready snaps j \<and> j \<notin> set H"
  proof (cases "map_of snaps j")
    case None
    then show ?thesis unfolding classified_entry by (simp add: task_ready_def)
  next
    case (Some s)
    then show ?thesis unfolding classified_entry
      using classified_kinds(1) [OF Some rH, where c = "conflict_edges snaps" and A = A] by (auto simp del: map_of_eq_Some_iff)
  qed
  show "j \<in> set A \<longleftrightarrow> task_running snaps j \<or> ?S"
    by (rule admission_order [OF d a]) (simp only: S)
qed

lemma classify_schedule_facts:
  assumes d: "distinct (map fst snaps)"
  shows "\<exists>out p. classify_batch_tasks requested snaps = Some out \<and> critical_path_priorities snaps = Some p \<and>
    map fst out = filter (\<lambda>i. map_of snaps i \<noteq> None) (nub requested) \<and>
    (\<forall>(i, x) \<in> set out.
       (task_ready snaps i \<longleftrightarrow> x = Start \<or> (\<exists>cs. x = HeldOnConflict cs)) \<and>
       (x = Start \<longrightarrow> (\<forall>j. conflicting snaps i j \<and> j \<noteq> i \<longrightarrow> \<not> task_running snaps j \<and> (j, Start) \<notin> set out)) \<and>
       (\<forall>cs. x = HeldOnConflict cs \<longrightarrow> sorted cs \<and> distinct cs \<and>
          set cs = {j. conflicting snaps i j \<and> (task_running snaps j \<or> (j, Start) \<in> set out)} \<and>
          (\<exists>j \<in> set cs. task_running snaps j \<or> admission_key snaps p j < admission_key snaps p i)))"
proof -
  obtain p where cp: "critical_path_priorities snaps = Some p"
    using critical_path_details_spec [OF d] by (auto simp: critical_path_priorities_def)
  let ?fp = "first_pass snaps [] requested"
  obtain A H where a: "admit (conflict_edges snaps) (sort_key (admission_key snaps p) (startable_ids ?fp))
      (running_ids snaps) [] = (A, H)" by (metis surj_pair)
  let ?out = "map (\<lambda>(i, x). (i, final_disposition (conflict_edges snaps) A H i x)) ?fp"
  have out: "classify_batch_tasks requested snaps = Some ?out"
    by (simp add: classify_batch_tasks_def cp a)
  note m = classified_meaning [OF d a, unfolded started_iff(2) [OF d a]]
  have keys: "map fst ?out = filter (\<lambda>i. map_of snaps i \<noteq> None) (nub requested)"
    using first_pass_ids [of snaps "[]" requested] by (simp add: comp_def case_prod_unfold)
  show ?thesis
  proof (intro exI conjI ballI, rule out, rule cp, rule keys, rule case_prodI2)
    fix ix i x assume "ix \<in> set ?out" "ix = (i, x)"
    then obtain s where s: "map_of snaps i = Some s" "i \<in> set requested"
      "x = final_disposition (conflict_edges snaps) A H i (fixed_disposition snaps s)"
      using classified_entry [where g = "final_disposition (conflict_edges snaps) A H"] by blast
    show "(task_ready snaps i \<longleftrightarrow> x = Start \<or> (\<exists>cs. x = HeldOnConflict cs)) \<and>
       (x = Start \<longrightarrow> (\<forall>j. conflicting snaps i j \<and> j \<noteq> i \<longrightarrow> \<not> task_running snaps j \<and> (j, Start) \<notin> set ?out)) \<and>
       (\<forall>cs. x = HeldOnConflict cs \<longrightarrow> sorted cs \<and> distinct cs \<and>
          set cs = {j. conflicting snaps i j \<and> (task_running snaps j \<or> (j, Start) \<in> set ?out)} \<and>
          (\<exists>j \<in> set cs. task_running snaps j \<or> admission_key snaps p j < admission_key snaps p i))"
      using m(1) [OF s] m(2) [OF s] m(3) [OF s] by fast
  qed
qed

text \<open>
  C30. Batch delegation is a sound list schedule. Every requested task of the snapshot gets one
  disposition, in request order without repetition. A started task is workable, has no live agent, has
  all its dependencies complete and conflicts with no running task and no other started one. A task
  held on conflicts is ready too, the tasks it reports are exactly the running and started ones it
  conflicts with, and one of them is running or precedes it in the documented priority order.
\<close>

theorem classify_batch_schedule:
  assumes d: "distinct (map fst snaps)"
  shows "\<exists>out p. classify_batch_tasks requested snaps = Some out \<and> critical_path_priorities snaps = Some p \<and>
    map fst out = filter (\<lambda>i. map_of snaps i \<noteq> None) (nub requested) \<and>
    (\<forall>(i, x) \<in> set out.
       (task_ready snaps i \<longleftrightarrow> x = Start \<or> (\<exists>cs. x = HeldOnConflict cs)) \<and>
       (x = Start \<longrightarrow> (\<forall>j. conflicting snaps i j \<and> j \<noteq> i \<longrightarrow> \<not> task_running snaps j \<and> (j, Start) \<notin> set out)) \<and>
       (\<forall>cs. x = HeldOnConflict cs \<longrightarrow> sorted cs \<and> distinct cs \<and>
          set cs = {j. conflicting snaps i j \<and> (task_running snaps j \<or> (j, Start) \<in> set out)} \<and>
          (\<exists>j \<in> set cs. task_running snaps j \<or> admission_key snaps p j < admission_key snaps p i)))"
  by (rule classify_schedule_facts [OF d])

theorem classify_batch_schedule_witness:
  "\<exists>out. classify_batch_tasks [lit ''b'', lit ''a'', lit ''b''] demo_snaps = Some out \<and>
     map fst out = [lit ''b'', lit ''a'']"
proof -
  have d: "distinct (map fst demo_snaps)" by (simp add: demo_snaps_def lit_def)
  show ?thesis using classify_batch_schedule [OF d, of "[lit ''b'', lit ''a'', lit ''b'']"]
    by (auto simp: demo_snaps_def lit_def)
qed

section \<open>Independence of the iteration order\<close>

text \<open>Two listings of the same map.\<close>

definition same_map :: "snaps \<Rightarrow> snaps \<Rightarrow> bool" where
  "same_map snaps snaps' \<longleftrightarrow>
     distinct (map fst snaps) \<and> distinct (map fst snaps') \<and> map_of snaps = map_of snaps'"

lemma same_map_graph:
  assumes "same_map snaps snaps'"
  shows "set (workable_ids snaps) = set (workable_ids snaps')"
    and "set (dependents_of snaps i) = set (dependents_of snaps' i)"
    and "preds snaps = preds snaps'"
proof -
  note m = assms [unfolded same_map_def]
  show w: "set (workable_ids snaps) = set (workable_ids snaps')"
    using m by (auto simp: workable_ids_iff simp del: map_of_eq_Some_iff)
  show e: "set (dependents_of snaps i) = set (dependents_of snaps' i)" for i
    using m w by (auto simp: dependents_of_iff simp del: map_of_eq_Some_iff)
  show "preds snaps = preds snaps'" by (rule ext) (simp add: preds_def e w)
qed

lemma critical_path_order_independent:
  assumes "same_map snaps snaps'"
  shows "critical_path_details snaps = critical_path_details snaps'"
proof -
  note m = assms [unfolded same_map_def] and g = same_map_graph [OF assms]
  obtain order D where o: "closed_order snaps order" "detail_eqs snaps (set order) D"
    "critical_path_details snaps = Some (with_own snaps D)"
    using critical_path_details_spec m by blast
  obtain order' D' where o': "closed_order snaps' order'" "detail_eqs snaps' (set order') D'"
    "critical_path_details snaps' = Some (with_own snaps' D')"
    using critical_path_details_spec m by blast
  have "set order = set order'"
    using closed_order_unique [OF o(1) o'(1) g(1,3)] closed_order_unique [OF o'(1) o(1)] g(1,3) by auto
  then have "D = D'"
    using detail_eqs_unique [OF _ o(2), of snaps' D'] o(1) o'(2) g(2) m by (simp add: closed_order_def)
  moreover have "with_own snaps = with_own snaps'"
    using m g(1) by (intro ext) (simp add: with_own_def split: option.split)
  ultimately show ?thesis using o(3) o'(3) by simp
qed

lemma first_pass_cong:
  assumes e: "map_of snaps = map_of snaps'"
  shows "first_pass snaps seen ids = first_pass snaps' seen ids"
proof -
  have "fixed_disposition snaps s = fixed_disposition snaps' s" for s
    unfolding fixed_disposition_def unmet_deps_def decision_needed_def e ..
  then show ?thesis by (induction ids arbitrary: seen) (simp_all add: e split: option.split)
qed

lemma admission_key_cong:
  assumes "same_map snaps snaps'"
  shows "admission_key snaps p = admission_key snaps' p"
proof
  fix i
  note m = assms [unfolded same_map_def]
  have s: "set (dependent_edges snaps i) = set (dependent_edges snaps' i)"
    if "same_map snaps snaps'" for snaps snaps' :: snaps
    using that by (auto simp: dependent_edges_eq same_map_def image_iff) (metis (no_types, lifting) case_prodI fst_conv map_of_eq_Some_iff)+
  have "distinct (dependent_edges snaps i)" "distinct (dependent_edges snaps' i)"
    using m by (auto simp: dependent_edges_eq intro: distinct_map_fst_filter)
  then have "length (dependent_edges snaps i) = length (dependent_edges snaps' i)"
    using s [OF assms] by (metis distinct_card)
  then show "admission_key snaps p i = admission_key snaps' p i"
    using m by (simp add: admission_key_def effort_at_def)
qed

lemma admit_cong:
  assumes "\<And>i. set (c i) = set (c' i)" "set active = set active'"
  shows "set (fst (admit c ids active held)) = set (fst (admit c' ids active' held)) \<and>
    snd (admit c ids active held) = snd (admit c' ids active' held)"
  using assms(2)
proof (induction ids arbitrary: active active' held)
  case (Cons i ids)
  have "list_ex (\<lambda>n. n \<in> set active) (c i) \<longleftrightarrow> list_ex (\<lambda>n. n \<in> set active') (c' i)"
    using assms(1) Cons.prems by (simp add: list_ex_iff)
  with Cons.IH [of active active' "i # held"] Cons.IH [of "i # active" "i # active'" held] Cons.prems
  show ?case by simp
qed simp

lemma sort_distinct_eq: "distinct xs \<Longrightarrow> distinct ys \<Longrightarrow> set xs = set ys \<Longrightarrow> sort xs = sort ys"
  by (intro sorted_distinct_set_unique) auto

text \<open>
  C32. The classification is a function of the snapshot as a map: whatever order the hash maps are
  walked in, the same request gets the same dispositions, with the same lists in the same order.
\<close>

theorem classify_order_independent:
  assumes "same_map snaps snaps'"
  shows "classify_batch_tasks requested snaps = classify_batch_tasks requested snaps'"
proof -
  note m = assms [unfolded same_map_def]
  let ?c = "conflict_edges snaps" and ?c' = "conflict_edges snaps'" and ?fp = "first_pass snaps [] requested"
  have c: "set (?c i) = set (?c' i)" for i
    using m conflict_edges_iff [of snaps _ i] conflict_edges_iff [of snaps' _ i] by (auto simp: conflicting_def)
  have r: "set (running_ids snaps) = set (running_ids snaps')"
    using m running_ids_iff [of snaps] running_ids_iff [of snaps'] by auto
  have fd: "final_disposition ?c A H i x = final_disposition ?c' A' H i x" if "set A = set A'" for A A' H i x
    using that c conflict_edges_distinct
    by (auto simp: final_disposition_def intro!: sort_distinct_eq split: option.splits)
  have fp: "first_pass snaps' [] requested = ?fp" using m first_pass_cong by metis
  have "critical_path_priorities snaps = critical_path_priorities snaps'"
    using critical_path_order_independent [OF assms] by (simp add: critical_path_priorities_def)
  moreover have "map (\<lambda>(i, x). (i, final_disposition ?c (fst (admit ?c ids (running_ids snaps) [])) (snd (admit ?c ids (running_ids snaps) [])) i x)) ?fp =
      map (\<lambda>(i, x). (i, final_disposition ?c' (fst (admit ?c' ids (running_ids snaps') [])) (snd (admit ?c' ids (running_ids snaps') [])) i x)) ?fp" for ids
    using admit_cong [of ?c ?c', OF c r, of ids "[]"] fd by (intro map_cong refl) auto
  ultimately show ?thesis
    unfolding classify_batch_tasks_def fp admission_key_cong [OF assms] Let_def case_prod_beta
    by (simp add: case_prod_beta split: option.splits)
qed

theorem classify_order_independent_witness:
  "classify_batch_tasks [lit ''b'', lit ''a''] demo_snaps = classify_batch_tasks [lit ''b'', lit ''a''] (rev demo_snaps)"
  by (rule classify_order_independent) (auto simp: same_map_def demo_snaps_def lit_def fun_eq_iff)

section \<open>The unlock plan\<close>

definition settles :: "snaps \<Rightarrow> rtext list \<Rightarrow> rtext \<Rightarrow> bool" where
  "settles snaps started i \<longleftrightarrow> i \<in> set started \<or> task_running snaps i"

text \<open>Ready once the started and running tasks have completed.\<close>

definition ready_after :: "snaps \<Rightarrow> rtext list \<Rightarrow> rtext \<Rightarrow> bool" where
  "ready_after snaps started i \<longleftrightarrow> \<not> settles snaps started i \<and>
     (case map_of snaps i of
        Some s \<Rightarrow> is_workable (status s) \<and>
          (\<forall>dep \<in> set (depends_on s). \<exists>d. map_of snaps dep = Some d \<and> (status d = Complete \<or> settles snaps started dep))
      | None \<Rightarrow> False)"

lemma map_of_settle:
  "map_of (map (settle started) snaps) i = map_option (\<lambda>s. snd (settle started (i, s))) (map_of snaps i)"
  by (induction snaps) (auto simp: settle_def Let_def)

lemma settle_keys: "map fst (map (settle started) snaps) = map fst snaps"
  by (auto simp: settle_def Let_def)

lemma settle_snap:
  assumes "map_of snaps i = Some s"
  shows "snd (settle started (i, s)) =
    (if settles snaps started i then s\<lparr>status := Complete, live_agent := None\<rparr> else s)"
  using assms by (auto simp: settle_def settles_def task_running_def is_running_def is_workable_def Let_def)

lemma settle_running: "\<not> task_running (map (settle started) snaps) i"
  by (auto simp: task_running_def map_of_settle settle_def is_running_def is_workable_def Let_def
      simp del: map_of_eq_Some_iff split: option.splits if_splits)

lemma settle_conflicting: "conflicting (map (settle started) snaps) = conflicting snaps"
proof -
  have c: "conflicts_with (snd (settle started e)) = conflicts_with (snd e)" for e
    by (cases e) (simp add: settle_def Let_def)
  have "(\<exists>s. map_of (map (settle started) snaps) i = Some s \<and> j \<in> set (conflicts_with s)) \<longleftrightarrow>
      (\<exists>s. map_of snaps i = Some s \<and> j \<in> set (conflicts_with s))" for i j
    unfolding map_of_settle using c by (cases "map_of snaps i") simp_all
  then show ?thesis by (intro ext) (simp only: conflicting_def)
qed

lemma settle_ready: "task_ready (map (settle started) snaps) i \<longleftrightarrow> ready_after snaps started i"
proof (cases "map_of snaps i")
  case (Some s)
  have dep: "map_option status (map_of (map (settle started) snaps) d) = Some Complete \<longleftrightarrow>
      (\<exists>t. map_of snaps d = Some t \<and> (status t = Complete \<or> settles snaps started d))" for d
    by (cases "map_of snaps d") (auto simp: map_of_settle settle_snap)
  have live: "live_agent s = None" if "\<not> settles snaps started i" "is_workable (status s)"
    using that Some by (cases "live_agent s") (auto simp: settles_def task_running_def is_running_def)
  show ?thesis
  proof (cases "settles snaps started i")
    case True
    then show ?thesis using Some
      by (simp add: task_ready_def ready_after_def map_of_settle settle_snap is_workable_def)
  next
    case False
    then have "task_ready (map (settle started) snaps) i \<longleftrightarrow> is_workable (status s) \<and> live_agent s = None \<and>
        (\<forall>d \<in> set (depends_on s). map_option status (map_of (map (settle started) snaps) d) = Some Complete)"
      unfolding task_ready_def using Some by (simp add: map_of_settle settle_snap)
    with False Some live show ?thesis unfolding ready_after_def dep by auto
  qed
qed (simp add: task_ready_def ready_after_def map_of_settle)

text \<open>
  C33. The unlock plan holds exactly what settlement releases: distinct held tasks, each ready once
  every started and running task has completed (no missing, cancelled or still open dependency left),
  no two of them in conflict, and every held task that is ready then but not in the plan conflicts
  with one that is.
\<close>

theorem unlock_plan_sound:
  assumes "distinct (map fst snaps)" and "held = set (map fst (filter (\<lambda>(_, d). is_held d) classified))"
  shows "\<exists>plan. project_unlock_plan classified snaps started = Some plan \<and> distinct plan \<and> set plan \<subseteq> held \<and>
    (\<forall>i \<in> set plan. ready_after snaps started i \<and> (\<forall>j \<in> set plan. j \<noteq> i \<longrightarrow> \<not> conflicting snaps i j)) \<and>
    (\<forall>i \<in> held - set plan. ready_after snaps started i \<longrightarrow> (\<exists>j \<in> set plan. conflicting snaps i j))"
proof -
  let ?sim = "map (settle started) snaps" and ?hl = "map fst (filter (\<lambda>(_, d). is_held d) classified)"
  have "distinct (map fst ?sim)" using assms(1) unfolding settle_keys .
  then obtain out p where o: "classify_batch_tasks ?hl ?sim = Some out"
    and k: "map fst out = filter (\<lambda>i. map_of ?sim i \<noteq> None) (nub ?hl)"
    and e: "\<forall>(i, x) \<in> set out. (task_ready ?sim i \<longleftrightarrow> x = Start \<or> (\<exists>cs. x = HeldOnConflict cs)) \<and>
       (x = Start \<longrightarrow> (\<forall>j. conflicting ?sim i j \<and> j \<noteq> i \<longrightarrow> \<not> task_running ?sim j \<and> (j, Start) \<notin> set out)) \<and>
       (\<forall>cs. x = HeldOnConflict cs \<longrightarrow> sorted cs \<and> distinct cs \<and>
          set cs = {j. conflicting ?sim i j \<and> (task_running ?sim j \<or> (j, Start) \<in> set out)} \<and>
          (\<exists>j \<in> set cs. task_running ?sim j \<or> admission_key ?sim p j < admission_key ?sim p i))"
    using classify_schedule_facts [of ?sim ?hl] by blast
  let ?plan = "map fst (filter (\<lambda>(_, d). d = Start) out)"
  have plan: "project_unlock_plan classified snaps started = Some ?plan" by (simp add: project_unlock_plan_def o)
  have ks: "set (map fst out) = {i \<in> held. map_of ?sim i \<noteq> None}" unfolding k assms(2) by auto
  have mem: "i \<in> set ?plan \<longleftrightarrow> (i, Start) \<in> set out" for i by force
  have "distinct ?plan" using k by (intro distinct_map_fst_filter) (metis distinct_filter distinct_nub)
  moreover have "set ?plan \<subseteq> held" using ks by force
  moreover have "ready_after snaps started i" "j \<in> set ?plan \<Longrightarrow> j \<noteq> i \<Longrightarrow> \<not> conflicting snaps i j"
    if "i \<in> set ?plan" for i j
    using bspec [OF e, of "(i, Start)"] that unfolding mem settle_ready settle_conflicting by auto
  moreover have "\<exists>j \<in> set ?plan. conflicting snaps i j"
    if i: "i \<in> held - set ?plan" and r: "ready_after snaps started i" for i
  proof -
    have "map_of ?sim i \<noteq> None" using r by (auto simp: ready_after_def map_of_settle split: option.splits)
    with i ks obtain x where x: "(i, x) \<in> set out" by force
    moreover have "x \<noteq> Start" using x i mem by auto
    ultimately obtain cs where "x = HeldOnConflict cs"
      using bspec [OF e x] r unfolding settle_ready by auto
    then show ?thesis
      using bspec [OF e x] settle_running [of started snaps] unfolding settle_conflicting Bex_def mem by auto
  qed
  ultimately show ?thesis using plan by blast
qed

theorem unlock_plan_sound_witness:
  "\<exists>plan. project_unlock_plan [(lit ''b'', HeldOnDeps [lit ''a''] [])] demo_snaps [lit ''a''] = Some plan \<and>
     set plan = {lit ''b''}"
proof -
  have d: "distinct (map fst demo_snaps)" by (simp add: demo_snaps_def lit_def)
  have r: "ready_after demo_snaps [lit ''a''] (lit ''b'')"
    by (simp add: ready_after_def settles_def task_running_def is_running_def is_workable_def demo_snaps_def lit_def)
  show ?thesis
    using unlock_plan_sound [OF d refl, of "[(lit ''b'', HeldOnDeps [lit ''a''] [])]" "[lit ''a'']"] r
    by (auto simp: subset_singleton_iff)
qed

end
