(* ===== verification/ReadyDelta.thy ===== *)
theory ReadyDelta
  imports Batch Json
begin

text \<open>
  The ready-set delta of a batch of completions (\<open>intent-services/src/agent_ops/ready_delta.rs\<close>): the
  trigger stamps on wake metadata and recorded group events, their readers, and the rows of the delta.
  The lemmas show that the stamps read back, that batches coalesce to the first occurrences of their
  triggers, and that a row appears exactly for a task that is ready now because of a trigger, with the
  reason that held it before. Rendering the section is left to the harness.
\<close>

section \<open>Trigger stamps\<close>

definition UNBLOCKED_TRIGGER_TASKS_KEY :: string where
  "UNBLOCKED_TRIGGER_TASKS_KEY = ''unblockedTriggerTasks''"

definition EVENT_TRIGGER_TASK_KEY :: string where
  "EVENT_TRIGGER_TASK_KEY = ''unblockedTriggerTask''"

definition trigger_obj :: "rtext \<times> rtext \<Rightarrow> json" where
  "trigger_obj p = (case p of (ws, i) \<Rightarrow> JObj [(''workspaceId'', JStr ws), (''taskNoteId'', JStr i)])"

definition stamp_trigger_tasks :: "json \<Rightarrow> (rtext \<times> rtext) list \<Rightarrow> json" where
  "stamp_trigger_tasks metadata triggers =
     (if triggers = [] then metadata
      else json_insert UNBLOCKED_TRIGGER_TASKS_KEY (JArr (map trigger_obj triggers)) metadata)"

definition stamp_event_trigger_tasks :: "json \<Rightarrow> (rtext \<times> rtext) list \<Rightarrow> json" where
  "stamp_event_trigger_tasks data pairs =
     (if pairs = [] then data
      else json_insert EVENT_TRIGGER_TASK_KEY (JArr (map trigger_obj pairs)) data)"

definition pair_of :: "json \<Rightarrow> (rtext \<times> rtext) option" where
  "pair_of t =
     (case get_str t ''workspaceId'' of
        None \<Rightarrow> None
      | Some ws \<Rightarrow> (case get_str t ''taskNoteId'' of None \<Rightarrow> None | Some i \<Rightarrow> Some (ws, i)))"

definition event_trigger_tasks :: "json \<Rightarrow> (rtext \<times> rtext) list" where
  "event_trigger_tasks data =
     (case json_get data EVENT_TRIGGER_TASK_KEY of
        Some (JArr arr) \<Rightarrow> List.map_filter pair_of arr
      | Some t \<Rightarrow> (case pair_of t of Some p \<Rightarrow> [p] | None \<Rightarrow> [])
      | None \<Rightarrow> [])"

definition metadata_has_triggers :: "json option \<Rightarrow> bool" where
  "metadata_has_triggers metadata =
     (case Option.bind (Option.bind metadata (\<lambda>md. json_get md UNBLOCKED_TRIGGER_TASKS_KEY)) as_array of
        Some a \<Rightarrow> a \<noteq> []
      | None \<Rightarrow> False)"

fun collect_entries :: "json list \<Rightarrow> (rtext \<times> rtext) list \<Rightarrow> (rtext \<times> rtext) list" where
  "collect_entries [] out = out"
| "collect_entries (t # arr) out =
     (case pair_of t of
        None \<Rightarrow> collect_entries arr out
      | Some pair \<Rightarrow> collect_entries arr (if pair \<in> set out then out else out @ [pair]))"

text \<open>The set of pairs seen so far is the set of pairs already collected.\<close>

fun collect_from :: "json option list \<Rightarrow> (rtext \<times> rtext) list \<Rightarrow> (rtext \<times> rtext) list" where
  "collect_from [] out = out"
| "collect_from (None # mds) out = collect_from mds out"
| "collect_from (Some md # mds) out =
     (case Option.bind (json_get md UNBLOCKED_TRIGGER_TASKS_KEY) as_array of
        None \<Rightarrow> collect_from mds out
      | Some arr \<Rightarrow> collect_from mds (collect_entries arr out))"

definition collect_trigger_tasks :: "json option list \<Rightarrow> (rtext \<times> rtext) list" where
  "collect_trigger_tasks metadatas = collect_from metadatas []"

section \<open>The delta\<close>

datatype UnblockedReason = DepsSatisfied | ConflictCleared

record UnblockedTask =
  ut_note_id :: rtext
  ut_title :: rtext
  ut_reason :: UnblockedReason
  ut_attention :: "TaskStatus option"

definition classify_one :: "rtext \<Rightarrow> snaps \<Rightarrow> BatchDisposition option option" where
  "classify_one i snaps =
     map_option (\<lambda>out. case out of [] \<Rightarrow> None | (_, x) # _ \<Rightarrow> Some x) (classify_batch_tasks [i] snaps)"

definition in_flight :: "rtext list \<Rightarrow> rtext \<times> BatchTaskSnap \<Rightarrow> rtext \<times> BatchTaskSnap" where
  "in_flight triggers e =
     (case e of (i, snap) \<Rightarrow>
        if i \<in> set triggers
        then (i, snap\<lparr>status := InProgress, live_agent := Some (lit ''trigger'', lit ''trigger'')\<rparr>)
        else (i, snap))"

definition attention_of :: "TaskStatus \<Rightarrow> TaskStatus option" where
  "attention_of st =
     (if st = Waiting \<or> st = DiscussionNeeded \<or> st = Blocked \<or> st = ReviewRequired then Some st else None)"

text \<open>One task of the snapshot; the outer option is a panic of the classification.\<close>

definition delta_row ::
    "rtext list \<Rightarrow> snaps \<Rightarrow> snaps \<Rightarrow> (rtext \<rightharpoonup> rtext) \<Rightarrow> rtext \<times> BatchTaskSnap \<Rightarrow> UnblockedTask option option" where
  "delta_row triggers snaps before titles e =
     (case e of (i, snap) \<Rightarrow>
        if i \<in> set triggers then Some None
        else if status snap = Complete \<or> status snap = Cancelled \<or> status snap = InProgress \<or> live_agent snap \<noteq> None
        then Some None
        else
          (case classify_one i snaps of
             None \<Rightarrow> None
           | Some now \<Rightarrow>
               if now \<noteq> Some Start then Some None
               else
                 (case classify_one i before of
                    None \<Rightarrow> None
                  | Some was \<Rightarrow>
                      (let row = (\<lambda>reason. \<lparr>ut_note_id = i,
                             ut_title = (case titles i of Some t \<Rightarrow> t | None \<Rightarrow> i),
                             ut_reason = reason, ut_attention = attention_of (status snap)\<rparr>) in
                       Some (case was of
                               Some (HeldOnDeps _ _) \<Rightarrow> Some (row DepsSatisfied)
                             | Some (HeldOnConflict _) \<Rightarrow> Some (row ConflictCleared)
                             | _ \<Rightarrow> None)))))"

fun delta_rows ::
    "rtext list \<Rightarrow> snaps \<Rightarrow> snaps \<Rightarrow> (rtext \<rightharpoonup> rtext) \<Rightarrow> snaps \<Rightarrow> UnblockedTask list option" where
  "delta_rows triggers snaps before titles [] = Some []"
| "delta_rows triggers snaps before titles (e # es) =
     (case delta_row triggers snaps before titles e of
        None \<Rightarrow> None
      | Some r \<Rightarrow>
          (case delta_rows triggers snaps before titles es of
             None \<Rightarrow> None
           | Some rows \<Rightarrow> Some ((case r of Some u \<Rightarrow> [u] | None \<Rightarrow> []) @ rows)))"

definition row_key :: "UnblockedTask \<Rightarrow> rtext \<times> rtext" where
  "row_key u = (ut_title u, ut_note_id u)"

definition ready_set_delta :: "rtext list \<Rightarrow> snaps \<Rightarrow> (rtext \<rightharpoonup> rtext) \<Rightarrow> UnblockedTask list option" where
  "ready_set_delta trigger_completions snaps titles =
     (let triggers = filter (\<lambda>i. map_option status (map_of snaps i) = Some Complete) trigger_completions in
      if triggers = [] then Some []
      else map_option (sort_key row_key)
             (delta_rows triggers snaps (map (in_flight triggers) snaps) titles snaps))"

section \<open>Stamps read back\<close>

lemma pair_of_trigger [simp]: "pair_of (trigger_obj p) = Some p"
  by (cases p) (simp add: pair_of_def trigger_obj_def get_str_def)

lemma nub_append: "nub (xs @ ys) = nub xs @ filter (\<lambda>y. y \<notin> set xs) (nub ys)"
  by (induction xs) (auto simp: filter_filter conj_commute intro!: filter_cong)

lemma nub_distinct: "distinct xs \<Longrightarrow> nub xs = xs"
  by (induction xs) (auto simp: filter_id_conv)

lemma collect_entries_nub: "distinct out \<Longrightarrow> collect_entries (map trigger_obj ts) out = nub (out @ ts)"
proof (induction ts arbitrary: out)
  case Nil
  then show ?case by (simp add: nub_distinct)
next
  case (Cons t ts)
  show ?case
  proof (cases "t \<in> set out")
    case True
    with Cons show ?thesis by (auto simp: nub_append intro!: filter_cong)
  next
    case False
    with Cons.IH [of "out @ [t]"] Cons.prems show ?thesis by simp
  qed
qed

lemma collect_from_nub:
  assumes "distinct out" "\<And>m ts. (m, ts) \<in> set batch \<Longrightarrow> ts \<noteq> []"
  shows "collect_from (map (\<lambda>(m, ts). Some (stamp_trigger_tasks (JObj m) ts)) batch) out = nub (out @ concat (map snd batch))"
  using assms
proof (induction batch arbitrary: out)
  case Nil
  then show ?case by (simp add: nub_distinct)
next
  case (Cons b batch)
  obtain m ts where b: "b = (m, ts)" by (cases b)
  with Cons.prems have "ts \<noteq> []" by auto
  moreover have "nub (nub (out @ ts) @ c) = nub (out @ ts @ c)" for c
    by (simp add: nub_append nub_distinct filter_filter conj_commute) (auto intro!: filter_cong)
  moreover have "collect_from (map (\<lambda>(m, ts). Some (stamp_trigger_tasks (JObj m) ts)) batch) (nub (out @ ts)) =
      nub (nub (out @ ts) @ concat (map snd batch))"
    using Cons.prems(2) by (intro Cons.IH) auto
  moreover have "json_get (stamp_trigger_tasks (JObj m) ts) UNBLOCKED_TRIGGER_TASKS_KEY = Some (JArr (map trigger_obj ts))"
    using \<open>ts \<noteq> []\<close> by (simp add: stamp_trigger_tasks_def)
  ultimately show ?case using Cons.prems(1) by (simp add: b collect_entries_nub)
qed

text \<open>
  C35. Trigger stamps read back: what was stamped on an event object is what its reader returns, and a
  batch of stamped wakes collects to the first occurrences of their triggers, in order.
\<close>

theorem trigger_stamps_read_back:
  assumes "pairs \<noteq> []" and "\<And>m ts. (m, ts) \<in> set batch \<Longrightarrow> ts \<noteq> []"
  shows "event_trigger_tasks (stamp_event_trigger_tasks (JObj data) pairs) = pairs \<and>
    collect_trigger_tasks (map (\<lambda>(m, ts). Some (stamp_trigger_tasks (JObj m) ts)) batch) = nub (concat (map snd batch)) \<and>
    (\<forall>(m, ts) \<in> set batch. metadata_has_triggers (Some (stamp_trigger_tasks (JObj m) ts)))"
proof -
  have "List.map_filter pair_of (map trigger_obj pairs) = pairs"
    by (induction pairs) (simp_all add: map_filter_simps)
  then have "event_trigger_tasks (stamp_event_trigger_tasks (JObj data) pairs) = pairs"
    using assms(1) by (simp add: event_trigger_tasks_def stamp_event_trigger_tasks_def)
  moreover have "metadata_has_triggers (Some (stamp_trigger_tasks (JObj m) ts))" if "(m, ts) \<in> set batch" for m ts
    using assms(2) [OF that] by (simp add: metadata_has_triggers_def stamp_trigger_tasks_def)
  ultimately show ?thesis
    using collect_from_nub [of "[]" batch] assms(2) by (auto simp: collect_trigger_tasks_def)
qed

theorem trigger_stamps_read_back_witness:
  "event_trigger_tasks (stamp_event_trigger_tasks (JObj []) [(lit ''w'', lit ''t'')]) = [(lit ''w'', lit ''t'')] \<and>
   collect_trigger_tasks [Some (stamp_trigger_tasks (JObj []) [(lit ''w'', lit ''t''), (lit ''w'', lit ''t'')])] =
     [(lit ''w'', lit ''t'')]"
  using trigger_stamps_read_back [of "[(lit ''w'', lit ''t'')]" "[([], [(lit ''w'', lit ''t''), (lit ''w'', lit ''t'')])]" "[]"]
  by simp

section \<open>One task at a time\<close>

lemma classify_fixed:
  assumes "classify_batch_tasks requested snaps = Some out" "(i, x) \<in> set out" "map_of snaps i = Some s"
    "fixed_disposition snaps s = Some y"
  shows "x = y"
proof -
  from assms(1) obtain A H where
    "out = map (\<lambda>(i, x). (i, final_disposition (conflict_edges snaps) A H i x)) (first_pass snaps [] requested)"
    by (auto simp: classify_batch_tasks_def Let_def split: option.splits prod.splits)
  with assms(2) classified_entry [where g = "final_disposition (conflict_edges snaps) A H"]
  obtain s' where "map_of snaps i = Some s'"
    "x = final_disposition (conflict_edges snaps) A H i (fixed_disposition snaps s')" by blast
  with assms(3,4) show ?thesis by (simp add: final_disposition_def)
qed

lemma fixed_HeldOnDeps:
  "(\<exists>u d. fixed_disposition snaps s = Some (HeldOnDeps u d)) \<longleftrightarrow>
   is_workable (status s) \<and> live_agent s = None \<and> fixed_disposition snaps s \<noteq> None"
  by (auto simp: fixed_disposition_def is_workable_def Let_def split: TaskStatus.splits option.splits if_splits)

lemma ready_not_running: "task_ready snaps i \<Longrightarrow> \<not> task_running snaps i"
  by (auto simp: task_ready_def task_running_def is_running_def split: option.splits)

lemma classify_one_spec:
  assumes d: "distinct (map fst snaps)" and s: "map_of snaps i = Some s"
  shows "\<exists>x. classify_one i snaps = Some (Some x) \<and>
    (x = Start \<longleftrightarrow> task_ready snaps i \<and> (\<forall>j. conflicting snaps i j \<longrightarrow> \<not> task_running snaps j)) \<and>
    ((\<exists>cs. x = HeldOnConflict cs) \<longleftrightarrow> task_ready snaps i \<and> (\<exists>j. conflicting snaps i j \<and> task_running snaps j)) \<and>
    ((\<exists>u n. x = HeldOnDeps u n) \<longleftrightarrow> is_workable (status s) \<and> live_agent s = None \<and> \<not> task_ready snaps i)"
proof -
  obtain out p where o: "classify_batch_tasks [i] snaps = Some out"
    and k: "map fst out = filter (\<lambda>i. map_of snaps i \<noteq> None) (nub [i])"
    and e: "\<forall>(i, x) \<in> set out. (task_ready snaps i \<longleftrightarrow> x = Start \<or> (\<exists>cs. x = HeldOnConflict cs)) \<and>
       (x = Start \<longrightarrow> (\<forall>j. conflicting snaps i j \<and> j \<noteq> i \<longrightarrow> \<not> task_running snaps j \<and> (j, Start) \<notin> set out)) \<and>
       (\<forall>cs. x = HeldOnConflict cs \<longrightarrow> sorted cs \<and> distinct cs \<and>
          set cs = {j. conflicting snaps i j \<and> (task_running snaps j \<or> (j, Start) \<in> set out)} \<and>
          (\<exists>j \<in> set cs. task_running snaps j \<or> admission_key snaps p j < admission_key snaps p i))"
    using classify_schedule_facts [OF d, of "[i]"] by blast
  obtain x where out: "out = [(i, x)]" using k s by (cases out) auto
  note m = bspec [OF e, of "(i, x)", unfolded out, simplified]
  have r: "task_ready snaps i \<longleftrightarrow> x = Start \<or> (\<exists>cs. x = HeldOnConflict cs)" using m by blast
  have st: "conflicting snaps i j \<Longrightarrow> \<not> task_running snaps j" if "x = Start" for j
    using m r that ready_not_running [of snaps i] by (cases "j = i") auto
  have hc: "\<exists>j. conflicting snaps i j \<and> task_running snaps j" if "x = HeldOnConflict cs" for cs
    using m that by auto
  have hd: "(\<exists>u n. x = HeldOnDeps u n) \<longleftrightarrow> is_workable (status s) \<and> live_agent s = None \<and> \<not> task_ready snaps i"
  proof (cases "fixed_disposition snaps s")
    case None
    then show ?thesis using r fixed_disposition_None [OF s] by auto
  next
    case (Some y)
    then have "x = y" using classify_fixed [OF o _ s Some, of x] out by simp
    with Some fixed_HeldOnDeps [of snaps s] fixed_disposition_None [OF s] show ?thesis by auto
  qed
  have "classify_one i snaps = Some (Some x)" by (simp add: classify_one_def o out)
  with r st hc hd show ?thesis by blast
qed

section \<open>The counterfactual\<close>

lemma in_flight_keys: "map fst (map (in_flight T) snaps) = map fst snaps"
  by (auto simp: in_flight_def)

lemma map_of_in_flight:
  "map_of (map (in_flight T) snaps) i = map_option (\<lambda>s. snd (in_flight T (i, s))) (map_of snaps i)"
  by (induction snaps) (auto simp: in_flight_def)

lemma in_flight_conflicting: "conflicting (map (in_flight T) snaps) = conflicting snaps"
proof -
  have c: "conflicts_with (snd (in_flight T e)) = conflicts_with (snd e)" for e
    by (cases e) (simp add: in_flight_def)
  have "(\<exists>s. map_of (map (in_flight T) snaps) i = Some s \<and> j \<in> set (conflicts_with s)) \<longleftrightarrow>
      (\<exists>s. map_of snaps i = Some s \<and> j \<in> set (conflicts_with s))" for i j
    unfolding map_of_in_flight using c by (cases "map_of snaps i") simp_all
  then show ?thesis by (intro ext) (simp only: conflicting_def)
qed

lemma in_flight_running:
  "task_running (map (in_flight T) snaps) j \<longleftrightarrow> task_running snaps j \<or> (j \<in> set T \<and> map_of snaps j \<noteq> None)"
  by (auto simp: task_running_def map_of_in_flight in_flight_def is_running_def is_workable_def
      simp del: map_of_eq_Some_iff split: option.splits)

lemma in_flight_ready:
  assumes "map_of snaps i = Some s" "i \<notin> set T"
  shows "task_ready (map (in_flight T) snaps) i \<longleftrightarrow> task_ready snaps i \<and> set (depends_on s) \<inter> set T = {}"
proof -
  have "map_option status (map_of (map (in_flight T) snaps) d) = Some Complete \<longleftrightarrow>
      map_option status (map_of snaps d) = Some Complete \<and> d \<notin> set T" for d
    by (cases "map_of snaps d") (auto simp: map_of_in_flight in_flight_def)
  then show ?thesis using assms by (auto simp: task_ready_def map_of_in_flight in_flight_def)
qed

text \<open>Ready now and nobody is on it.\<close>

definition ready_now :: "snaps \<Rightarrow> rtext \<Rightarrow> bool" where
  "ready_now snaps i \<longleftrightarrow> task_ready snaps i \<and> map_option status (map_of snaps i) \<noteq> Some InProgress \<and>
     (\<forall>j. conflicting snaps i j \<longrightarrow> \<not> task_running snaps j)"

definition held_before :: "snaps \<Rightarrow> rtext list \<Rightarrow> rtext \<Rightarrow> UnblockedReason option" where
  "held_before snaps T i =
     (if \<exists>s. map_of snaps i = Some s \<and> set (depends_on s) \<inter> set T \<noteq> {} then Some DepsSatisfied
      else if \<exists>t \<in> set T. conflicting snaps i t then Some ConflictCleared else None)"

definition unblocked_row :: "snaps \<Rightarrow> (rtext \<rightharpoonup> rtext) \<Rightarrow> rtext \<Rightarrow> UnblockedReason \<Rightarrow> UnblockedTask" where
  "unblocked_row snaps titles i reason =
     \<lparr>ut_note_id = i, ut_title = (case titles i of Some t \<Rightarrow> t | None \<Rightarrow> i), ut_reason = reason,
      ut_attention = Option.bind (map_of snaps i) (\<lambda>s. attention_of (status s))\<rparr>"

lemma delta_row_spec:
  assumes d: "distinct (map fst snaps)" and s: "map_of snaps i = Some s"
    and T: "\<And>t. t \<in> set T \<Longrightarrow> map_option status (map_of snaps t) = Some Complete"
  shows "delta_row T snaps (map (in_flight T) snaps) titles (i, s) =
    Some (if ready_now snaps i then map_option (unblocked_row snaps titles i) (held_before snaps T i) else None)"
proof -
  let ?b = "map (in_flight T) snaps"
  obtain x where x: "classify_one i snaps = Some (Some x)"
    "x = Start \<longleftrightarrow> task_ready snaps i \<and> (\<forall>j. conflicting snaps i j \<longrightarrow> \<not> task_running snaps j)"
    using classify_one_spec [OF d s] by blast
  show ?thesis
  proof (cases "ready_now snaps i")
    case False
    then have "x \<noteq> Start \<or> status s = InProgress" using x(2) s unfolding ready_now_def by auto
    with False show ?thesis by (auto simp: delta_row_def x(1))
  next
    case True
    then have nT: "i \<notin> set T" using s T [of i] by (auto simp: ready_now_def task_ready_def is_workable_def)
    have st: "x = Start" "is_workable (status s)" "status s \<noteq> InProgress" "live_agent s = None"
      using True x s by (auto simp: ready_now_def task_ready_def)
    have bs: "map_of ?b i = Some s" using s nT by (simp add: map_of_in_flight in_flight_def)
    have db: "distinct (map fst ?b)" using d unfolding in_flight_keys .
    obtain y where y: "classify_one i ?b = Some (Some y)"
      "(\<exists>cs. y = HeldOnConflict cs) \<longleftrightarrow> task_ready ?b i \<and> (\<exists>j. conflicting ?b i j \<and> task_running ?b j)"
      "(\<exists>u n. y = HeldOnDeps u n) \<longleftrightarrow> is_workable (status s) \<and> live_agent s = None \<and> \<not> task_ready ?b i"
      using classify_one_spec [OF db bs] by blast
    have deps: "(\<exists>u n. y = HeldOnDeps u n) \<longleftrightarrow> set (depends_on s) \<inter> set T \<noteq> {}"
      using y(3) st in_flight_ready [OF s nT] True by (auto simp: ready_now_def)
    have conf: "(\<exists>cs. y = HeldOnConflict cs) \<longleftrightarrow> set (depends_on s) \<inter> set T = {} \<and> (\<exists>t \<in> set T. conflicting snaps i t)"
      using y(2) in_flight_ready [OF s nT] True T unfolding in_flight_conflicting in_flight_running
      by (auto simp: ready_now_def) fastforce
    show ?thesis using True st nT y(1) x(1) deps conf s
      by (cases y) (auto simp: delta_row_def held_before_def unblocked_row_def is_workable_def Let_def)
  qed
qed

lemma delta_rows_spec:
  assumes "distinct (map fst snaps)" "set es \<subseteq> set snaps"
    and "\<And>t. t \<in> set T \<Longrightarrow> map_option status (map_of snaps t) = Some Complete"
  shows "delta_rows T snaps (map (in_flight T) snaps) titles es =
    Some (List.map_filter (\<lambda>i. if ready_now snaps i then map_option (unblocked_row snaps titles i) (held_before snaps T i) else None)
      (map fst es))"
  using assms(2)
proof (induction es)
  case (Cons e es)
  obtain i s where e: "e = (i, s)" by (cases e)
  then have "map_of snaps i = Some s" using Cons.prems assms(1) by simp
  from delta_row_spec [OF assms(1) this assms(3)] Cons show ?case
    by (auto simp: e map_filter_simps split: option.splits)
qed (simp add: map_filter_simps)

lemma map_filter_mem: "u \<in> set (List.map_filter f (map fst es)) \<longleftrightarrow> (\<exists>i. i \<in> fst ` set es \<and> f i = Some u)"
  by (force simp: map_filter_def)

lemma unblocked_iff:
  assumes "set ts = T"
  shows "map_of snaps i = Some s \<and>
      (if ready_now snaps i then map_option (unblocked_row snaps titles i) (held_before snaps ts i) else None) = Some u \<longleftrightarrow>
    (\<exists>reason. map_of snaps i = Some s \<and> u = unblocked_row snaps titles i reason \<and> ready_now snaps i \<and>
       reason = (if set (depends_on s) \<inter> T \<noteq> {} then DepsSatisfied else ConflictCleared) \<and>
       (set (depends_on s) \<inter> T \<noteq> {} \<or> (\<exists>t \<in> T. conflicting snaps i t)))"
proof (cases "map_of snaps i = Some s")
  case True
  then show ?thesis by (auto simp: held_before_def assms)
qed simp

text \<open>
  C34. The delta is exactly the readiness the completions explain. With the triggers that are complete
  now, a row appears for a task iff the task is ready now (open, not in progress, no live agent, every
  dependency complete, no conflict with running work) and would not be with the triggers still in
  flight: it depends on one of them (reported as satisfied dependencies) or else conflicts with one
  (reported as a cleared conflict). One row per task, sorted by title and id.
\<close>

theorem ready_set_delta_exact:
  assumes "distinct (map fst snaps)"
    and "T = {t \<in> set completions. map_option status (map_of snaps t) = Some Complete}"
  shows "\<exists>rows. ready_set_delta completions snaps titles = Some rows \<and>
    sorted (map row_key rows) \<and> distinct (map ut_note_id rows) \<and>
    (\<forall>u. u \<in> set rows \<longleftrightarrow> (\<exists>i s reason. map_of snaps i = Some s \<and> u = unblocked_row snaps titles i reason \<and> ready_now snaps i \<and>
       reason = (if set (depends_on s) \<inter> T \<noteq> {} then DepsSatisfied else ConflictCleared) \<and>
       (set (depends_on s) \<inter> T \<noteq> {} \<or> (\<exists>t \<in> T. conflicting snaps i t))))"
proof -
  define ts where "ts = filter (\<lambda>i. map_option status (map_of snaps i) = Some Complete) completions"
  let ?f = "\<lambda>i. if ready_now snaps i then map_option (unblocked_row snaps titles i) (held_before snaps ts i) else None"
  let ?rows = "List.map_filter ?f (map fst snaps)"
  have T: "set ts = T" using assms(2) by (auto simp: ts_def)
  have rows: "delta_rows ts snaps (map (in_flight ts) snaps) titles snaps = Some ?rows"
    using assms(1) by (intro delta_rows_spec) (auto simp: ts_def)
  have hb: "held_before snaps [] i = None" for i by (simp add: held_before_def)
  have unf: "ready_set_delta completions snaps titles = (if ts = [] then Some []
      else map_option (sort_key row_key) (delta_rows ts snaps (map (in_flight ts) snaps) titles snaps))"
    unfolding ready_set_delta_def ts_def Let_def ..
  have delta: "ready_set_delta completions snaps titles = Some (sort_key row_key ?rows)"
  proof (cases "ts = []")
    case True
    then have "List.map_filter ?f xs = []" for xs by (induction xs) (simp_all add: map_filter_simps hb)
    with True show ?thesis by (simp add: unf)
  next
    case False
    with rows show ?thesis by (simp add: unf)
  qed
  have mem: "u \<in> set ?rows \<longleftrightarrow> (\<exists>i s. map_of snaps i = Some s \<and> ?f i = Some u)" for u
    unfolding map_filter_mem by (metis map_of_eq_None_iff not_None_eq)
  have "map ut_note_id (List.map_filter ?f xs) = filter (\<lambda>i. ?f i \<noteq> None) xs" for xs
    by (induction xs) (auto simp: map_filter_simps unblocked_row_def split: option.splits)
  then have "distinct (map ut_note_id ?rows)" using assms(1) by simp
  then have "distinct (map ut_note_id (sort_key row_key ?rows))"
    by (simp add: distinct_map inj_on_def)
  moreover have "u \<in> set ?rows \<longleftrightarrow> (\<exists>i s reason. map_of snaps i = Some s \<and> u = unblocked_row snaps titles i reason \<and> ready_now snaps i \<and>
       reason = (if set (depends_on s) \<inter> T \<noteq> {} then DepsSatisfied else ConflictCleared) \<and>
       (set (depends_on s) \<inter> T \<noteq> {} \<or> (\<exists>t \<in> T. conflicting snaps i t)))" for u
    unfolding mem by (intro ex_cong1 unblocked_iff T)
  ultimately show ?thesis by (intro exI [of _ "sort_key row_key ?rows"] conjI allI delta) simp_all
qed

text \<open>Task \<open>a\<close> is complete and task \<open>b\<close> depends on it.\<close>

definition demo_done :: snaps where
  "demo_done =
     [(lit ''a'', \<lparr>status = Complete, depends_on = [], conflicts_with = [], live_agent = None,
                effort_minutes = None\<rparr>),
      (lit ''b'', \<lparr>status = NotStarted, depends_on = [lit ''a''], conflicts_with = [], live_agent = None,
                effort_minutes = None\<rparr>)]"

theorem ready_set_delta_exact_witness:
  "\<exists>rows. ready_set_delta [lit ''a''] demo_done Map.empty = Some rows \<and>
     unblocked_row demo_done Map.empty (lit ''b'') DepsSatisfied \<in> set rows"
proof -
  have ab: "lit ''a'' \<noteq> lit ''b''" by (simp add: lit_def)
  have d: "distinct (map fst demo_done)" using ab by (simp add: demo_done_def)
  have b: "map_of demo_done (lit ''b'') = Some \<lparr>status = NotStarted, depends_on = [lit ''a''],
      conflicts_with = [], live_agent = None, effort_minutes = None\<rparr>" using ab by (simp add: demo_done_def)
  have r: "ready_now demo_done (lit ''b'')"
    using ab by (auto simp: ready_now_def task_ready_def is_workable_def conflicting_def demo_done_def split: if_splits)
  have T: "{lit ''a''} = {t \<in> set [lit ''a'']. map_option status (map_of demo_done t) = Some Complete}"
    by (auto simp: demo_done_def)
  obtain rows where rows: "ready_set_delta [lit ''a''] demo_done Map.empty = Some rows" and
    mem: "\<And>u. u \<in> set rows \<longleftrightarrow> (\<exists>i s reason. map_of demo_done i = Some s \<and>
       u = unblocked_row demo_done Map.empty i reason \<and> ready_now demo_done i \<and>
       reason = (if set (depends_on s) \<inter> {lit ''a''} \<noteq> {} then DepsSatisfied else ConflictCleared) \<and>
       (set (depends_on s) \<inter> {lit ''a''} \<noteq> {} \<or> (\<exists>t \<in> {lit ''a''}. conflicting demo_done i t)))"
    using ready_set_delta_exact [OF d T, of Map.empty] by blast
  have "unblocked_row demo_done Map.empty (lit ''b'') DepsSatisfied \<in> set rows"
    unfolding mem by (rule exI [of _ "lit ''b''"], rule exI, rule exI, rule conjI [OF b]) (simp add: r)
  with rows show ?thesis by blast
qed

end
