(* ===== verification/WorkerFrames.thy ===== *)
theory WorkerFrames
  imports Json
begin

text \<open>
  Provider worker reports on the wire (\<open>intent-acp/src/workers.rs\<close>), the provider references they
  are keyed by (\<open>intent-providers/src/config.rs\<close>) and the supported adapters with their text
  sanitising (\<open>intent-services/src/agent_workers.rs\<close>). The lemmas show that the capability request
  merges without touching other metadata and is idempotent, which updates are diverted, and that
  sanitised text is bounded and free of control characters.
\<close>

section \<open>Capability request\<close>

definition JETBRAINS_META_KEY :: string where "JETBRAINS_META_KEY = ''jetbrains''"
definition AIR_META_KEY :: string where "AIR_META_KEY = ''air''"
definition ASYNC_TASKS_CAPABILITY :: string where "ASYNC_TASKS_CAPABILITY = ''asyncTasks''"
definition AIR_EXTENSION_VERSION :: nat where "AIR_EXTENSION_VERSION = 1"

text \<open>The object under a key, with \<open>{}\<close> put in place of an absent or other value.\<close>

definition object_entry :: "jmap \<Rightarrow> string \<Rightarrow> jmap" where
  "object_entry m k = (case map_of m k of Some (JObj inner) \<Rightarrow> inner | _ \<Rightarrow> [])"

definition with_capability :: "json option \<Rightarrow> json" where
  "with_capability capabilities =
     (let cs = (case capabilities of Some (JArr cs) \<Rightarrow> cs | _ \<Rightarrow> []) in
      JArr (if list_ex (\<lambda>c. as_str c = Some (lit ASYNC_TASKS_CAPABILITY)) cs then cs
            else cs @ [JStr (lit ASYNC_TASKS_CAPABILITY)]))"

definition request_async_tasks :: "jmap \<Rightarrow> jmap" where
  "request_async_tasks meta =
     (let jetbrains = object_entry meta JETBRAINS_META_KEY;
          air = object_entry jetbrains AIR_META_KEY;
          air1 = obj_insert ''version'' (jnat AIR_EXTENSION_VERSION) air;
          air2 = obj_insert ''capabilities'' (with_capability (map_of air1 ''capabilities'')) air1 in
      obj_insert JETBRAINS_META_KEY (JObj (obj_insert AIR_META_KEY (JObj air2) jetbrains)) meta)"

section \<open>Routing\<close>

definition WORKER_UPDATES :: "rtext list" where
  "WORKER_UPDATES = [lit ''async_task_spawned'', lit ''async_task_state_update'', lit ''async_task_progress'']"

definition GENUINE_TOOL_FIELDS :: "string list" where
  "GENUINE_TOOL_FIELDS =
     [''status'', ''title'', ''kind'', ''rawInput'', ''rawOutput'', ''content'', ''locations'']"

record WorkerFrame =
  wf_session_id :: "rtext option"
  wf_update :: json
  wf_received_at_ms :: nat

datatype Routing = Worker | Marker | Forward

definition json_index :: "json \<Rightarrow> string \<Rightarrow> json" where
  "json_index v k = (case json_get v k of Some x \<Rightarrow> x | None \<Rightarrow> JNull)"

definition meta_is_backgrounded :: "jmap \<Rightarrow> bool" where
  "meta_is_backgrounded meta \<longleftrightarrow>
     Option.bind (Option.bind (Option.bind (map_of meta JETBRAINS_META_KEY)
       (\<lambda>j. json_get j AIR_META_KEY)) (\<lambda>a. json_get a ASYNC_TASKS_CAPABILITY))
       (\<lambda>t. json_get t ''backgrounded'') = Some (JBool True)"

definition is_backgrounded_marker :: "json \<Rightarrow> bool" where
  "is_backgrounded_marker update \<longleftrightarrow>
     (case Option.bind (json_get update ''_meta'') as_object of Some m \<Rightarrow> meta_is_backgrounded m | None \<Rightarrow> False)"

definition route :: "json \<Rightarrow> Routing" where
  "route params =
     (let update = json_index params ''update'' in
      case get_str update ''sessionUpdate'' of
        None \<Rightarrow> Forward
      | Some kind \<Rightarrow>
          if kind \<in> set WORKER_UPDATES then Worker
          else if kind = lit ''tool_call_update'' \<and> is_backgrounded_marker update \<and>
                  \<not> list_ex (\<lambda>field. json_get update field \<noteq> None) GENUINE_TOOL_FIELDS
          then Marker
          else Forward)"

text \<open>The receipt clock is an argument.\<close>

definition frame :: "nat \<Rightarrow> json \<Rightarrow> WorkerFrame" where
  "frame now params =
     \<lparr>wf_session_id = as_str (json_index params ''sessionId''), wf_update = json_index params ''update'',
      wf_received_at_ms = now\<rparr>"

definition is_control :: "uchar \<Rightarrow> bool" where
  "is_control c \<longleftrightarrow> c \<le> 31 \<or> c = 127"

definition is_wire_id :: "rtext \<Rightarrow> bool" where
  "is_wire_id v \<longleftrightarrow> v \<noteq> [] \<and> str_len v \<le> 256 \<and> \<not> list_ex is_control v"

section \<open>Providers and adapters\<close>

definition PROFILE_BASE_PROVIDERS :: "rtext list" where
  "PROFILE_BASE_PROVIDERS = [lit ''codex'', lit ''claude-code'']"

definition is_profile_char :: "uchar \<Rightarrow> bool" where
  "is_profile_char c \<longleftrightarrow> 97 \<le> c \<and> c \<le> 122 \<or> is_ascii_digit c"

definition split_profile_ref :: "rtext \<Rightarrow> (rtext \<times> rtext) option" where
  "split_profile_ref reference =
     (case split_once 64 reference of
        None \<Rightarrow> None
      | Some (base, pid) \<Rightarrow>
          if base \<in> set PROFILE_BASE_PROVIDERS \<and> pid \<noteq> [] \<and> str_len pid \<le> 32 \<and> is_profile_char (hd pid) \<and>
             list_all (\<lambda>b. is_profile_char b \<or> b = 45) pid
          then Some (base, pid) else None)"

definition base_provider_id :: "rtext \<Rightarrow> rtext" where
  "base_provider_id reference = (case split_profile_ref reference of Some (base, _) \<Rightarrow> base | None \<Rightarrow> reference)"

record Adapter =
  ad_provider :: rtext
  ad_name :: rtext
  ad_version :: rtext
  ad_source :: rtext

text \<open>The last \<open>@\<close> after the first byte; \<open>None\<close> is the build-time panic.\<close>

fun split_spec_at :: "rtext \<Rightarrow> nat \<Rightarrow> (rtext \<times> rtext) option" where
  "split_spec_at spec (Suc (Suc n)) =
     (if spec ! Suc n = 64
      then (if drop (Suc (Suc n)) spec = [] then None
            else Some (take (Suc n) spec, drop (Suc (Suc n)) spec))
      else split_spec_at spec (Suc n))"
| "split_spec_at spec _ = None"

definition split_package_spec :: "rtext \<Rightarrow> (rtext \<times> rtext) option" where
  "split_package_spec spec = split_spec_at spec (length spec)"

definition CODEX_ACP_NPX_PACKAGE :: rtext where
  "CODEX_ACP_NPX_PACKAGE = lit ''@agentclientprotocol/codex-acp@2.5.0''"

definition CLAUDE_AGENT_ACP_NPX_PACKAGE :: rtext where
  "CLAUDE_AGENT_ACP_NPX_PACKAGE = lit ''@agentclientprotocol/claude-agent-acp@0.95.0''"

definition adapter_of :: "rtext \<Rightarrow> rtext \<Rightarrow> rtext \<Rightarrow> Adapter list" where
  "adapter_of provider spec source =
     (case split_package_spec spec of
        Some (name, version) \<Rightarrow> [\<lparr>ad_provider = provider, ad_name = name, ad_version = version, ad_source = source\<rparr>]
      | None \<Rightarrow> [])"

definition SUPPORTED_ADAPTERS :: "Adapter list" where
  "SUPPORTED_ADAPTERS =
     adapter_of (lit ''codex'') CODEX_ACP_NPX_PACKAGE (lit ''codex-air'') @
     adapter_of (lit ''claude-code'') CLAUDE_AGENT_ACP_NPX_PACKAGE (lit ''claude-air'')"

definition adapter_for :: "rtext \<Rightarrow> Adapter option" where
  "adapter_for provider = List.find (\<lambda>a. ad_provider a = base_provider_id provider) SUPPORTED_ADAPTERS"

record AdapterIdentity =
  ai_name :: "rtext option"
  ai_version :: "rtext option"

definition from_initialize :: "json option \<Rightarrow> AdapterIdentity" where
  "from_initialize info =
     (let fld = (\<lambda>k. Option.bind (Option.bind info (\<lambda>i. json_get i k)) as_str) in
      \<lparr>ai_name = fld ''name'', ai_version = fld ''version''\<rparr>)"

fun bounded_from :: "rtext \<Rightarrow> nat \<Rightarrow> rtext \<Rightarrow> rtext" where
  "bounded_from out max_bytes [] = out"
| "bounded_from out max_bytes (x # v) =
     (let c = (if is_control x then 32 else x) in
      if str_len out + len_utf8 c > max_bytes then out else bounded_from (out @ [c]) max_bytes v)"

definition bounded :: "rtext \<Rightarrow> nat \<Rightarrow> rtext" where
  "bounded v max_bytes = bounded_from [] max_bytes v"

definition SUBAGENT_TASK_TYPES :: "rtext list" where
  "SUBAGENT_TASK_TYPES = [lit ''agent'', lit ''local_agent'']"

definition accepted_task_type :: "rtext \<Rightarrow> json option \<Rightarrow> rtext option" where
  "accepted_task_type provider task_type =
     (case Option.bind task_type as_str of
        None \<Rightarrow> None
      | Some s \<Rightarrow>
          (let tt = trim (bounded s 64) in
           if tt = [] \<or> tt \<in> set SUBAGENT_TASK_TYPES then None
           else if base_provider_id provider = lit ''codex'' \<and> tt \<noteq> lit ''shell'' then None
           else Some tt))"

section \<open>The request merges\<close>

definition air_of :: "jmap \<Rightarrow> jmap" where
  "air_of meta = object_entry (object_entry meta JETBRAINS_META_KEY) AIR_META_KEY"

definition capabilities_of :: "jmap \<Rightarrow> json list" where
  "capabilities_of meta = (case map_of (air_of meta) ''capabilities'' of Some (JArr cs) \<Rightarrow> cs | _ \<Rightarrow> [])"

lemma object_entry_insert [simp]: "object_entry (obj_insert k (JObj inner) m) k = inner"
  by (simp add: object_entry_def)

lemma with_capability_twice: "with_capability (Some (with_capability c)) = with_capability c"
  by (auto simp: with_capability_def Let_def split: option.splits json.splits)

lemma with_capability_list:
  "\<exists>cs. with_capability c = JArr cs \<and> JStr (lit ASYNC_TASKS_CAPABILITY) \<in> set cs \<and>
     (cs = (case c of Some (JArr cs) \<Rightarrow> cs | _ \<Rightarrow> []) \<or>
      cs = (case c of Some (JArr cs) \<Rightarrow> cs | _ \<Rightarrow> []) @ [JStr (lit ASYNC_TASKS_CAPABILITY)])"
proof -
  have "list_ex (\<lambda>c. as_str c = Some x) cs \<longleftrightarrow> JStr x \<in> set cs" for x cs
    by (induction cs) (auto elim: as_str.elims)
  then show ?thesis by (auto simp: with_capability_def Let_def)
qed

lemma air_of_request:
  "air_of (request_async_tasks meta) =
     (let air1 = obj_insert ''version'' (jnat AIR_EXTENSION_VERSION) (air_of meta) in
      obj_insert ''capabilities'' (with_capability (map_of air1 ''capabilities'')) air1)"
  by (simp add: air_of_def request_async_tasks_def Let_def)

text \<open>
  C38. The capability request merges: afterwards the AIR metadata carries the version and the
  async-tasks capability after every capability that was there, every other key of the three nested
  objects keeps its value, and repeating the request changes nothing.
\<close>

theorem request_async_tasks_merges:
  "map_of (air_of (request_async_tasks meta)) ''version'' = Some (jnat AIR_EXTENSION_VERSION) \<and>
   (\<exists>cs. map_of (air_of (request_async_tasks meta)) ''capabilities'' = Some (JArr cs) \<and>
      JStr (lit ASYNC_TASKS_CAPABILITY) \<in> set cs \<and>
      (cs = capabilities_of meta \<or> cs = capabilities_of meta @ [JStr (lit ASYNC_TASKS_CAPABILITY)])) \<and>
   (\<forall>k. k \<notin> {''version'', ''capabilities''} \<longrightarrow>
      map_of (air_of (request_async_tasks meta)) k = map_of (air_of meta) k) \<and>
   (\<forall>k. k \<noteq> AIR_META_KEY \<longrightarrow> map_of (object_entry (request_async_tasks meta) JETBRAINS_META_KEY) k =
      map_of (object_entry meta JETBRAINS_META_KEY) k) \<and>
   (\<forall>k. k \<noteq> JETBRAINS_META_KEY \<longrightarrow> map_of (request_async_tasks meta) k = map_of meta k) \<and>
   request_async_tasks (request_async_tasks meta) = request_async_tasks meta"
proof (intro conjI allI impI)
  let ?air1 = "obj_insert ''version'' (jnat AIR_EXTENSION_VERSION) (air_of meta)"
  let ?cs = "with_capability (map_of (air_of meta) ''capabilities'')"
  have air: "air_of (request_async_tasks meta) = obj_insert ''capabilities'' ?cs ?air1"
    by (simp add: air_of_request)
  show "map_of (air_of (request_async_tasks meta)) ''version'' = Some (jnat AIR_EXTENSION_VERSION)"
    by (simp add: air)
  show "\<exists>cs. map_of (air_of (request_async_tasks meta)) ''capabilities'' = Some (JArr cs) \<and>
      JStr (lit ASYNC_TASKS_CAPABILITY) \<in> set cs \<and>
      (cs = capabilities_of meta \<or> cs = capabilities_of meta @ [JStr (lit ASYNC_TASKS_CAPABILITY)])"
    using with_capability_list [of "map_of (air_of meta) ''capabilities''"] by (simp add: air capabilities_of_def)
  show "map_of (air_of (request_async_tasks meta)) k = map_of (air_of meta) k" if "k \<notin> {''version'', ''capabilities''}" for k
    using that by (simp add: air)
  show "map_of (object_entry (request_async_tasks meta) JETBRAINS_META_KEY) k =
      map_of (object_entry meta JETBRAINS_META_KEY) k" if "k \<noteq> AIR_META_KEY" for k
    using that by (simp add: request_async_tasks_def Let_def)
  show "map_of (request_async_tasks meta) k = map_of meta k" if "k \<noteq> JETBRAINS_META_KEY" for k
    using that by (simp add: request_async_tasks_def Let_def)
  show "request_async_tasks (request_async_tasks meta) = request_async_tasks meta"
    by (simp add: request_async_tasks_def Let_def obj_insert_same with_capability_twice)
qed

theorem request_async_tasks_merges_witness:
  "map_of (request_async_tasks [(''intent.callbacks'', jnat 1)]) ''intent.callbacks'' = Some (jnat 1)"
  using request_async_tasks_merges [of "[(''intent.callbacks'', jnat 1)]"] by (simp add: JETBRAINS_META_KEY_def)

section \<open>Sanitised text\<close>

lemma bounded_from_props:
  assumes "str_len out \<le> n" "\<not> list_ex is_control out"
  shows "str_len (bounded_from out n v) \<le> n \<and> \<not> list_ex is_control (bounded_from out n v)"
  using assms by (induction v arbitrary: out) (auto simp: Let_def is_control_def)

lemma bounded_le: "str_len (bounded v n) \<le> n"
  and bounded_clean: "\<not> list_ex is_control (bounded v n)"
  using bounded_from_props [of "[]" n v] by (auto simp: bounded_def)

lemma accepted_task_type_props:
  assumes "accepted_task_type provider j = Some tt"
  shows "tt \<noteq> [] \<and> str_len tt \<le> 64 \<and> \<not> list_ex is_control tt \<and> tt \<notin> set SUBAGENT_TASK_TYPES \<and>
    (base_provider_id provider = lit ''codex'' \<longrightarrow> tt = lit ''shell'')"
proof -
  from assms obtain s where tt: "tt = trim (bounded s 64)" "tt \<noteq> []" "tt \<notin> set SUBAGENT_TASK_TYPES"
    "base_provider_id provider = lit ''codex'' \<longrightarrow> tt = lit ''shell''"
    by (auto simp: accepted_task_type_def Let_def split: option.splits if_splits)
  have "str_len tt \<le> 64" using str_len_trim_le [of "bounded s 64"] bounded_le [of s 64] tt(1) by simp
  moreover have "\<not> list_ex is_control tt"
    using set_trim [of "bounded s 64"] bounded_clean [of s 64] tt(1) by (auto simp: list_ex_iff)
  ultimately show ?thesis using tt by blast
qed

end
