(* ===== verification/WorkerProjection.thy ===== *)
theory WorkerProjection
  imports WorkerFrames Transition
begin

text \<open>
  The provider worker projection (\<open>intent-services/src/agent_workers.rs\<close>): the reported rows of one
  connection generation with its tombstones. The clock is an argument. The lemmas give the invariant
  of a projection (bounds, distinct and tombstoned ids, clean text, ordered times) and that a row only
  ever moves from running to its first terminal report.
\<close>

section \<open>Projections\<close>

definition MAX_ROWS :: nat where "MAX_ROWS = 256"
definition MAX_SEEN :: nat where "MAX_SEEN = 1024"
definition MAX_SAFE_INTEGER :: nat where "MAX_SAFE_INTEGER = 2 ^ 53 - 1"

definition TERMINAL :: "rtext list" where
  "TERMINAL = [lit ''completed'', lit ''failed'', lit ''stopped'']"

datatype Continuity = Continuous | Disconnected | Lost

fun continuity_str :: "Continuity \<Rightarrow> rtext" where
  "continuity_str Continuous = lit ''continuous''"
| "continuity_str Disconnected = lit ''disconnected''"
| "continuity_str Lost = lit ''lost''"

record Row =
  row_async_task_id :: rtext
  row_tool_call_id :: "rtext option"
  row_name :: "rtext option"
  row_task_type :: "rtext option"
  row_can_stop :: bool
  row_first_observed_at :: nat
  row_observed_at :: nat
  row_provider_state :: rtext

definition ended :: "Row \<Rightarrow> bool" where
  "ended r \<longleftrightarrow> row_provider_state r \<in> set TERMINAL"

record Scope =
  scp_workspace_id :: rtext
  scp_agent_id :: rtext
  scp_provider :: rtext
  scp_acp_session_id :: "rtext option"
  scp_connection_generation :: "rtext option"

datatype StopDecision = Decline | ForwardStop (sd_session_id: rtext)

record Projection =
  pr_scope :: Scope
  pr_adapter :: "Adapter option"
  pr_unsupported :: "rtext option"
  pr_continuity :: Continuity
  pr_rows :: "Row list"
  pr_seen :: "rtext list"
  pr_now :: nat
  pr_truncated :: bool
  pr_max_rows :: nat
  pr_max_seen :: nat

definition with_bounds :: "Scope \<Rightarrow> AdapterIdentity \<Rightarrow> bool \<Rightarrow> nat \<Rightarrow> nat \<Rightarrow> Projection" where
  "with_bounds scope identity negotiated max_rows max_seen =
     (let adapter = adapter_for (scp_provider scope) in
      \<lparr>pr_scope = scope, pr_adapter = adapter,
       pr_unsupported =
         (case adapter of
            None \<Rightarrow> Some (lit ''provider'')
          | Some a \<Rightarrow>
              if ai_name identity \<noteq> Some (ad_name a) \<or> ai_version identity \<noteq> Some (ad_version a)
              then Some (lit ''adapter-version'')
              else if \<not> negotiated then Some (lit ''not-negotiated'')
              else None),
       pr_continuity = (if scp_connection_generation scope \<noteq> None then Continuous else Lost),
       pr_rows = [], pr_seen = [], pr_now = 0, pr_truncated = False,
       pr_max_rows = max_rows, pr_max_seen = max_seen\<rparr>)"

definition projection_new :: "Scope \<Rightarrow> AdapterIdentity \<Rightarrow> bool \<Rightarrow> Projection" where
  "projection_new scope identity negotiated = with_bounds scope identity negotiated MAX_ROWS MAX_SEEN"

definition no_session :: "rtext \<Rightarrow> rtext \<Rightarrow> rtext \<Rightarrow> Projection" where
  "no_session workspace_id agent_id provider =
     projection_new \<lparr>scp_workspace_id = workspace_id, scp_agent_id = agent_id, scp_provider = provider,
        scp_acp_session_id = None, scp_connection_generation = None\<rparr> \<lparr>ai_name = None, ai_version = None\<rparr> False"

definition generation :: "Projection \<Rightarrow> rtext option" where
  "generation p = scp_connection_generation (pr_scope p)"

definition support_state :: "Projection \<Rightarrow> rtext \<times> rtext option" where
  "support_state p =
     (if scp_acp_session_id (pr_scope p) = None \<or> scp_connection_generation (pr_scope p) = None
      then (lit ''unavailable'', Some (lit ''no-session''))
      else case pr_unsupported p of
        Some reason \<Rightarrow> (lit ''unsupported'', Some reason)
      | None \<Rightarrow>
          if pr_continuity p = Lost then (lit ''unavailable'', Some (lit ''continuity-lost''))
          else (lit ''supported'', None))"

definition support :: "Projection \<Rightarrow> json" where
  "support p =
     (case support_state p of
        (status, None) \<Rightarrow> JObj [(''status'', JStr status)]
      | (status, Some reason) \<Rightarrow> JObj [(''status'', JStr status), (''reason'', JStr reason)])"

definition supported :: "Projection \<Rightarrow> bool" where
  "supported p \<longleftrightarrow> snd (support_state p) = None"

definition bind_session :: "Projection \<Rightarrow> rtext \<Rightarrow> Projection \<times> bool" where
  "bind_session p session_id =
     (if scp_acp_session_id (pr_scope p) = Some session_id \<or> \<not> is_wire_id session_id then (p, False)
      else
        (let p1 = (if scp_acp_session_id (pr_scope p) \<noteq> None
                   then p\<lparr>pr_rows := [], pr_seen := [], pr_truncated := False\<rparr> else p) in
         (p1\<lparr>pr_scope := (pr_scope p1)\<lparr>scp_acp_session_id := Some session_id\<rparr>\<rparr>, True)))"

definition clock :: "Projection \<Rightarrow> nat \<Rightarrow> Projection" where
  "clock p now = p\<lparr>pr_now := max (pr_now p) now\<rparr>"

fun index_of :: "('a \<Rightarrow> bool) \<Rightarrow> 'a list \<Rightarrow> nat option" where
  "index_of P [] = None"
| "index_of P (x # xs) = (if P x then Some 0 else map_option Suc (index_of P xs))"

text \<open>\<open>Vec::remove\<close>, which panics out of range.\<close>

definition remove_at :: "nat \<Rightarrow> 'a list \<Rightarrow> 'a list option" where
  "remove_at i xs = (if i < length xs then Some (take i xs @ drop (Suc i) xs) else None)"

definition make_room :: "Projection \<Rightarrow> Projection option" where
  "make_room p =
     (if length (pr_rows p) \<ge> pr_max_rows p
      then (let victim = (case index_of ended (pr_rows p) of Some i \<Rightarrow> i | None \<Rightarrow> 0) in
            case remove_at victim (pr_rows p) of
              None \<Rightarrow> None
            | Some rows \<Rightarrow> Some (p\<lparr>pr_rows := rows, pr_truncated := True\<rparr>))
      else Some p)"

text \<open>The part of \<open>ingest\<close> after validation: a spawn or an end report for one task.\<close>

definition apply_report ::
    "Projection \<Rightarrow> json \<Rightarrow> rtext \<Rightarrow> rtext option \<Rightarrow> rtext option \<Rightarrow> bool \<Rightarrow> rtext \<Rightarrow> nat \<Rightarrow> (Projection \<times> bool) option" where
  "apply_report p0 u task_id tool_call_id task_type spawned st at =
     (let p = clock p0 at in
      case index_of (\<lambda>r. row_async_task_id r = task_id) (pr_rows p) of
        Some i \<Rightarrow>
          (let row = pr_rows p ! i in
           if spawned \<or> ended row \<or> at < row_observed_at row then Some (p, False)
           else Some (p\<lparr>pr_rows := (pr_rows p)[i := row\<lparr>row_provider_state := st, row_observed_at := at\<rparr>]\<rparr>, True))
      | None \<Rightarrow>
          if task_id \<in> set (pr_seen p) then Some (p, False)
          else if length (pr_seen p) \<ge> pr_max_seen p
          then Some (p\<lparr>pr_truncated := True\<rparr>, \<not> pr_truncated p)
          else
            (case make_room (p\<lparr>pr_seen := task_id # pr_seen p\<rparr>) of
               None \<Rightarrow> None
             | Some p2 \<Rightarrow>
                 Some (p2\<lparr>pr_rows := pr_rows p2 @
                   [\<lparr>row_async_task_id = task_id, row_tool_call_id = tool_call_id,
                     row_name = map_option (\<lambda>n. bounded n 512) (get_str u ''name''),
                     row_task_type = task_type,
                     row_can_stop = (spawned \<and> json_get u ''canStop'' = Some (JBool True)),
                     row_first_observed_at = at, row_observed_at = at, row_provider_state = st\<rparr>]\<rparr>, True)))"

text \<open>The tool call of a report; the outer option rejects a value that is not a wire id.\<close>

definition tool_call_field :: "json \<Rightarrow> rtext option option" where
  "tool_call_field u =
     (case json_get u ''toolCallId'' of
        None \<Rightarrow> Some None
      | Some (JStr s) \<Rightarrow> if is_wire_id s then Some (Some s) else None
      | Some _ \<Rightarrow> None)"

definition spawned_type :: "rtext \<Rightarrow> json \<Rightarrow> rtext option" where
  "spawned_type provider u =
     (if get_str u ''sessionUpdate'' = Some (lit ''async_task_spawned'')
      then accepted_task_type provider (json_get u ''taskType'') else None)"

definition ended_state :: "json \<Rightarrow> rtext option" where
  "ended_state u =
     (if get_str u ''sessionUpdate'' = Some (lit ''async_task_state_update'')
      then Option.bind (get_str u ''state'') (\<lambda>s. List.find (\<lambda>t. t = s) TERMINAL) else None)"

definition ingest :: "Projection \<Rightarrow> WorkerFrame \<Rightarrow> (Projection \<times> bool) option" where
  "ingest p fr =
     (if \<not> supported p \<or> pr_continuity p \<noteq> Continuous then Some (p, False)
      else if wf_session_id fr = None \<or> wf_session_id fr \<noteq> scp_acp_session_id (pr_scope p) then Some (p, False)
      else
        (let u = wf_update fr in
         case get_str u ''asyncTaskId'' of
           None \<Rightarrow> Some (p, False)
         | Some task_id \<Rightarrow>
             if \<not> is_wire_id task_id then Some (p, False)
             else
               (case tool_call_field u of
                  None \<Rightarrow> Some (p, False)
                | Some tool_call_id \<Rightarrow>
                    (let kind = get_str u ''sessionUpdate'';
                         task_type = spawned_type (scp_provider (pr_scope p)) u;
                         at = wf_received_at_ms fr in
                     if at > MAX_SAFE_INTEGER then Some (p, False)
                     else if kind = Some (lit ''async_task_spawned'') \<and> task_type = None
                     then Some (if task_id \<notin> set (pr_seen p) \<and> length (pr_seen p) < pr_max_seen p
                                then p\<lparr>pr_seen := task_id # pr_seen p\<rparr> else p, False)
                     else
                       (let spawned = (task_type \<noteq> None) in
                        if \<not> spawned \<and> ended_state u = None then Some (p, False)
                        else apply_report p u task_id tool_call_id task_type spawned
                               (if spawned then lit ''running'' else the (ended_state u)) at)))))"

definition disconnect :: "Projection \<Rightarrow> Projection \<times> bool" where
  "disconnect p =
     (if pr_continuity p \<noteq> Continuous then (p, False) else (p\<lparr>pr_continuity := Disconnected\<rparr>, True))"

definition has_running_workers :: "Projection \<Rightarrow> bool" where
  "has_running_workers p \<longleftrightarrow> supported p \<and> pr_continuity p = Continuous \<and>
     list_ex (\<lambda>r. row_provider_state r = lit ''running'') (pr_rows p)"

definition opt_member :: "string \<Rightarrow> rtext option \<Rightarrow> jmap" where
  "opt_member k v = (case v of Some s \<Rightarrow> [(k, JStr s)] | None \<Rightarrow> [])"

definition opt_str :: "rtext option \<Rightarrow> json" where
  "opt_str v = (case v of Some s \<Rightarrow> JStr s | None \<Rightarrow> JNull)"

definition row_json :: "Projection \<Rightarrow> Row \<Rightarrow> json" where
  "row_json p r =
     (let s = pr_scope p in
      JObj ([(''identity'', JObj [(''workspaceId'', JStr (scp_workspace_id s)), (''agentId'', JStr (scp_agent_id s)),
               (''provider'', JStr (scp_provider s)), (''acpSessionId'', opt_str (scp_acp_session_id s)),
               (''connectionGeneration'', opt_str (scp_connection_generation s)),
               (''asyncTaskId'', JStr (row_async_task_id r))])] @
            opt_member ''toolCallId'' (row_tool_call_id r) @
            opt_member ''name'' (row_name r) @
            opt_member ''taskType'' (row_task_type r) @
            [(''canStop'', JBool (row_can_stop r)), (''firstObservedAt'', jnat (row_first_observed_at r)),
             (''observedAt'', jnat (row_observed_at r)), (''providerState'', JStr (row_provider_state r)),
             (''source'', JStr (case pr_adapter p of Some a \<Rightarrow> ad_source a | None \<Rightarrow> lit ''unknown'')),
             (''cause'', JStr (lit ''unavailable'')), (''exitEvidence'', JObj [(''kind'', JStr (lit ''unknown''))])] @
            (if row_provider_state r = lit ''running'' \<and> pr_continuity p \<noteq> Continuous
             then [(''status'', JStr (lit ''unknown'')), (''unknownReason'', JStr (continuity_str (pr_continuity p)))]
             else [(''status'', JStr (row_provider_state r))])))"

definition snapshot_workers :: "Projection \<Rightarrow> nat \<Rightarrow> Projection \<times> json" where
  "snapshot_workers p0 now =
     (let p = clock p0 now; s = pr_scope p in
      (p, JObj [(''workspaceId'', JStr (scp_workspace_id s)), (''agentId'', JStr (scp_agent_id s)),
                (''provider'', JStr (scp_provider s)), (''acpSessionId'', opt_str (scp_acp_session_id s)),
                (''connectionGeneration'', opt_str (scp_connection_generation s)), (''support'', support p),
                (''continuity'', JStr (continuity_str (pr_continuity p))), (''asOf'', jnat (pr_now p)),
                (''truncated'', JBool (pr_truncated p)), (''workers'', JArr (map (row_json p) (pr_rows p)))]))"

text \<open>\<open>Inl ()\<close> is not-found; the inner option is the panic of the last \<open>expect\<close>.\<close>

definition stop_decision :: "Projection \<Rightarrow> rtext \<Rightarrow> rtext \<Rightarrow> (unit, StopDecision option) res" where
  "stop_decision p connection_generation async_task_id =
     (if generation p \<noteq> Some connection_generation then Inl ()
      else case List.find (\<lambda>r. row_async_task_id r = async_task_id) (pr_rows p) of
        None \<Rightarrow> Inl ()
      | Some row \<Rightarrow>
          if \<not> supported p \<or> pr_continuity p \<noteq> Continuous \<or> row_provider_state row \<noteq> lit ''running'' \<or> \<not> row_can_stop row
          then Inr (Some Decline)
          else Inr (map_option ForwardStop (scp_acp_session_id (pr_scope p))))"

definition renegotiate :: "nat \<Rightarrow> AdapterIdentity \<Rightarrow> bool \<Rightarrow> Projection \<Rightarrow> Projection \<times> json option" where
  "renegotiate now identity negotiated p =
     (let p1 = (projection_new ((pr_scope p)\<lparr>scp_acp_session_id := None\<rparr>) identity negotiated)
                 \<lparr>pr_continuity := pr_continuity p\<rparr> in
      case snapshot_workers p1 now of (p', snap) \<Rightarrow> (p', Some snap))"

section \<open>The invariant of a projection\<close>

definition row_ok :: "nat \<Rightarrow> Row \<Rightarrow> bool" where
  "row_ok now r \<longleftrightarrow>
     is_wire_id (row_async_task_id r) \<and> pred_option is_wire_id (row_tool_call_id r) \<and>
     pred_option (\<lambda>n. str_len n \<le> 512 \<and> \<not> list_ex is_control n) (row_name r) \<and>
     pred_option (\<lambda>t. t \<noteq> [] \<and> str_len t \<le> 64 \<and> \<not> list_ex is_control t \<and> t \<notin> set SUBAGENT_TASK_TYPES) (row_task_type r) \<and>
     (row_can_stop r \<longrightarrow> row_task_type r \<noteq> None) \<and>
     (row_provider_state r = lit ''running'' \<or> ended r) \<and>
     row_first_observed_at r \<le> row_observed_at r \<and> row_observed_at r \<le> now \<and> row_observed_at r \<le> MAX_SAFE_INTEGER"

definition proj_inv :: "Projection \<Rightarrow> bool" where
  "proj_inv p \<longleftrightarrow>
     0 < pr_max_rows p \<and> length (pr_rows p) \<le> pr_max_rows p \<and>
     distinct (pr_seen p) \<and> length (pr_seen p) \<le> pr_max_seen p \<and>
     distinct (map row_async_task_id (pr_rows p)) \<and> row_async_task_id ` set (pr_rows p) \<subseteq> set (pr_seen p) \<and>
     (\<forall>r \<in> set (pr_rows p). row_ok (pr_now p) r) \<and>
     (pr_seen p \<noteq> [] \<longrightarrow> scp_acp_session_id (pr_scope p) \<noteq> None) \<and>
     (pr_continuity p = Lost \<longleftrightarrow> generation p = None)"

datatype proj_op =
    PBind rtext
  | PIngest WorkerFrame
  | PDisconnect
  | PSnapshot nat
  | PNegotiate nat AdapterIdentity bool

fun proj_step :: "Projection \<Rightarrow> proj_op \<Rightarrow> Projection" where
  "proj_step p (PBind session_id) = fst (bind_session p session_id)"
| "proj_step p (PIngest fr) = (case ingest p fr of Some (p', _) \<Rightarrow> p' | None \<Rightarrow> p)"
| "proj_step p PDisconnect = fst (disconnect p)"
| "proj_step p (PSnapshot now) = fst (snapshot_workers p now)"
| "proj_step p (PNegotiate now identity negotiated) = fst (renegotiate now identity negotiated p)"

text \<open>A validated report.\<close>

definition report_ok :: "rtext \<Rightarrow> rtext option \<Rightarrow> rtext option \<Rightarrow> bool \<Rightarrow> rtext \<Rightarrow> nat \<Rightarrow> bool" where
  "report_ok task_id tool task_type spawned st at \<longleftrightarrow>
     is_wire_id task_id \<and> pred_option is_wire_id tool \<and> at \<le> MAX_SAFE_INTEGER \<and> (spawned \<longleftrightarrow> task_type \<noteq> None) \<and>
     pred_option (\<lambda>t. t \<noteq> [] \<and> str_len t \<le> 64 \<and> \<not> list_ex is_control t \<and> t \<notin> set SUBAGENT_TASK_TYPES) task_type \<and>
     (if spawned then st = lit ''running'' else st \<in> set TERMINAL)"

lemma find_terminal: "List.find (\<lambda>t. t = s) xs = Some t \<Longrightarrow> t = s \<and> s \<in> set xs"
  by (auto simp: find_Some_iff)

lemma ended_state_terminal: "ended_state u = Some st \<Longrightarrow> st \<in> set TERMINAL"
  by (auto simp: ended_state_def bind_eq_Some_conv dest: find_terminal split: if_splits)

lemma spawned_type_props:
  "spawned_type provider u = Some t \<Longrightarrow>
   t \<noteq> [] \<and> str_len t \<le> 64 \<and> \<not> list_ex is_control t \<and> t \<notin> set SUBAGENT_TASK_TYPES"
  by (auto simp: spawned_type_def dest: accepted_task_type_props split: if_splits)

lemma tool_call_field_props: "tool_call_field u = Some t \<Longrightarrow> pred_option is_wire_id t"
  by (auto simp: tool_call_field_def split: option.splits json.splits if_splits)

lemma ingest_cases:
  obtains (nothing) "ingest p fr = Some (p, False)"
  | (tombstone) tid where "supported p" "tid \<notin> set (pr_seen p)" "length (pr_seen p) < pr_max_seen p"
      "ingest p fr = Some (p\<lparr>pr_seen := tid # pr_seen p\<rparr>, False)"
  | (report) u tid tool tt spawned st at where "supported p" "pr_continuity p = Continuous"
      "report_ok tid tool tt spawned st at" "ingest p fr = apply_report p u tid tool tt spawned st at"
proof -
  let ?u = "wf_update fr" and ?at = "wf_received_at_ms fr" and ?tt = "spawned_type (scp_provider (pr_scope p)) (wf_update fr)"
  consider "ingest p fr = Some (p, False)"
    | tid tool where "supported p" "pr_continuity p = Continuous" "is_wire_id tid" "tool_call_field ?u = Some tool"
      "?at \<le> MAX_SAFE_INTEGER"
      "get_str ?u ''sessionUpdate'' = Some (lit ''async_task_spawned'')" "?tt = None"
      "ingest p fr = Some (if tid \<notin> set (pr_seen p) \<and> length (pr_seen p) < pr_max_seen p
         then p\<lparr>pr_seen := tid # pr_seen p\<rparr> else p, False)"
    | tid tool where "supported p" "pr_continuity p = Continuous" "is_wire_id tid" "tool_call_field ?u = Some tool"
      "?at \<le> MAX_SAFE_INTEGER" "?tt \<noteq> None \<or> ended_state ?u \<noteq> None"
      "ingest p fr = apply_report p ?u tid tool ?tt (?tt \<noteq> None) (if ?tt \<noteq> None then lit ''running'' else the (ended_state ?u)) ?at"
    unfolding ingest_def Let_def by (force split: option.splits if_splits)
  then show thesis
  proof cases
    case 1
    then show thesis by (rule nothing)
  next
    case (2 tid tool)
    show thesis
    proof (cases "tid \<notin> set (pr_seen p) \<and> length (pr_seen p) < pr_max_seen p")
      case True
      with 2 show thesis by (intro tombstone [of tid]) auto
    next
      case False
      with 2 have "ingest p fr = Some (p, False)" by auto
      then show thesis by (rule nothing)
    qed
  next
    case (3 tid tool)
    have "report_ok tid tool ?tt (?tt \<noteq> None) (if ?tt \<noteq> None then lit ''running'' else the (ended_state ?u)) ?at"
      using 3 ended_state_terminal [of ?u] spawned_type_props [of "scp_provider (pr_scope p)" ?u] tool_call_field_props [of ?u tool]
      by (auto simp: report_ok_def pred_option_def)
    with 3 show thesis by (intro report) auto
  qed
qed

lemma index_of_SomeD: "index_of P xs = Some i \<Longrightarrow> i < length xs \<and> P (xs ! i)"
  by (induction xs arbitrary: i) (auto split: if_splits)

lemma index_of_None: "index_of P xs = None \<longleftrightarrow> (\<forall>x \<in> set xs. \<not> P x)"
  by (induction xs) auto

text \<open>The rows kept when a new one needs room: the victim has ended, or no row has.\<close>

definition keeps_room :: "Row list \<Rightarrow> nat \<Rightarrow> Row list \<Rightarrow> bool" where
  "keeps_room rows max_rows kept \<longleftrightarrow> length kept < max_rows \<and>
     (kept = rows \<or> (\<exists>pre v post. rows = pre @ v # post \<and> kept = pre @ post \<and> length rows \<ge> max_rows \<and>
        (ended v \<or> (\<forall>r \<in> set rows. \<not> ended r))))"

lemma make_room_keeps:
  assumes "0 < pr_max_rows p" "length (pr_rows p) \<le> pr_max_rows p"
  shows "\<exists>kept t. make_room p = Some (p\<lparr>pr_rows := kept, pr_truncated := t\<rparr>) \<and>
    keeps_room (pr_rows p) (pr_max_rows p) kept \<and> (pr_truncated p \<longrightarrow> t)"
proof (cases "length (pr_rows p) \<ge> pr_max_rows p")
  case True
  define v where "v = (case index_of ended (pr_rows p) of Some i \<Rightarrow> i | None \<Rightarrow> 0)"
  have v: "v < length (pr_rows p)" "ended (pr_rows p ! v) \<or> (\<forall>r \<in> set (pr_rows p). \<not> ended r)"
    using assms True index_of_SomeD [of ended "pr_rows p"] index_of_None [of ended "pr_rows p"]
    by (auto simp: v_def split: option.splits)
  have "make_room p = Some (p\<lparr>pr_rows := take v (pr_rows p) @ drop (Suc v) (pr_rows p), pr_truncated := True\<rparr>)"
    using True v(1) by (simp add: make_room_def v_def [symmetric] remove_at_def Let_def)
  moreover have "keeps_room (pr_rows p) (pr_max_rows p) (take v (pr_rows p) @ drop (Suc v) (pr_rows p))"
    unfolding keeps_room_def using v True assms id_take_nth_drop [OF v(1)] by (auto intro!: exI)
  ultimately show ?thesis by blast
next
  case False
  then show ?thesis
    by (intro exI [of _ "pr_rows p"] exI [of _ "pr_truncated p"]) (auto simp: make_room_def keeps_room_def)
qed

lemma apply_report_cases:
  assumes inv: "proj_inv p"
  obtains (same) "apply_report p u tid tool tt spawned st at = Some (clock p at, False)"
  | (first_end) i where "i < length (pr_rows p)" "row_async_task_id (pr_rows p ! i) = tid" "\<not> spawned"
      "\<not> ended (pr_rows p ! i)" "row_observed_at (pr_rows p ! i) \<le> at"
      "apply_report p u tid tool tt spawned st at = Some ((clock p at)\<lparr>pr_rows := (pr_rows p)[i :=
         (pr_rows p ! i)\<lparr>row_provider_state := st, row_observed_at := at\<rparr>]\<rparr>, True)"
  | (full) c where "apply_report p u tid tool tt spawned st at = Some ((clock p at)\<lparr>pr_truncated := True\<rparr>, c)"
  | (added) kept t where "tid \<notin> set (pr_seen p)" "length (pr_seen p) < pr_max_seen p"
      "keeps_room (pr_rows p) (pr_max_rows p) kept" "pr_truncated p \<longrightarrow> t"
      "apply_report p u tid tool tt spawned st at = Some ((clock p at)\<lparr>pr_seen := tid # pr_seen p, pr_truncated := t, pr_rows := kept @
         [\<lparr>row_async_task_id = tid, row_tool_call_id = tool, row_name = map_option (\<lambda>n. bounded n 512) (get_str u ''name''),
           row_task_type = tt, row_can_stop = (spawned \<and> json_get u ''canStop'' = Some (JBool True)),
           row_first_observed_at = at, row_observed_at = at, row_provider_state = st\<rparr>]\<rparr>, True)"
proof (cases "index_of (\<lambda>r. row_async_task_id r = tid) (pr_rows p)")
  case (Some i)
  let ?row = "pr_rows p ! i"
  show thesis
  proof (cases "spawned \<or> ended ?row \<or> at < row_observed_at ?row")
    case True
    with Some have "apply_report p u tid tool tt spawned st at = Some (clock p at, False)"
      by (simp add: apply_report_def clock_def Let_def)
    then show thesis by (rule same)
  next
    case False
    with Some index_of_SomeD [OF Some] show thesis
      by (intro first_end [of i]) (auto simp: apply_report_def clock_def Let_def)
  qed
next
  case None
  show thesis
  proof (cases "tid \<in> set (pr_seen p) \<or> length (pr_seen p) \<ge> pr_max_seen p")
    case True
    with None show thesis
      by (cases "tid \<in> set (pr_seen p)") (auto simp: apply_report_def clock_def Let_def intro: same full)
  next
    case False
    have m: "0 < pr_max_rows p" "length (pr_rows p) \<le> pr_max_rows p" using inv by (auto simp: proj_inv_def)
    obtain kept t where k: "make_room ((clock p at)\<lparr>pr_seen := tid # pr_seen p\<rparr>) =
        Some ((clock p at)\<lparr>pr_seen := tid # pr_seen p, pr_rows := kept, pr_truncated := t\<rparr>)"
      "keeps_room (pr_rows p) (pr_max_rows p) kept" "pr_truncated p \<longrightarrow> t"
      using make_room_keeps [of "(clock p at)\<lparr>pr_seen := tid # pr_seen p\<rparr>"] m by (auto simp: clock_def)
    with None False show thesis
      by (intro added [of kept t]) (auto simp: apply_report_def clock_def Let_def)
  qed
qed

lemma row_ok_mono: "row_ok n r \<Longrightarrow> n \<le> m \<Longrightarrow> row_ok m r"
  by (auto simp: row_ok_def)

lemma clock_inv: "proj_inv p \<Longrightarrow> proj_inv (clock p now)"
  by (auto simp: proj_inv_def clock_def generation_def intro: row_ok_mono)

lemma supported_session: "supported p \<Longrightarrow> scp_acp_session_id (pr_scope p) \<noteq> None"
  by (auto simp: supported_def support_state_def split: if_splits)

lemma keeps_room_sub: "keeps_room rows n kept \<Longrightarrow> set kept \<subseteq> set rows"
  by (auto simp: keeps_room_def)

lemma keeps_room_distinct: "keeps_room rows n kept \<Longrightarrow> distinct (map f rows) \<Longrightarrow> distinct (map f kept)"
  by (auto simp: keeps_room_def)

lemma apply_report_inv:
  assumes inv: "proj_inv p" and sup: "supported p" and ok: "report_ok tid tool tt spawned st at"
  shows "\<exists>p' c. apply_report p u tid tool tt spawned st at = Some (p', c) \<and> proj_inv p'"
  using inv
proof (cases rule: apply_report_cases [where u = u and tid = tid and tool = tool and tt = tt and spawned = spawned and st = st and at = at])
  case same
  then show ?thesis using clock_inv [OF inv] by blast
next
  case (first_end i)
  let ?r = "(pr_rows p ! i)\<lparr>row_provider_state := st, row_observed_at := at\<rparr>"
  have ids: "map row_async_task_id ((pr_rows p)[i := ?r]) = map row_async_task_id (pr_rows p)"
    using first_end(1) by (simp add: map_update list_update_same_conv)
  have old: "row_ok (pr_now p) (pr_rows p ! i)" using inv first_end(1) by (simp add: proj_inv_def)
  then have "row_first_observed_at (pr_rows p ! i) \<le> at" using first_end(5) by (simp add: row_ok_def)
  with old ok first_end(3) have "row_ok (max (pr_now p) at) ?r"
    by (auto simp: row_ok_def report_ok_def ended_def)
  then have "\<forall>r \<in> insert ?r (set (pr_rows p)). row_ok (max (pr_now p) at) r"
    using inv by (auto simp: proj_inv_def intro: row_ok_mono)
  then have "\<forall>r \<in> set ((pr_rows p)[i := ?r]). row_ok (max (pr_now p) at) r"
    using set_update_subset_insert [of "pr_rows p" i ?r] by blast
  moreover have "row_async_task_id ` set ((pr_rows p)[i := ?r]) = row_async_task_id ` set (pr_rows p)"
    using ids by (metis set_map)
  ultimately have "proj_inv ((clock p at)\<lparr>pr_rows := (pr_rows p)[i := ?r]\<rparr>)"
    using inv ids by (auto simp: proj_inv_def clock_def generation_def)
  with first_end(6) show ?thesis by blast
next
  case (full c)
  then show ?thesis using clock_inv [OF inv] by (auto simp: proj_inv_def generation_def)
next
  case (added kept t)
  let ?r = "\<lparr>row_async_task_id = tid, row_tool_call_id = tool, row_name = map_option (\<lambda>n. bounded n 512) (get_str u ''name''),
      row_task_type = tt, row_can_stop = (spawned \<and> json_get u ''canStop'' = Some (JBool True)),
      row_first_observed_at = at, row_observed_at = at, row_provider_state = st\<rparr>"
  have r: "row_ok (max (pr_now p) at) ?r"
    using ok bounded_le bounded_clean by (auto simp: row_ok_def report_ok_def ended_def pred_option_def)
  have k: "set kept \<subseteq> set (pr_rows p)" "distinct (map row_async_task_id kept)" "length kept < pr_max_rows p"
    using keeps_room_sub [OF added(3)] keeps_room_distinct [OF added(3)] inv added(3)
    by (auto simp: proj_inv_def keeps_room_def)
  have "\<forall>r \<in> set (pr_rows p). row_ok (max (pr_now p) at) r" using inv by (auto simp: proj_inv_def intro: row_ok_mono)
  then have "\<forall>r \<in> set kept. row_ok (max (pr_now p) at) r" using k(1) by blast
  moreover have "tid \<notin> row_async_task_id ` set kept" "row_async_task_id ` set kept \<subseteq> set (pr_seen p)"
    using k(1) inv added(1) by (auto simp: proj_inv_def)
  ultimately have "proj_inv ((clock p at)\<lparr>pr_seen := tid # pr_seen p, pr_truncated := t, pr_rows := kept @ [?r]\<rparr>)"
    using inv k(2,3) r added(1,2) supported_session [OF sup]
    by (auto simp: proj_inv_def clock_def generation_def)
  with added(5) show ?thesis by blast
qed

lemma ingest_inv:
  assumes "proj_inv p"
  shows "\<exists>p' c. ingest p fr = Some (p', c) \<and> proj_inv p'"
proof (cases rule: ingest_cases [of p fr])
  case nothing
  then show ?thesis using assms by blast
next
  case (tombstone tid)
  then show ?thesis using assms supported_session [OF tombstone(1)]
    by (auto simp: proj_inv_def generation_def)
next
  case (report u tid tool tt spawned st at)
  then show ?thesis using apply_report_inv [OF assms report(1,3), of u] by simp
qed

lemma projection_new_inv: "proj_inv (projection_new scope identity negotiated)"
  by (simp add: proj_inv_def projection_new_def with_bounds_def generation_def MAX_ROWS_def Let_def)

lemma proj_step_inv: "proj_inv p \<Longrightarrow> proj_inv (proj_step p x)"
proof (cases x)
  case (PBind s)
  assume "proj_inv p"
  then show ?thesis by (auto simp: PBind bind_session_def proj_inv_def generation_def Let_def)
next
  case (PIngest fr)
  assume "proj_inv p"
  with ingest_inv [of p fr] show ?thesis by (auto simp: PIngest)
next
  case PDisconnect
  assume "proj_inv p"
  then show ?thesis by (auto simp: PDisconnect disconnect_def proj_inv_def generation_def)
next
  case (PSnapshot now)
  assume "proj_inv p"
  then show ?thesis by (simp add: PSnapshot snapshot_workers_def clock_inv Let_def)
next
  case (PNegotiate now identity negotiated)
  assume "proj_inv p"
  then have "proj_inv ((projection_new ((pr_scope p)\<lparr>scp_acp_session_id := None\<rparr>) identity negotiated)\<lparr>pr_continuity := pr_continuity p\<rparr>)"
    by (simp add: proj_inv_def projection_new_def with_bounds_def generation_def MAX_ROWS_def Let_def)
  then show ?thesis by (simp add: PNegotiate renegotiate_def snapshot_workers_def clock_inv Let_def)
qed

interpretation projection: step_invariant proj_step proj_inv
  by unfold_locales (rule proj_step_inv)

text \<open>
  C16. Whatever an adapter reports, a projection stays within its bounds: after any sequence of
  session bindings, frames, disconnects, snapshots and negotiations it holds at most 256 rows and 1024
  seen ids, row ids are distinct and all tombstoned, every id is a wire id, text is bounded and free of
  control characters, times are ordered and exact JSON numbers, every state is running or terminal,
  and no frame can make \<open>ingest\<close> panic.
\<close>

theorem projection_invariant:
  "proj_inv (foldl proj_step (projection_new scope identity negotiated) ops) \<and>
   ingest (foldl proj_step (projection_new scope identity negotiated) ops) fr \<noteq> None"
  using projection.run_inv [OF projection_new_inv, of scope identity negotiated ops] ingest_inv by blast

section \<open>Life of a row\<close>

datatype live_op = LIngest WorkerFrame | LDisconnect | LSnapshot nat

fun live_step :: "Projection \<Rightarrow> live_op \<Rightarrow> Projection" where
  "live_step p (LIngest fr) = proj_step p (PIngest fr)"
| "live_step p LDisconnect = proj_step p PDisconnect"
| "live_step p (LSnapshot now) = proj_step p (PSnapshot now)"

definition evolves :: "Row \<Rightarrow> Row \<Rightarrow> bool" where
  "evolves r r' \<longleftrightarrow>
     row_async_task_id r' = row_async_task_id r \<and> row_tool_call_id r' = row_tool_call_id r \<and>
     row_name r' = row_name r \<and> row_task_type r' = row_task_type r \<and> row_can_stop r' = row_can_stop r \<and>
     row_first_observed_at r' = row_first_observed_at r \<and> row_observed_at r \<le> row_observed_at r' \<and>
     (ended r \<longrightarrow> r' = r) \<and> (r' \<noteq> r \<longrightarrow> ended r')"

definition proj_below :: "Projection \<Rightarrow> Projection \<Rightarrow> bool" where
  "proj_below p p' \<longleftrightarrow>
     pr_scope p' = pr_scope p \<and> set (pr_seen p) \<subseteq> set (pr_seen p') \<and> pr_now p \<le> pr_now p' \<and>
     (pr_truncated p \<longrightarrow> pr_truncated p') \<and>
     (pr_continuity p \<noteq> Continuous \<longrightarrow> pr_rows p' = pr_rows p \<and> pr_continuity p' = pr_continuity p) \<and>
     (\<forall>r' \<in> set (pr_rows p'). row_async_task_id r' \<in> set (pr_seen p) \<longrightarrow> (\<exists>r \<in> set (pr_rows p). evolves r r'))"

lemma evolves_refl [simp]: "evolves r r"
  by (simp add: evolves_def)

lemma proj_belowD:
  "proj_below p p' \<Longrightarrow> r' \<in> set (pr_rows p') \<Longrightarrow> row_async_task_id r' \<in> set (pr_seen p) \<Longrightarrow>
   \<exists>r \<in> set (pr_rows p). evolves r r'"
  by (simp add: proj_below_def)

lemma evolves_self: "r \<in> A \<Longrightarrow> \<exists>q \<in> A. evolves q r"
  by (rule bexI [of _ r]) simp_all

lemma evolves_trans: "evolves r s \<Longrightarrow> evolves s t \<Longrightarrow> evolves r t"
  by (auto simp: evolves_def)

lemma proj_below_refl: "proj_below p p"
  by (auto simp: proj_below_def intro: evolves_self)

lemma proj_below_trans:
  assumes "proj_below p q" "proj_below q s"
  shows "proj_below p s"
proof -
  have "\<exists>r \<in> set (pr_rows p). evolves r t" if t: "t \<in> set (pr_rows s)" "row_async_task_id t \<in> set (pr_seen p)" for t
  proof -
    obtain r' where r': "r' \<in> set (pr_rows q)" "evolves r' t"
      using assms t unfolding proj_below_def by blast
    then have "row_async_task_id r' \<in> set (pr_seen p)" using t(2) by (simp add: evolves_def)
    then obtain r where "r \<in> set (pr_rows p)" "evolves r r'" using assms(1) r'(1) unfolding proj_below_def by blast
    with r'(2) show ?thesis using evolves_trans by blast
  qed
  with assms show ?thesis by (auto simp: proj_below_def)
qed

lemma clock_below: "proj_below p (clock p now)"
  by (auto simp: proj_below_def clock_def intro: evolves_self)

lemma apply_report_below:
  assumes inv: "proj_inv p" and c: "pr_continuity p = Continuous" and ok: "report_ok tid tool tt spawned st at"
    and r: "apply_report p u tid tool tt spawned st at = Some (p', ch)"
  shows "proj_below p p'"
  using inv
proof (cases rule: apply_report_cases [where u = u and tid = tid and tool = tool and tt = tt and spawned = spawned and st = st and at = at])
  case same
  then show ?thesis using r clock_below by simp
next
  case (first_end i)
  let ?r = "(pr_rows p ! i)\<lparr>row_provider_state := st, row_observed_at := at\<rparr>"
  have "evolves (pr_rows p ! i) ?r"
    using first_end ok by (auto simp: evolves_def ended_def report_ok_def)
  moreover have "pr_rows p ! i \<in> set (pr_rows p)" using first_end(1) by simp
  moreover have "set ((pr_rows p)[i := ?r]) \<subseteq> insert ?r (set (pr_rows p))" by (rule set_update_subset_insert)
  ultimately have "\<forall>r' \<in> set ((pr_rows p)[i := ?r]). \<exists>r \<in> set (pr_rows p). evolves r r'"
    using evolves_self by blast
  with first_end(6) r c show ?thesis by (auto simp: proj_below_def clock_def)
next
  case (full b)
  with r show ?thesis using c by (auto simp: proj_below_def clock_def intro: evolves_self)
next
  case (added kept t)
  have "\<forall>r \<in> set kept. r \<in> set (pr_rows p)" using keeps_room_sub [OF added(3)] by blast
  with added r c show ?thesis by (auto simp: proj_below_def clock_def intro: evolves_self)
qed

lemma live_step_below: "proj_inv p \<Longrightarrow> proj_below p (live_step p x)"
proof (cases x)
  case (LIngest fr)
  assume inv: "proj_inv p"
  show ?thesis
  proof (cases rule: ingest_cases [of p fr])
    case nothing
    then show ?thesis by (simp add: LIngest proj_below_refl)
  next
    case (tombstone tid)
    then show ?thesis by (auto simp: LIngest proj_below_def intro: evolves_self)
  next
    case (report u tid tool tt spawned st at)
    with apply_report_inv [OF inv report(1,3), of u] apply_report_below [OF inv report(2,3), of u]
    show ?thesis by (auto simp: LIngest)
  qed
next
  case LDisconnect
  then show ?thesis by (auto simp: disconnect_def proj_below_def intro: evolves_self)
next
  case (LSnapshot now)
  then show ?thesis by (simp add: snapshot_workers_def clock_below Let_def)
qed

interpretation live: step_monotone live_step proj_inv proj_below
proof
  show "proj_inv p \<Longrightarrow> proj_inv (live_step p x)" for p x by (cases x) (simp_all only: live_step.simps proj_step_inv)
qed (auto intro: proj_below_refl proj_below_trans live_step_below)

text \<open>
  C17. First terminal wins. While a projection keeps its session, whatever frames, disconnects and
  snapshots follow, a row still present has kept everything but its state and time, has left its state
  only for a terminal one, and is unchanged once it has ended; an id that was seen and has no row
  never gets one; and after the connection has dropped the rows stay as they are.
\<close>

theorem first_terminal_wins:
  assumes "proj_inv p" and "foldl live_step p ops = p'"
  shows "(\<forall>r \<in> set (pr_rows p). \<forall>r' \<in> set (pr_rows p'). row_async_task_id r' = row_async_task_id r \<longrightarrow> evolves r r') \<and>
    (\<forall>tid \<in> set (pr_seen p). tid \<notin> row_async_task_id ` set (pr_rows p) \<longrightarrow> tid \<notin> row_async_task_id ` set (pr_rows p')) \<and>
    (pr_continuity p \<noteq> Continuous \<longrightarrow> pr_rows p' = pr_rows p)"
proof -
  have b: "proj_below p p'" using live.run_below [OF assms(1), of ops] assms(2) by simp
  have "evolves r r'" if r: "r \<in> set (pr_rows p)" "r' \<in> set (pr_rows p')" "row_async_task_id r' = row_async_task_id r" for r r'
  proof -
    have "row_async_task_id r \<in> set (pr_seen p)" using assms(1) r(1) by (auto simp: proj_inv_def)
    then obtain q where q: "q \<in> set (pr_rows p)" "evolves q r'" using proj_belowD [OF b r(2)] r(3) by auto
    then have "row_async_task_id q = row_async_task_id r" using r(3) by (simp add: evolves_def)
    then have "q = r" using q(1) r(1) assms(1) by (auto simp: proj_inv_def distinct_map inj_on_def)
    with q(2) show ?thesis by simp
  qed
  moreover have "tid \<notin> row_async_task_id ` set (pr_rows p')"
    if "tid \<in> set (pr_seen p)" "tid \<notin> row_async_task_id ` set (pr_rows p)" for tid
  proof
    assume "tid \<in> row_async_task_id ` set (pr_rows p')"
    then obtain r' where "r' \<in> set (pr_rows p')" "row_async_task_id r' = tid" by auto
    with that proj_belowD [OF b] obtain q where "q \<in> set (pr_rows p)" "evolves q r'" by blast
    with that(2) \<open>row_async_task_id r' = tid\<close> show False by (auto simp: evolves_def)
  qed
  ultimately show ?thesis using b by (auto simp: proj_below_def)
qed

definition demo_scope :: Scope where
  "demo_scope = \<lparr>scp_workspace_id = lit ''w'', scp_agent_id = lit ''a'', scp_provider = lit ''codex'',
     scp_acp_session_id = None, scp_connection_generation = Some (lit ''g'')\<rparr>"

definition demo_identity :: AdapterIdentity where
  "demo_identity = \<lparr>ai_name = Some (lit ''@agentclientprotocol/codex-acp''), ai_version = Some (lit ''2.5.0'')\<rparr>"

definition demo_spawn :: WorkerFrame where
  "demo_spawn = \<lparr>wf_session_id = Some (lit ''s''), wf_update = JObj [(''sessionUpdate'', JStr (lit ''async_task_spawned'')),
     (''asyncTaskId'', JStr (lit ''t'')), (''taskType'', JStr (lit ''shell'')), (''canStop'', JBool True)], wf_received_at_ms = 5\<rparr>"

definition demo_end :: WorkerFrame where
  "demo_end = \<lparr>wf_session_id = Some (lit ''s''), wf_update = JObj [(''sessionUpdate'', JStr (lit ''async_task_state_update'')),
     (''asyncTaskId'', JStr (lit ''t'')), (''state'', JStr (lit ''failed''))], wf_received_at_ms = 9\<rparr>"

definition demo_projection :: Projection where
  "demo_projection = foldl proj_step (projection_new demo_scope demo_identity True) [PBind (lit ''s''), PIngest demo_spawn]"

lemma demo_adapter: "adapter_for (lit ''codex'') = Some \<lparr>ad_provider = lit ''codex'',
    ad_name = lit ''@agentclientprotocol/codex-acp'', ad_version = lit ''2.5.0'', ad_source = lit ''codex-air''\<rparr>"
  by code_simp

lemma demo_provider: "base_provider_id (lit ''codex'') = lit ''codex''"
  by (simp add: base_provider_id_def split_profile_ref_def lit_def)

lemma demo_wire: "is_wire_id (lit ''t'')" "is_wire_id (lit ''s'')"
  by (simp_all add: is_wire_id_def lit_def str_len_def len_utf8_def is_control_def)

lemma demo_shell: "accepted_task_type (lit ''codex'') (Some (JStr (lit ''shell''))) = Some (lit ''shell'')"
  by (simp add: accepted_task_type_def demo_provider bounded_def lit_def str_len_def len_utf8_def is_control_def
    trim_def is_whitespace_def SUBAGENT_TASK_TYPES_def)

lemma demo_fields:
  "spawned_type (lit ''codex'') (wf_update demo_spawn) = Some (lit ''shell'')"
  "get_str (wf_update demo_spawn) ''asyncTaskId'' = Some (lit ''t'')" "get_str (wf_update demo_end) ''asyncTaskId'' = Some (lit ''t'')"
  "tool_call_field (wf_update demo_spawn) = Some None" "tool_call_field (wf_update demo_end) = Some None"
  "get_str (wf_update demo_end) ''sessionUpdate'' = Some (lit ''async_task_state_update'')"
  "json_get (wf_update demo_spawn) ''canStop'' = Some (JBool True)" "get_str (wf_update demo_spawn) ''name'' = None"
  "ended_state (wf_update demo_end) = Some (lit ''failed'')" "spawned_type (lit ''codex'') (wf_update demo_end) = None"
  by (simp_all add: demo_spawn_def demo_end_def spawned_type_def ended_state_def tool_call_field_def get_str_def demo_shell TERMINAL_def)
    (simp_all add: lit_def)

lemma demo_frames:
  "wf_session_id demo_spawn = Some (lit ''s'')" "wf_session_id demo_end = Some (lit ''s'')"
  "wf_received_at_ms demo_spawn = 5" "wf_received_at_ms demo_end = 9"
  "lit ''running'' \<notin> set TERMINAL" "lit ''async_task_state_update'' \<noteq> lit ''async_task_spawned''"
  by (simp_all add: demo_spawn_def demo_end_def TERMINAL_def lit_def)

definition demo_row :: Row where
  "demo_row = \<lparr>row_async_task_id = lit ''t'', row_tool_call_id = None, row_name = None, row_task_type = Some (lit ''shell''),
     row_can_stop = True, row_first_observed_at = 5, row_observed_at = 5, row_provider_state = lit ''running''\<rparr>"

lemma demo_projection_eq: "demo_projection =
   \<lparr>pr_scope = demo_scope\<lparr>scp_acp_session_id := Some (lit ''s'')\<rparr>, pr_adapter = adapter_for (lit ''codex''), pr_unsupported = None,
    pr_continuity = Continuous, pr_rows = [demo_row], pr_seen = [lit ''t''], pr_now = 5, pr_truncated = False,
    pr_max_rows = 256, pr_max_seen = 1024\<rparr>"
proof -
  have b: "fst (bind_session (projection_new demo_scope demo_identity True) (lit ''s'')) =
   \<lparr>pr_scope = demo_scope\<lparr>scp_acp_session_id := Some (lit ''s'')\<rparr>, pr_adapter = adapter_for (lit ''codex''), pr_unsupported = None,
    pr_continuity = Continuous, pr_rows = [], pr_seen = [], pr_now = 0, pr_truncated = False,
    pr_max_rows = 256, pr_max_seen = 1024\<rparr>"
  by (simp add: bind_session_def projection_new_def with_bounds_def demo_scope_def demo_identity_def demo_adapter MAX_ROWS_def MAX_SEEN_def
    demo_wire Let_def)
  show ?thesis unfolding demo_projection_def foldl.simps proj_step.simps b
    by (simp add: ingest_def supported_def support_state_def demo_scope_def demo_fields demo_wire demo_row_def MAX_SAFE_INTEGER_def
     apply_report_def clock_def make_room_def Let_def demo_frames)
qed

theorem first_terminal_wins_witness:
  "proj_inv demo_projection \<and> row_provider_state (hd (pr_rows demo_projection)) = lit ''running'' \<and>
   evolves (hd (pr_rows demo_projection)) (hd (pr_rows (foldl live_step demo_projection [LIngest demo_end, LDisconnect])))"
proof -
  have inv: "proj_inv demo_projection"
    unfolding demo_projection_def by (rule projection.run_inv) (rule projection_new_inv)
  have "pr_rows (foldl live_step demo_projection [LIngest demo_end, LDisconnect]) =
      [demo_row\<lparr>row_provider_state := lit ''failed'', row_observed_at := 9\<rparr>]"
    unfolding demo_projection_eq by (simp add: disconnect_def  ingest_def supported_def support_state_def demo_scope_def demo_fields demo_wire demo_row_def MAX_SAFE_INTEGER_def
     apply_report_def clock_def make_room_def ended_def Let_def demo_frames)
  with first_terminal_wins [OF inv refl, of "[LIngest demo_end, LDisconnect]"] inv show ?thesis
    by (simp add: demo_projection_eq demo_row_def)
qed
end
