(* ===== verification/AgentWorkers.thy ===== *)
theory AgentWorkers
  imports WorkerProjection "HOL-Library.Product_Lexorder"
begin

text \<open>
  The registry of worker projections (\<open>intent-services/src/agent_workers.rs\<close>): one entry per agent, with
  the connection and the write fence of its generation. Connections and fences are addresses, and
  whether a weak connection can still be upgraded is an argument. The lemmas show that a fence is open
  exactly while its generation is the agent's connected one, which is what lets a stop request be
  written only to the connection it was decided for.
\<close>

section \<open>The registry\<close>

record Entry =
  en_projection :: Projection
  en_connection :: nat
  en_fence :: nat


record AgentWorkers =
  aw_entries :: "(rtext \<times> Entry) list"
  aw_revoked :: "nat \<Rightarrow> bool"
  aw_next :: nat

definition hm_insert :: "'k \<Rightarrow> 'v \<Rightarrow> ('k \<times> 'v) list \<Rightarrow> ('k \<times> 'v) list" where
  "hm_insert k v m = (k, v) # filter (\<lambda>e. fst e \<noteq> k) m"




definition generation_for :: "AgentWorkers \<Rightarrow> rtext \<Rightarrow> nat \<Rightarrow> rtext option" where
  "generation_for w agent_id connection =
     (case map_of (aw_entries w) agent_id of
        Some e \<Rightarrow> if en_connection e = connection then generation (en_projection e) else None
      | None \<Rightarrow> None)"








definition aw_has_running_workers :: "AgentWorkers \<Rightarrow> rtext \<Rightarrow> bool" where
  "aw_has_running_workers w agent_id \<longleftrightarrow>
     (case map_of (aw_entries w) agent_id of Some e \<Rightarrow> has_running_workers (en_projection e) | None \<Rightarrow> False)"

definition workspace_has_running_workers :: "AgentWorkers \<Rightarrow> rtext \<Rightarrow> bool" where
  "workspace_has_running_workers w workspace_id \<longleftrightarrow>
     list_ex (\<lambda>(_, e). scp_workspace_id (pr_scope (en_projection e)) = workspace_id \<and>
       has_running_workers (en_projection e)) (aw_entries w)"

definition running_worker_agents :: "AgentWorkers \<Rightarrow> (rtext \<times> rtext) list" where
  "running_worker_agents w =
     sort (map (\<lambda>(i, e). (i, scp_workspace_id (pr_scope (en_projection e))))
       (filter (\<lambda>(_, e). has_running_workers (en_projection e)) (aw_entries w)))"


section \<open>Fences of the registry\<close>








lemma map_of_removed: "map_of (filter (\<lambda>e. fst e \<noteq> k) m) = (map_of m)(k := None)"
  by (induction m) (auto simp: fun_eq_iff)

lemma map_of_hm_insert [simp]: "map_of (hm_insert k v m) = (map_of m)(k \<mapsto> v)"
  by (simp add: hm_insert_def map_of_removed fun_eq_iff)




































end
