(* ===== verification/NativeContexts.thy ===== *)
theory NativeContexts
  imports Prelude Transition
begin

text \<open>
  Native review contexts and the set of them a credential directory retires
  (\<open>intent-services/src/repository_admission/lifecycle/native_allocation.rs\<close>). An allocation lives at an
  address of a heap, a context set is a list of addresses. The remote peer's answer is an argument of
  the driver's turn; the callback handle, which only sends notifications, is left out. The lemmas show
  that retirement and joining are permanent and that a context leaves the set only once joined.
\<close>

section \<open>Allocations\<close>

datatype AdmissionError = AdmissionRetired | AdmissionUnavailable

record NativeAllocation =
  na_session :: "rtext option"
  na_retired :: bool
  na_producer_finished :: bool
  na_joined :: "bool option"

type_synonym native_heap = "nat \<Rightarrow> NativeAllocation"

definition native_new :: NativeAllocation where
  "native_new = \<lparr>na_session = None, na_retired = False, na_producer_finished = False, na_joined = None\<rparr>"

definition native_new_loaded :: "rtext \<Rightarrow> NativeAllocation" where
  "native_new_loaded session = native_new\<lparr>na_session := Some session\<rparr>"

definition is_joined :: "NativeAllocation \<Rightarrow> bool" where
  "is_joined n \<longleftrightarrow> na_joined n = Some True"

definition bind_response :: "rtext \<Rightarrow> NativeAllocation \<Rightarrow> (AdmissionError, unit) res \<times> NativeAllocation" where
  "bind_response session n =
     (if na_session n = None \<and> \<not> na_producer_finished n then (Inr (), n\<lparr>na_session := Some session\<rparr>)
      else (Inl AdmissionRetired, n))"

definition native_retire :: "NativeAllocation \<Rightarrow> NativeAllocation" where
  "native_retire n = n\<lparr>na_retired := True\<rparr>"

definition producer_finished :: "NativeAllocation \<Rightarrow> NativeAllocation" where
  "producer_finished n = n\<lparr>na_producer_finished := True\<rparr>"

text \<open>One turn of the driver's loop; it returns once \<open>joined\<close> is set, and waits otherwise.\<close>

definition drive :: "bool \<Rightarrow> NativeAllocation \<Rightarrow> NativeAllocation" where
  "drive peer_joined n =
     (if na_joined n \<noteq> None \<or> \<not> na_retired n then n
      else if na_session n \<noteq> None then n\<lparr>na_joined := Some peer_joined\<rparr>
      else if na_producer_finished n then n\<lparr>na_joined := Some False\<rparr>
      else n)"

text \<open>\<open>None\<close> is the wait for the next change.\<close>

definition join_result :: "NativeAllocation \<Rightarrow> (AdmissionError, unit) res option" where
  "join_result n =
     (case na_joined n of
        Some True \<Rightarrow> Some (Inr ())
      | Some False \<Rightarrow> Some (Inl AdmissionUnavailable)
      | None \<Rightarrow> None)"

section \<open>The set of contexts\<close>

definition contexts_retain :: "native_heap \<Rightarrow> nat \<Rightarrow> nat list \<Rightarrow> (AdmissionError, unit) res \<times> nat list" where
  "contexts_retain h native originals0 =
     (let originals = filter (\<lambda>a. \<not> is_joined (h a)) originals0 in
      if na_retired (h native) then (Inl AdmissionRetired, originals)
      else (Inr (), if native \<in> set originals then originals else originals @ [native]))"

definition contexts_retire :: "nat list \<Rightarrow> native_heap \<Rightarrow> native_heap" where
  "contexts_retire originals h = (\<lambda>a. if a \<in> set originals then native_retire (h a) else h a)"

definition contexts_settled :: "native_heap \<Rightarrow> nat list \<Rightarrow> bool" where
  "contexts_settled h originals \<longleftrightarrow>
     list_all (\<lambda>a. \<not> na_retired (h a) \<or> na_joined (h a) = Some True) originals"

text \<open>The contexts \<open>join\<close> waits for, and the set after it.\<close>

definition contexts_pending :: "native_heap \<Rightarrow> nat list \<Rightarrow> nat list" where
  "contexts_pending h originals = filter (\<lambda>a. na_retired (h a)) originals"

definition contexts_joined :: "native_heap \<Rightarrow> nat list \<Rightarrow> nat list" where
  "contexts_joined h originals = filter (\<lambda>a. \<not> is_joined (h a)) originals"

section \<open>What only grows\<close>

definition native_below :: "NativeAllocation \<Rightarrow> NativeAllocation \<Rightarrow> bool" where
  "native_below n n' \<longleftrightarrow> (na_retired n \<longrightarrow> na_retired n') \<and> (\<forall>j. na_joined n = Some j \<longrightarrow> na_joined n' = Some j)"

lemma native_below_refl [simp]: "native_below n n"
  by (simp add: native_below_def)

lemma native_below_trans: "native_below a b \<Longrightarrow> native_below b c \<Longrightarrow> native_below a c"
  by (simp add: native_below_def)

lemma native_ops_below [simp]:
  "native_below n (snd (bind_response s n))" "native_below n (native_retire n)"
  "native_below n (producer_finished n)" "native_below n (drive ok n)"
  by (auto simp: native_below_def bind_response_def native_retire_def producer_finished_def drive_def)

definition heap_below :: "native_heap \<Rightarrow> native_heap \<Rightarrow> bool" where
  "heap_below h h' \<longleftrightarrow> (\<forall>a. native_below (h a) (h' a))"

lemma heap_below_refl [simp]: "heap_below h h"
  by (simp add: heap_below_def)

lemma heap_below_upd [simp]: "native_below (h a) n \<Longrightarrow> heap_below h (h(a := n))"
  by (simp add: heap_below_def)

lemma heap_below_retire [simp]: "heap_below h (contexts_retire xs h)"
  by (simp add: heap_below_def contexts_retire_def)

end
