(* ===== verification/CredentialDirectory.thy ===== *)
theory CredentialDirectory
  imports NativeContexts
begin

text \<open>
  The repository credential directory (\<open>intent-services/src/repository_credentials.rs\<close> with \<open>state.rs\<close>,
  \<open>checkout.rs\<close> and the synchronous part of \<open>acquire.rs\<close>). An operation maps the state under the lock to
  its result and the new state, so that a failing operation keeps what it already changed. Fresh ids and
  the clock are arguments; a poisoned lock is left out. A closure called under the lock is replaced by
  the values it is given.
\<close>

section \<open>Types\<close>

datatype RepositoryCredentialError =
    Retired | Missing | Unverified | Disconnected | ChildDisabled | Mutating | Indeterminate
  | AuthorityDenied | AuthorityUnavailable | BoundaryMismatch | SecretMismatch | StaleMutation
  | CounterExhausted | TimedOut | Backoff

datatype RepositoryCredentialUse = NativeRead | NativePush | NativeReviewCreate | ChildGit

datatype RepositoryCredentialSource = GitlabSecretSlot | GitlabEnvironment

datatype RepositoryProvider = Github | Gitlab

record GitlabDescriptor =
  gd_instance :: rtext
  gd_endpoint :: rtext

record RepositoryAccountKey =
  ak_provider :: RepositoryProvider
  ak_instance_base_url :: rtext
  ak_account_id :: rtext

record RepositoryConnectionScope =
  cs_connection_id :: rtext
  cs_account_id :: rtext
  cs_connection_generation :: nat

record RepositoryConnectionBinding =
  cb_daemon_id :: rtext
  cb_account :: RepositoryAccountKey
  cb_scope :: RepositoryConnectionScope

record VerifiedRepositoryAccount =
  va_descriptor :: GitlabDescriptor
  va_account_id :: rtext
  va_source :: RepositoryCredentialSource

definition from_verified_user ::
    "GitlabDescriptor \<Rightarrow> nat \<Rightarrow> RepositoryCredentialSource \<Rightarrow> (RepositoryCredentialError, VerifiedRepositoryAccount) res" where
  "from_verified_user descriptor immutable_id source =
     (if immutable_id = 0 then Inl Unverified
      else Inr \<lparr>va_descriptor = descriptor, va_account_id = dec_string immutable_id, va_source = source\<rparr>)"

datatype RepositoryConnectionState =
    StUnverified | StReady | StMutating | StDisconnected | StIndeterminate | StRetired

datatype RepositoryMutationKind = Replace | Refresh | Disconnect

record RepositoryMutationTicket =
  mt_epoch :: nat
  mt_id :: nat
  mt_generation :: nat
  mt_secret_revision :: nat
  mt_kind :: RepositoryMutationKind

record RepositoryChildPolicyCheckpoint =
  cp_epoch :: nat
  cp_binding :: RepositoryConnectionBinding
  cp_revision :: nat

text \<open>A child policy ticket is its checkpoint.\<close>

type_synonym RepositoryChildPolicyTicket = RepositoryChildPolicyCheckpoint

datatype SettledCredentialState =
    SettledUnverified
  | SettledVerified VerifiedRepositoryAccount
  | SettledCompensated VerifiedRepositoryAccount
  | SettledDisconnected
  | SettledIndeterminate

record Published =
  pb_binding :: RepositoryConnectionBinding
  pb_verified :: VerifiedRepositoryAccount

record Mutation =
  mu_id :: nat
  mu_kind :: RepositoryMutationKind
  mu_previous :: "Published option"
  mu_previous_child_enabled :: bool

record ChildPolicyMutation =
  cm_revision :: nat
  cm_indeterminate :: bool

record State =
  st_status :: RepositoryConnectionState
  st_published :: "Published option"
  st_generation :: nat
  st_secret_revision :: nat
  st_child_revision :: nat
  st_child_enabled :: bool
  st_child_active :: "ChildPolicyMutation option"
  st_mutation_id :: nat
  st_reservation :: "nat option"
  st_active :: "Mutation option"
  st_backoff_until :: "nat option"

text \<open>The directory with its private epoch, and the native contexts with the heap they live in.\<close>

record Directory =
  di_epoch :: nat
  di_daemon_id :: rtext
  di_state :: State
  di_native :: "nat list"
  di_heap :: native_heap

record RepositorySecretRequest =
  sr_binding :: RepositoryConnectionBinding
  sr_secret_revision :: nat
  sr_source :: RepositoryCredentialSource

record RepositoryDispatchStamp =
  ds_epoch :: nat
  ds_binding :: RepositoryConnectionBinding
  ds_secret_revision :: nat
  ds_child_revision :: "nat option"
  ds_use_kind :: RepositoryCredentialUse

type_synonym 'a cred = "(RepositoryCredentialError, 'a) res"

definition directory_new :: "nat \<Rightarrow> rtext \<Rightarrow> Directory" where
  "directory_new epoch daemon_id =
     \<lparr>di_epoch = epoch, di_daemon_id = daemon_id,
      di_state = \<lparr>st_status = StUnverified, st_published = None, st_generation = 0, st_secret_revision = 0,
        st_child_revision = 0, st_child_enabled = False, st_child_active = None, st_mutation_id = 0,
        st_reservation = None, st_active = None, st_backoff_until = None\<rparr>,
      di_native = [], di_heap = (\<lambda>_. native_new)\<rparr>"

section \<open>The state under the lock\<close>

definition child_idle :: "State \<Rightarrow> unit cred" where
  "child_idle s =
     (case st_child_active s of
        Some active \<Rightarrow> if cm_indeterminate active then Inl Indeterminate else Inl Mutating
      | None \<Rightarrow> Inr ())"

fun unavailable_of :: "RepositoryConnectionState \<Rightarrow> RepositoryCredentialError" where
  "unavailable_of StUnverified = Unverified"
| "unavailable_of StReady = Missing"
| "unavailable_of StMutating = Mutating"
| "unavailable_of StDisconnected = Disconnected"
| "unavailable_of StIndeterminate = Indeterminate"
| "unavailable_of StRetired = Retired"

definition ready :: "State \<Rightarrow> Published cred" where
  "ready s =
     (if st_status s \<noteq> StReady then Inl (unavailable_of (st_status s))
      else case st_published s of None \<Rightarrow> Inl Missing | Some p \<Rightarrow> Inr p)"

definition advance :: "nat \<Rightarrow> State \<Rightarrow> nat cred \<times> State" where
  "advance value s =
     (case checked_add_u64 value 1 of
        Some n \<Rightarrow> (Inr n, s)
      | None \<Rightarrow> (Inl CounterExhausted,
          s\<lparr>st_status := StRetired, st_reservation := None, st_active := None, st_child_active := None\<rparr>))"

text \<open>The \<open>?\<close> operator on an operation that has already changed the state.\<close>

definition and_then :: "'a cred \<times> 's \<Rightarrow> ('a \<Rightarrow> 's \<Rightarrow> 'b cred \<times> 's) \<Rightarrow> 'b cred \<times> 's" where
  "and_then r k = (case r of (Inl e, s) \<Rightarrow> (Inl e, s) | (Inr a, s) \<Rightarrow> k a s)"

definition with_state :: "Directory \<Rightarrow> 'a cred \<times> State \<Rightarrow> 'a cred \<times> Directory" where
  "with_state d r = (case r of (a, s) \<Rightarrow> (a, d\<lparr>di_state := s\<rparr>))"

definition advance_generation :: "State \<Rightarrow> unit cred \<times> State" where
  "advance_generation s = and_then (advance (st_generation s) s) (\<lambda>n s. (Inr (), s\<lparr>st_generation := n\<rparr>))"

definition advance_secret :: "State \<Rightarrow> unit cred \<times> State" where
  "advance_secret s = and_then (advance (st_secret_revision s) s) (\<lambda>n s. (Inr (), s\<lparr>st_secret_revision := n\<rparr>))"

definition advance_child :: "State \<Rightarrow> unit cred \<times> State" where
  "advance_child s = and_then (advance (st_child_revision s) s) (\<lambda>n s. (Inr (), s\<lparr>st_child_revision := n\<rparr>))"

definition retire_native :: "Directory \<Rightarrow> Directory" where
  "retire_native d = d\<lparr>di_heap := contexts_retire (di_native d) (di_heap d)\<rparr>"

section \<open>Connection mutations\<close>

definition reserve_mutation :: "RepositoryMutationKind \<Rightarrow> Directory \<Rightarrow> RepositoryMutationTicket cred \<times> Directory" where
  "reserve_mutation kind d =
     (let s = di_state d in
      if st_active s \<noteq> None then (Inl (unavailable_of (st_status s)), d)
      else if st_status s = StRetired then (Inl Retired, d)
      else case (if kind = Refresh then map_sum id (\<lambda>_. ()) (ready s) else Inr ()) of
        Inl e \<Rightarrow> (Inl e, d)
      | Inr _ \<Rightarrow> with_state d
          (and_then (advance (st_mutation_id s) s) (\<lambda>n s.
             (Inr \<lparr>mt_epoch = di_epoch d, mt_id = n, mt_generation = st_generation s,
                   mt_secret_revision = st_secret_revision s, mt_kind = kind\<rparr>,
              s\<lparr>st_mutation_id := n, st_reservation := Some n\<rparr>))))"

definition owns_reservation :: "Directory \<Rightarrow> RepositoryMutationTicket \<Rightarrow> bool" where
  "owns_reservation d t \<longleftrightarrow>
     (let s = di_state d in
      mt_epoch t = di_epoch d \<and> st_reservation s = Some (mt_id t) \<and> mt_generation t = st_generation s \<and>
      mt_secret_revision t = st_secret_revision s \<and> st_active s = None)"

definition cancel_reservation :: "RepositoryMutationTicket \<Rightarrow> Directory \<Rightarrow> unit cred \<times> Directory" where
  "cancel_reservation t d =
     (if \<not> owns_reservation d t then (Inl StaleMutation, d)
      else (Inr (), d\<lparr>di_state := (di_state d)\<lparr>st_reservation := None\<rparr>\<rparr>))"

definition check_reservation :: "RepositoryMutationTicket \<Rightarrow> Directory \<Rightarrow> unit cred" where
  "check_reservation t d = (if \<not> owns_reservation d t then Inl StaleMutation else Inr ())"

definition begin_mutation :: "RepositoryMutationTicket \<Rightarrow> Directory \<Rightarrow> unit cred \<times> Directory" where
  "begin_mutation t d0 =
     (if \<not> owns_reservation d0 t then (Inl StaleMutation, d0)
      else
        (let d = retire_native d0; s = di_state d in
         with_state d
           (and_then
              (if mt_kind t \<noteq> Refresh
               then and_then (advance_generation s) (\<lambda>_ s. (Inr (), s\<lparr>st_child_active := None\<rparr>))
               else (Inr (), s))
              (\<lambda>_ s. (Inr (),
                 s\<lparr>st_active := Some \<lparr>mu_id = mt_id t, mu_kind = mt_kind t, mu_previous = st_published s,
                                    mu_previous_child_enabled = st_child_enabled s\<rparr>,
                   st_reservation := None, st_status := StMutating\<rparr>)))))"

definition check_mutation :: "RepositoryMutationTicket \<Rightarrow> Directory \<Rightarrow> unit cred" where
  "check_mutation t d =
     (let s = di_state d in
      if \<not> (st_status s = StMutating \<or> st_status s = StIndeterminate) \<or> mt_epoch t \<noteq> di_epoch d \<or>
         \<not> (case st_active s of Some a \<Rightarrow> mu_id a = mt_id t \<and> mu_kind a = mt_kind t | None \<Rightarrow> False)
      then Inl StaleMutation else Inr ())"

text \<open>\<open>connection_id\<close> is the fresh identifier drawn for a new connection.\<close>

definition new_binding :: "rtext \<Rightarrow> rtext \<Rightarrow> VerifiedRepositoryAccount \<Rightarrow> nat \<Rightarrow> RepositoryConnectionBinding" where
  "new_binding daemon_id connection_id verified gen =
     \<lparr>cb_daemon_id = daemon_id,
      cb_account = \<lparr>ak_provider = Gitlab, ak_instance_base_url = gd_instance (va_descriptor verified),
                    ak_account_id = va_account_id verified\<rparr>,
      cb_scope = \<lparr>cs_connection_id = connection_id, cs_account_id = va_account_id verified,
                  cs_connection_generation = gen\<rparr>\<rparr>"

definition publish ::
    "rtext \<Rightarrow> rtext \<Rightarrow> RepositoryMutationTicket \<Rightarrow> VerifiedRepositoryAccount \<Rightarrow> Published option \<Rightarrow> bool \<Rightarrow> bool \<Rightarrow>
     State \<Rightarrow> unit cred \<times> State" where
  "publish daemon_id connection_id t verified previous previous_child_enabled compensated s0 =
     (if mt_kind t = Disconnect \<and> \<not> compensated then (Inl Unverified, s0\<lparr>st_status := StIndeterminate\<rparr>)
      else
        (let same = (case previous of Some p \<Rightarrow> pb_verified p = verified | None \<Rightarrow> False);
             requested_refresh = (mt_kind t = Refresh \<and> \<not> compensated);
             refresh = (requested_refresh \<and> st_generation s0 = mt_generation t) in
         if (requested_refresh \<or> compensated) \<and> \<not> same
         then and_then (advance_generation s0) (\<lambda>_ s. (Inl Unverified, s\<lparr>st_status := StIndeterminate\<rparr>))
         else
           and_then (if compensated then advance_generation s0 else (Inr (), s0)) (\<lambda>_ s.
           and_then (advance_secret s) (\<lambda>_ s.
           and_then
             (if refresh
              then (case previous of Some p \<Rightarrow> (Inr (pb_binding p), s) | None \<Rightarrow> (Inl Unverified, s))
              else and_then (advance_child s) (\<lambda>_ s.
                     (Inr (new_binding daemon_id connection_id verified (st_generation s)),
                      s\<lparr>st_child_enabled := same \<and> previous_child_enabled, st_child_active := None\<rparr>)))
             (\<lambda>binding s.
                (Inr (), s\<lparr>st_published := Some \<lparr>pb_binding = binding, pb_verified = verified\<rparr>, st_status := StReady,
                           st_backoff_until := (if refresh then st_backoff_until s else None)\<rparr>))))))"

text \<open>\<open>None\<close> as a settlement outcome means that the mutation stays open.\<close>

definition settle_state ::
    "rtext \<Rightarrow> rtext \<Rightarrow> RepositoryMutationTicket \<Rightarrow> SettledCredentialState \<Rightarrow> Mutation \<Rightarrow> State \<Rightarrow> bool cred \<times> State" where
  "settle_state daemon_id connection_id t settled active s =
     (case settled of
        SettledUnverified \<Rightarrow>
          if mt_kind t \<noteq> Replace then (Inl StaleMutation, s)
          else and_then (advance_child s) (\<lambda>_ s.
                 (Inr True, s\<lparr>st_published := None, st_child_enabled := False, st_child_active := None,
                              st_status := StUnverified\<rparr>))
      | SettledIndeterminate \<Rightarrow> (Inr False, s\<lparr>st_status := StIndeterminate\<rparr>)
      | SettledDisconnected \<Rightarrow>
          and_then (advance_generation s) (\<lambda>_ s.
          and_then (advance_child s) (\<lambda>_ s.
            (Inr True, s\<lparr>st_published := None, st_child_enabled := False, st_child_active := None,
                         st_status := StDisconnected, st_backoff_until := None\<rparr>)))
      | SettledVerified verified \<Rightarrow>
          and_then (publish daemon_id connection_id t verified (mu_previous active)
                      (mu_previous_child_enabled active) False s) (\<lambda>_ s. (Inr True, s))
      | SettledCompensated verified \<Rightarrow>
          and_then (publish daemon_id connection_id t verified (mu_previous active)
                      (mu_previous_child_enabled active) True s) (\<lambda>_ s. (Inr True, s)))"

definition finish_mutation ::
    "rtext \<Rightarrow> RepositoryMutationTicket \<Rightarrow> SettledCredentialState \<Rightarrow> Directory \<Rightarrow>
     RepositoryConnectionBinding option cred \<times> Directory" where
  "finish_mutation connection_id t settled d =
     (case st_active (di_state d) of
        None \<Rightarrow> (Inl StaleMutation, d)
      | Some active \<Rightarrow>
          if mt_epoch t \<noteq> di_epoch d \<or> mu_id active \<noteq> mt_id t \<or> mu_kind active \<noteq> mt_kind t
          then (Inl StaleMutation, d)
          else if settled \<noteq> SettledIndeterminate \<and> \<not> contexts_settled (di_heap d) (di_native d)
          then (Inl Indeterminate, d)
          else with_state d
            (and_then (settle_state (di_daemon_id d) connection_id t settled active (di_state d)) (\<lambda>closed s.
               if closed
               then (Inr (map_option pb_binding (st_published s)), s\<lparr>st_active := None\<rparr>)
               else (Inr None, s))))"

definition directory_binding :: "Directory \<Rightarrow> RepositoryConnectionBinding cred" where
  "directory_binding d = map_sum id pb_binding (ready (di_state d))"

definition secret_request :: "State \<Rightarrow> Published \<Rightarrow> RepositorySecretRequest" where
  "secret_request s p =
     \<lparr>sr_binding = pb_binding p, sr_secret_revision = st_secret_revision s, sr_source = va_source (pb_verified p)\<rparr>"

definition selected_secret_request :: "RepositoryConnectionBinding \<Rightarrow> Directory \<Rightarrow> RepositorySecretRequest cred" where
  "selected_secret_request binding d =
     (case ready (di_state d) of
        Inl e \<Rightarrow> Inl e
      | Inr p \<Rightarrow> if pb_binding p \<noteq> binding then Inl Retired else Inr (secret_request (di_state d) p))"

section \<open>Child policy\<close>

definition set_child_policy :: "RepositoryConnectionBinding \<Rightarrow> bool \<Rightarrow> Directory \<Rightarrow> unit cred \<times> Directory" where
  "set_child_policy binding enabled d =
     (case ready (di_state d) of
        Inl e \<Rightarrow> (Inl e, d)
      | Inr p \<Rightarrow>
          if pb_binding p \<noteq> binding then (Inl Retired, d)
          else with_state d (and_then (advance_child (di_state d)) (\<lambda>_ s.
                 (Inr (), s\<lparr>st_child_enabled := enabled, st_child_active := None\<rparr>))))"

definition child_policy_checkpoint :: "RepositoryConnectionBinding \<Rightarrow> Directory \<Rightarrow> RepositoryChildPolicyCheckpoint cred" where
  "child_policy_checkpoint binding d =
     (case ready (di_state d) of
        Inl e \<Rightarrow> Inl e
      | Inr p \<Rightarrow>
          if pb_binding p \<noteq> binding then Inl Retired
          else case child_idle (di_state d) of
            Inl e \<Rightarrow> Inl e
          | Inr _ \<Rightarrow> Inr \<lparr>cp_epoch = di_epoch d, cp_binding = binding, cp_revision = st_child_revision (di_state d)\<rparr>)"

definition binding_current :: "Directory \<Rightarrow> RepositoryConnectionBinding \<Rightarrow> bool" where
  "binding_current d binding \<longleftrightarrow>
     (let s = di_state d in
      st_status s \<noteq> StRetired \<and> st_generation s = cs_connection_generation (cb_scope binding) \<and>
      (case st_published s of Some p \<Rightarrow> pb_binding p = binding | None \<Rightarrow> False))"

definition check_child_checkpoint :: "Directory \<Rightarrow> RepositoryChildPolicyCheckpoint \<Rightarrow> unit cred" where
  "check_child_checkpoint d c =
     (if cp_epoch c \<noteq> di_epoch d \<or> \<not> binding_current d (cp_binding c) then Inl Retired
      else if st_child_revision (di_state d) \<noteq> cp_revision c then Inl StaleMutation
      else Inr ())"

definition owns_child_policy :: "Directory \<Rightarrow> RepositoryChildPolicyTicket \<Rightarrow> unit cred" where
  "owns_child_policy d t =
     (case check_child_checkpoint d t of
        Inl e \<Rightarrow> Inl e
      | Inr _ \<Rightarrow>
          (case st_child_active (di_state d) of
             Some a \<Rightarrow> if cm_revision a \<noteq> cp_revision t then Inl StaleMutation else Inr ()
           | None \<Rightarrow> Inl StaleMutation))"

definition begin_child_policy ::
    "RepositoryChildPolicyCheckpoint \<Rightarrow> Directory \<Rightarrow> RepositoryChildPolicyTicket cred \<times> Directory" where
  "begin_child_policy c d =
     (case check_child_checkpoint d c of
        Inl e \<Rightarrow> (Inl e, d)
      | Inr _ \<Rightarrow>
          (case ready (di_state d) of
             Inl e \<Rightarrow> (Inl e, d)
           | Inr _ \<Rightarrow>
               (case child_idle (di_state d) of
                  Inl e \<Rightarrow> (Inl e, d)
                | Inr _ \<Rightarrow> with_state d (and_then (advance_child (di_state d)) (\<lambda>_ s.
                    (Inr \<lparr>cp_epoch = di_epoch d, cp_binding = cp_binding c, cp_revision = st_child_revision s\<rparr>,
                     s\<lparr>st_child_enabled := False,
                       st_child_active := Some \<lparr>cm_revision = st_child_revision s, cm_indeterminate = False\<rparr>\<rparr>))))))"

definition finish_child_policy :: "RepositoryChildPolicyTicket \<Rightarrow> bool \<Rightarrow> Directory \<Rightarrow> unit cred \<times> Directory" where
  "finish_child_policy t enabled d =
     (case owns_child_policy d t of
        Inl e \<Rightarrow> (Inl e, d)
      | Inr _ \<Rightarrow>
          (case ready (di_state d) of
             Inl e \<Rightarrow> (Inl e, d)
           | Inr _ \<Rightarrow> (Inr (), d\<lparr>di_state := (di_state d)\<lparr>st_child_enabled := enabled, st_child_active := None\<rparr>\<rparr>)))"

definition mark_child_policy_indeterminate :: "RepositoryChildPolicyTicket \<Rightarrow> Directory \<Rightarrow> unit cred \<times> Directory" where
  "mark_child_policy_indeterminate t d =
     (case owns_child_policy d t of
        Inl e \<Rightarrow> (Inl e, d)
      | Inr _ \<Rightarrow> (Inr (), d\<lparr>di_state := (di_state d)\<lparr>st_child_active :=
          map_option (\<lambda>a. a\<lparr>cm_indeterminate := True\<rparr>) (st_child_active (di_state d))\<rparr>\<rparr>))"

definition restore_child_policy :: "RepositoryConnectionBinding \<Rightarrow> bool \<Rightarrow> Directory \<Rightarrow> unit cred \<times> Directory" where
  "restore_child_policy binding enabled d =
     (case ready (di_state d) of
        Inl e \<Rightarrow> (Inl e, d)
      | Inr p \<Rightarrow>
          if pb_binding p \<noteq> binding then (Inl Retired, d)
          else case child_idle (di_state d) of
            Inl e \<Rightarrow> (Inl e, d)
          | Inr _ \<Rightarrow>
              if st_child_enabled (di_state d) = enabled then (Inr (), d)
              else with_state d (and_then (advance_child (di_state d)) (\<lambda>_ s.
                     (Inr (), s\<lparr>st_child_enabled := enabled\<rparr>))))"

section \<open>Retirement, rejection and backoff\<close>

definition directory_retire :: "Directory \<Rightarrow> unit cred \<times> Directory" where
  "directory_retire d0 =
     (let d = retire_native d0 in
      (Inr (), d\<lparr>di_state := (di_state d)\<lparr>st_status := StRetired, st_reservation := None, st_active := None,
                                        st_child_active := None\<rparr>\<rparr>))"

definition matches_stamp :: "Directory \<Rightarrow> RepositoryDispatchStamp \<Rightarrow> bool" where
  "matches_stamp d stamp \<longleftrightarrow>
     (let s = di_state d in
      ds_epoch stamp = di_epoch d \<and>
      (case st_published s of Some p \<Rightarrow> pb_binding p = ds_binding stamp | None \<Rightarrow> False) \<and>
      st_generation s = cs_connection_generation (cb_scope (ds_binding stamp)) \<and>
      (ds_use_kind stamp \<noteq> ChildGit \<or> (ds_child_revision stamp = Some (st_child_revision s) \<and> st_child_enabled s)))"

definition current_stamp :: "Directory \<Rightarrow> RepositoryDispatchStamp \<Rightarrow> bool" where
  "current_stamp d stamp \<longleftrightarrow> st_status (di_state d) = StReady \<and> matches_stamp d stamp"

definition refreshing_stamp :: "Directory \<Rightarrow> RepositoryDispatchStamp \<Rightarrow> bool" where
  "refreshing_stamp d stamp \<longleftrightarrow>
     st_status (di_state d) = StMutating \<and> matches_stamp d stamp \<and>
     (case st_active (di_state d) of
        None \<Rightarrow> False
      | Some active \<Rightarrow> mu_kind active = Refresh \<and>
          (case (mu_previous active, st_published (di_state d)) of
             (Some previous, Some published) \<Rightarrow>
               pb_binding previous = pb_binding published \<and> pb_verified previous = pb_verified published
           | _ \<Rightarrow> False))"

definition reject_current_credential :: "RepositoryDispatchStamp \<Rightarrow> Directory \<Rightarrow> bool cred \<times> Directory" where
  "reject_current_credential stamp d0 =
     (if \<not> current_stamp d0 stamp \<or> st_secret_revision (di_state d0) \<noteq> ds_secret_revision stamp then (Inr False, d0)
      else
        (let d = retire_native d0 in
         with_state d (and_then (advance_generation (di_state d)) (\<lambda>_ s.
           (Inr True, s\<lparr>st_status := StDisconnected, st_child_enabled := False, st_child_active := None,
                        st_reservation := None\<rparr>)))))"

definition record_backoff :: "RepositoryDispatchStamp \<Rightarrow> nat \<Rightarrow> Directory \<Rightarrow> bool cred \<times> Directory" where
  "record_backoff stamp until d =
     (if \<not> current_stamp d stamp \<and> \<not> refreshing_stamp d stamp then (Inr False, d)
      else (Inr True, d\<lparr>di_state := (di_state d)\<lparr>st_backoff_until :=
        Some (case st_backoff_until (di_state d) of None \<Rightarrow> until | Some old \<Rightarrow> max old until)\<rparr>\<rparr>))"

section \<open>Checkout metadata\<close>

definition instant_after :: "nat option \<Rightarrow> nat \<Rightarrow> bool" where
  "instant_after until now \<longleftrightarrow> (case until of Some u \<Rightarrow> u > now | None \<Rightarrow> False)"

definition checkout_child_metadata ::
    "RepositoryConnectionBinding \<Rightarrow> RepositorySecretRequest option \<Rightarrow> bool \<Rightarrow> nat option \<Rightarrow> nat \<Rightarrow> Directory \<Rightarrow>
     (GitlabDescriptor \<times> RepositorySecretRequest \<times> RepositoryDispatchStamp) cred" where
  "checkout_child_metadata original expected dispatch child_revision now d =
     (let s = di_state d in
      if cb_daemon_id original \<noteq> di_daemon_id d \<or> \<not> binding_current d original then Inl Retired
      else case ready s of
        Inl e \<Rightarrow> Inl e
      | Inr p \<Rightarrow>
          (case (case child_revision of
                   None \<Rightarrow> Inr ()
                 | Some revision \<Rightarrow>
                     (case child_idle s of
                        Inl e \<Rightarrow> Inl e
                      | Inr _ \<Rightarrow>
                          if revision \<noteq> st_child_revision s then Inl Retired
                          else if \<not> st_child_enabled s then Inl ChildDisabled else Inr ())) of
             Inl e \<Rightarrow> Inl e
           | Inr _ \<Rightarrow>
               (let selected = secret_request s p in
                if expected \<noteq> None \<and> expected \<noteq> Some selected then Inl SecretMismatch
                else if dispatch \<and> instant_after (st_backoff_until s) now then Inl Backoff
                else Inr (va_descriptor (pb_verified p), selected,
                  \<lparr>ds_epoch = di_epoch d, ds_binding = sr_binding selected, ds_secret_revision = sr_secret_revision selected,
                   ds_child_revision = child_revision,
                   ds_use_kind = (if child_revision \<noteq> None then ChildGit else NativeRead)\<rparr>))))"

definition checkout_metadata ::
    "RepositoryConnectionBinding \<Rightarrow> RepositorySecretRequest option \<Rightarrow> bool \<Rightarrow> nat \<Rightarrow> Directory \<Rightarrow>
     (GitlabDescriptor \<times> RepositorySecretRequest \<times> RepositoryDispatchStamp) cred" where
  "checkout_metadata original expected dispatch now d = checkout_child_metadata original expected dispatch None now d"

definition child_policy_metadata ::
    "RepositoryConnectionBinding \<Rightarrow> (bool \<times> nat) option \<Rightarrow> Directory \<Rightarrow>
     (GitlabDescriptor \<times> RepositorySecretRequest \<times> bool \<times> nat) cred" where
  "child_policy_metadata original expected d =
     (let s = di_state d in
      if cb_daemon_id original \<noteq> di_daemon_id d \<or> \<not> binding_current d original then Inl Retired
      else case ready s of
        Inl e \<Rightarrow> Inl e
      | Inr p \<Rightarrow>
          (case child_idle s of
             Inl e \<Rightarrow> Inl e
           | Inr _ \<Rightarrow>
               if expected \<noteq> None \<and> expected \<noteq> Some (st_child_enabled s, st_child_revision s) then Inl Retired
               else Inr (va_descriptor (pb_verified p), secret_request s p, st_child_enabled s, st_child_revision s)))"

section \<open>Admission and release\<close>

datatype RepositoryCredentialTransport = GitlabApi GitlabDescriptor | GitHttps "rtext list"

record ExecutionScope =
  ex_daemon_id :: rtext
  ex_authority_scope_id :: rtext
  ex_authority_generation :: nat

record RepositoryTarget =
  rt_provider :: RepositoryProvider
  rt_instance_base_url :: rtext
  rt_project_path :: rtext

record RepositoryAuthorityRequest =
  ar_execution :: ExecutionScope
  ar_target :: RepositoryTarget
  ar_connection :: RepositoryConnectionScope
  ar_use_kind :: RepositoryCredentialUse
  ar_allowed_transport :: RepositoryCredentialTransport

record RepositoryCredentialAdmission =
  ad_epoch :: nat
  ad_binding :: RepositoryConnectionBinding
  ad_descriptor :: GitlabDescriptor
  ad_request :: RepositoryAuthorityRequest
  ad_child_revision :: "nat option"

fun split_char :: "uchar \<Rightarrow> rtext \<Rightarrow> rtext list" where
  "split_char sep [] = [[]]"
| "split_char sep (c # t) =
     (if c = sep then [] # split_char sep t
      else (case split_char sep t of [] \<Rightarrow> [[c]] | p # ps \<Rightarrow> (c # p) # ps))"

definition is_project_char :: "uchar \<Rightarrow> bool" where
  "is_project_char b \<longleftrightarrow> 48 \<le> b \<and> b \<le> 57 \<or> 65 \<le> b \<and> b \<le> 90 \<or> 97 \<le> b \<and> b \<le> 122 \<or> b \<in> {46, 95, 45}"

definition valid_project :: "rtext \<Rightarrow> bool" where
  "valid_project path \<longleftrightarrow>
     list_all (\<lambda>c. c < 128) path \<and> length (split_char 47 path) \<ge> 2 \<and>
     list_all (\<lambda>part. part \<noteq> [] \<and> part \<noteq> lit ''.'' \<and> part \<noteq> lit ''..'' \<and> list_all is_project_char part) (split_char 47 path)"

definition git_destination :: "rtext \<Rightarrow> RepositoryTarget \<Rightarrow> bool" where
  "git_destination url target \<longleftrightarrow>
     (let expected = rt_instance_base_url target @ lit ''/'' @ rt_project_path target in
      url = expected \<or> url = expected @ lit ''.git'')"

fun transport_allowed ::
    "GitlabDescriptor \<Rightarrow> RepositoryTarget \<Rightarrow> RepositoryCredentialTransport \<Rightarrow> RepositoryCredentialUse \<Rightarrow> bool" where
  "transport_allowed descriptor target (GitlabApi ds) u \<longleftrightarrow>
     (u = NativeRead \<or> u = NativeReviewCreate) \<and> ds = descriptor"
| "transport_allowed descriptor target (GitHttps destinations) u \<longleftrightarrow>
     (u = NativeRead \<or> u = NativePush \<or> u = ChildGit) \<and> destinations \<noteq> [] \<and>
     list_all (\<lambda>url. git_destination url target) destinations"

definition admit_credential ::
    "RepositoryConnectionBinding \<Rightarrow> RepositoryAuthorityRequest \<Rightarrow> Directory \<Rightarrow> RepositoryCredentialAdmission cred" where
  "admit_credential binding request d =
     (let s = di_state d in
      case ready s of
        Inl e \<Rightarrow> Inl e
      | Inr p \<Rightarrow>
          if pb_binding p \<noteq> binding \<or> st_generation s \<noteq> cs_connection_generation (cb_scope binding) then Inl Retired
          else if ex_daemon_id (ar_execution request) \<noteq> di_daemon_id d \<or> ar_connection request \<noteq> cb_scope binding \<or>
            rt_provider (ar_target request) \<noteq> ak_provider (cb_account binding) \<or>
            rt_instance_base_url (ar_target request) \<noteq> ak_instance_base_url (cb_account binding) \<or>
            \<not> valid_project (rt_project_path (ar_target request)) then Inl BoundaryMismatch
          else if \<not> transport_allowed (va_descriptor (pb_verified p)) (ar_target request) (ar_allowed_transport request) (ar_use_kind request)
          then Inl BoundaryMismatch
          else if ar_use_kind request = ChildGit \<and> \<not> st_child_enabled s then Inl ChildDisabled
          else Inr \<lparr>ad_epoch = di_epoch d, ad_binding = binding, ad_descriptor = va_descriptor (pb_verified p), ad_request = request,
                    ad_child_revision = (if ar_use_kind request = ChildGit then Some (st_child_revision s) else None)\<rparr>)"

definition check_locked :: "nat \<Rightarrow> RepositoryCredentialAdmission \<Rightarrow> Directory \<Rightarrow> Published cred" where
  "check_locked now a d =
     (let s = di_state d in
      if ad_epoch a \<noteq> di_epoch d \<or> cb_daemon_id (ad_binding a) \<noteq> di_daemon_id d \<or> \<not> binding_current d (ad_binding a)
      then Inl Retired
      else case ready s of
        Inl e \<Rightarrow> Inl e
      | Inr p \<Rightarrow>
          if ad_child_revision a \<noteq> None \<and> ad_child_revision a \<noteq> Some (st_child_revision s) then Inl Retired
          else if ad_child_revision a \<noteq> None \<and> \<not> st_child_enabled s then Inl ChildDisabled
          else if instant_after (st_backoff_until s) now then Inl Backoff
          else Inr p)"

definition check_current :: "nat \<Rightarrow> RepositoryCredentialAdmission \<Rightarrow> Directory \<Rightarrow> unit cred" where
  "check_current now a d = map_sum id (\<lambda>_. ()) (check_locked now a d)"

text \<open>
  \<open>acquire_exact\<close> around its two suspension points: what it asks the secret reader for, and the release
  under the authority fence once the reader has answered with \<open>snapshot\<close>.
\<close>

definition acquire_expected :: "nat \<Rightarrow> RepositoryCredentialAdmission \<Rightarrow> Directory \<Rightarrow> RepositorySecretRequest cred" where
  "acquire_expected now a d = map_sum id (secret_request (di_state d)) (check_locked now a d)"

definition acquire_release ::
    "nat \<Rightarrow> RepositoryCredentialAdmission \<Rightarrow> RepositorySecretRequest \<Rightarrow> RepositorySecretRequest \<Rightarrow> Directory \<Rightarrow>
     RepositoryDispatchStamp cred" where
  "acquire_release now a expected snapshot d =
     (if snapshot \<noteq> expected then Inl SecretMismatch
      else case check_locked now a d of
        Inl e \<Rightarrow> Inl e
      | Inr _ \<Rightarrow>
          if st_secret_revision (di_state d) \<noteq> sr_secret_revision expected then Inl SecretMismatch
          else Inr \<lparr>ds_epoch = di_epoch d, ds_binding = ad_binding a, ds_secret_revision = st_secret_revision (di_state d),
                    ds_child_revision = ad_child_revision a, ds_use_kind = ar_use_kind (ad_request a)\<rparr>)"

text \<open>The last check before an authenticated request is handed over.\<close>

definition admit_http :: "nat \<Rightarrow> RepositoryCredentialAdmission \<Rightarrow> RepositoryDispatchStamp \<Rightarrow> Directory \<Rightarrow> unit cred" where
  "admit_http now a stamp d =
     (case check_locked now a d of
        Inl e \<Rightarrow> Inl e
      | Inr _ \<Rightarrow>
          if ds_epoch stamp \<noteq> di_epoch d \<or> ds_binding stamp \<noteq> ad_binding a \<or> ds_child_revision stamp \<noteq> ad_child_revision a \<or>
             ds_use_kind stamp \<noteq> ar_use_kind (ad_request a) then Inl Retired
          else if ds_secret_revision stamp \<noteq> st_secret_revision (di_state d) then Inl SecretMismatch
          else Inr ())"

text \<open>The receipt of a response: its backoff, then the rejection a 401 asks for.\<close>

definition observe_response :: "RepositoryDispatchStamp \<Rightarrow> nat option \<Rightarrow> nat \<Rightarrow> Directory \<Rightarrow> Directory" where
  "observe_response stamp backoff_until http_status d =
     (let d1 = (case backoff_until of Some until \<Rightarrow> snd (record_backoff stamp until d) | None \<Rightarrow> d) in
      if http_status = 401 then snd (reject_current_credential stamp d1) else d1)"

end
