(* ===== verification/CredentialFences.thy ===== *)
theory CredentialFences
  imports CredentialDirectory
begin

text \<open>
  Runs of the credential directory. Mutation tickets come only from reservations, so a run keeps the
  tickets it has handed out and refers to them by position; everything else an operation is given is
  arbitrary. The lemmas give the invariant of the directory, what only ever grows, and from these the
  fences: no binding of an older generation is honoured again, a secret is released only while the
  publication it was read for stands, and a mutation settles only after every native context it retired
  has joined.
\<close>

section \<open>Runs\<close>

record World =
  wo_dir :: Directory
  wo_tickets :: "RepositoryMutationTicket list"

datatype cred_op =
    CReserve RepositoryMutationKind
  | CCancel nat
  | CBegin nat
  | CFinish rtext nat SettledCredentialState
  | CSetChild RepositoryConnectionBinding bool
  | CBeginChild RepositoryChildPolicyCheckpoint
  | CFinishChild RepositoryChildPolicyTicket bool
  | CMarkChild RepositoryChildPolicyTicket
  | CRestoreChild RepositoryConnectionBinding bool
  | CRetire
  | CObserve RepositoryDispatchStamp "nat option" nat
  | CRetain nat
  | CBindResponse nat rtext
  | CRetireNative nat
  | CProducerFinished nat
  | CDrive nat bool
  | CJoined

definition at_heap :: "nat \<Rightarrow> (NativeAllocation \<Rightarrow> NativeAllocation) \<Rightarrow> Directory \<Rightarrow> Directory" where
  "at_heap a f d = d\<lparr>di_heap := (di_heap d)(a := f (di_heap d a))\<rparr>"

definition on_ticket :: "World \<Rightarrow> nat \<Rightarrow> (RepositoryMutationTicket \<Rightarrow> Directory \<Rightarrow> 'a cred \<times> Directory) \<Rightarrow> World" where
  "on_ticket w i f = (if i < length (wo_tickets w) then w\<lparr>wo_dir := snd (f (wo_tickets w ! i) (wo_dir w))\<rparr> else w)"

fun cred_step :: "World \<Rightarrow> cred_op \<Rightarrow> World" where
  "cred_step w (CReserve kind) =
     (case reserve_mutation kind (wo_dir w) of
        (Inr t, d) \<Rightarrow> \<lparr>wo_dir = d, wo_tickets = wo_tickets w @ [t]\<rparr>
      | (Inl _, d) \<Rightarrow> w\<lparr>wo_dir := d\<rparr>)"
| "cred_step w (CCancel i) = on_ticket w i cancel_reservation"
| "cred_step w (CBegin i) = on_ticket w i begin_mutation"
| "cred_step w (CFinish connection_id i settled) = on_ticket w i (\<lambda>t. finish_mutation connection_id t settled)"
| "cred_step w (CSetChild binding enabled) = w\<lparr>wo_dir := snd (set_child_policy binding enabled (wo_dir w))\<rparr>"
| "cred_step w (CBeginChild c) = w\<lparr>wo_dir := snd (begin_child_policy c (wo_dir w))\<rparr>"
| "cred_step w (CFinishChild t enabled) = w\<lparr>wo_dir := snd (finish_child_policy t enabled (wo_dir w))\<rparr>"
| "cred_step w (CMarkChild t) = w\<lparr>wo_dir := snd (mark_child_policy_indeterminate t (wo_dir w))\<rparr>"
| "cred_step w (CRestoreChild binding enabled) = w\<lparr>wo_dir := snd (restore_child_policy binding enabled (wo_dir w))\<rparr>"
| "cred_step w CRetire = w\<lparr>wo_dir := snd (directory_retire (wo_dir w))\<rparr>"
| "cred_step w (CObserve stamp backoff http_status) = w\<lparr>wo_dir := observe_response stamp backoff http_status (wo_dir w)\<rparr>"
| "cred_step w (CRetain a) =
     w\<lparr>wo_dir := (wo_dir w)\<lparr>di_native := snd (contexts_retain (di_heap (wo_dir w)) a (di_native (wo_dir w)))\<rparr>\<rparr>"
| "cred_step w (CBindResponse a session) = w\<lparr>wo_dir := at_heap a (\<lambda>n. snd (bind_response session n)) (wo_dir w)\<rparr>"
| "cred_step w (CRetireNative a) = w\<lparr>wo_dir := at_heap a native_retire (wo_dir w)\<rparr>"
| "cred_step w (CProducerFinished a) = w\<lparr>wo_dir := at_heap a producer_finished (wo_dir w)\<rparr>"
| "cred_step w (CDrive a peer_joined) = w\<lparr>wo_dir := at_heap a (drive peer_joined) (wo_dir w)\<rparr>"
| "cred_step w CJoined = w\<lparr>wo_dir := (wo_dir w)\<lparr>di_native := contexts_joined (di_heap (wo_dir w)) (di_native (wo_dir w))\<rparr>\<rparr>"

definition world_new :: "nat \<Rightarrow> rtext \<Rightarrow> World" where
  "world_new epoch daemon_id = \<lparr>wo_dir = directory_new epoch daemon_id, wo_tickets = []\<rparr>"

section \<open>The invariant\<close>

definition gen_of :: "Published \<Rightarrow> nat" where
  "gen_of p = cs_connection_generation (cb_scope (pb_binding p))"

definition binding_ok :: "rtext \<Rightarrow> Published \<Rightarrow> bool" where
  "binding_ok daemon_id p \<longleftrightarrow>
     pb_binding p = new_binding daemon_id (cs_connection_id (cb_scope (pb_binding p))) (pb_verified p) (gen_of p)"

definition st_inv :: "rtext \<Rightarrow> State \<Rightarrow> bool" where
  "st_inv daemon_id s \<longleftrightarrow>
     st_generation s \<le> u64_max \<and> st_secret_revision s \<le> u64_max \<and> st_child_revision s \<le> u64_max \<and> st_mutation_id s \<le> u64_max \<and>
     (st_status s = StRetired \<longrightarrow> st_reservation s = None \<and> st_active s = None \<and> st_child_active s = None) \<and>
     (st_active s \<noteq> None \<longleftrightarrow> st_status s = StMutating \<or> st_status s = StIndeterminate) \<and>
     (\<forall>m. st_active s = Some m \<longrightarrow> st_reservation s = None \<and> mu_id m = st_mutation_id s \<and> mu_previous m = st_published s) \<and>
     (st_reservation s = None \<or> st_reservation s = Some (st_mutation_id s)) \<and>
     (\<forall>c. st_child_active s = Some c \<longrightarrow> cm_revision c = st_child_revision s \<and> \<not> st_child_enabled s) \<and>
     (\<forall>p. st_published s = Some p \<longrightarrow> binding_ok daemon_id p \<and> gen_of p \<le> st_generation s) \<and>
     (st_status s = StReady \<longrightarrow> (\<exists>p. st_published s = Some p \<and> gen_of p = st_generation s))"

definition ticket_ok :: "State \<Rightarrow> RepositoryMutationTicket \<Rightarrow> bool" where
  "ticket_ok s t \<longleftrightarrow>
     mt_id t \<le> st_mutation_id s \<and> mt_generation t \<le> st_generation s \<and>
     (mt_kind t = Refresh \<and> st_reservation s = Some (mt_id t) \<longrightarrow> st_status s = StReady) \<and>
     (\<forall>m. st_active s = Some m \<and> mu_id m = mt_id t \<and> mt_kind t = Refresh \<and>
          st_generation s = mt_generation t \<longrightarrow> (\<exists>p. st_published s = Some p \<and> gen_of p = st_generation s))"

definition dir_inv :: "RepositoryMutationTicket list \<Rightarrow> Directory \<Rightarrow> bool" where
  "dir_inv ts d \<longleftrightarrow> st_inv (di_daemon_id d) (di_state d) \<and>
     (\<forall>t \<in> set ts. mt_epoch t = di_epoch d \<and> ticket_ok (di_state d) t)"

text \<open>What only grows: the counters, what is retired and joined, and publications with the secret revision.\<close>

definition st_below :: "State \<Rightarrow> State \<Rightarrow> bool" where
  "st_below s s' \<longleftrightarrow>
     st_generation s \<le> st_generation s' \<and> st_secret_revision s \<le> st_secret_revision s' \<and>
     st_child_revision s \<le> st_child_revision s' \<and> st_mutation_id s \<le> st_mutation_id s' \<and>
     (st_status s = StRetired \<longrightarrow> st_status s' = StRetired) \<and>
     (st_secret_revision s' = st_secret_revision s \<longrightarrow> st_published s' = st_published s \<or> st_published s' = None)"

definition dir_below :: "Directory \<Rightarrow> Directory \<Rightarrow> bool" where
  "dir_below d d' \<longleftrightarrow>
     di_epoch d' = di_epoch d \<and> di_daemon_id d' = di_daemon_id d \<and> st_below (di_state d) (di_state d') \<and>
     heap_below (di_heap d) (di_heap d') \<and>
     (\<forall>a \<in> set (di_native d). a \<in> set (di_native d') \<or> is_joined (di_heap d' a))"

section \<open>Postconditions\<close>

definition post :: "('r \<Rightarrow> 's \<Rightarrow> bool) \<Rightarrow> 'r \<times> 's \<Rightarrow> bool" where
  "post P r \<longleftrightarrow> P (fst r) (snd r)"

definition overflowed :: "State \<Rightarrow> State" where
  "overflowed s = s\<lparr>st_status := StRetired, st_reservation := None, st_active := None, st_child_active := None\<rparr>"

lemma post_pair [simp]: "post P (a, s) \<longleftrightarrow> P a s"
  by (simp add: post_def)

lemma post_if [simp]: "post P (if c then x else y) \<longleftrightarrow> (c \<longrightarrow> post P x) \<and> (\<not> c \<longrightarrow> post P y)"
  by simp

lemma post_and_then [simp]:
  "post P (and_then r k) \<longleftrightarrow> post (\<lambda>a s. case a of Inl e \<Rightarrow> P (Inl e) s | Inr x \<Rightarrow> post P (k x s)) r"
  by (cases r) (auto simp: post_def and_then_def split: sum.split)

lemma post_with_state [simp]: "post P (with_state d r) \<longleftrightarrow> post (\<lambda>a s. P a (d\<lparr>di_state := s\<rparr>)) r"
  by (cases r) (simp add: with_state_def)

lemma post_advance [simp]:
  "post P (advance v s) \<longleftrightarrow>
     (v < u64_max \<longrightarrow> P (Inr (Suc v)) s) \<and> (u64_max \<le> v \<longrightarrow> P (Inl CounterExhausted) (overflowed s))"
  by (auto simp: advance_def checked_add_u64_def overflowed_def)

lemma post_advance_generation [simp]:
  "post P (advance_generation s) \<longleftrightarrow>
     (st_generation s < u64_max \<longrightarrow> P (Inr ()) (s\<lparr>st_generation := Suc (st_generation s)\<rparr>)) \<and>
     (u64_max \<le> st_generation s \<longrightarrow> P (Inl CounterExhausted) (overflowed s))"
  by (simp add: advance_generation_def)

lemma post_advance_secret [simp]:
  "post P (advance_secret s) \<longleftrightarrow>
     (st_secret_revision s < u64_max \<longrightarrow> P (Inr ()) (s\<lparr>st_secret_revision := Suc (st_secret_revision s)\<rparr>)) \<and>
     (u64_max \<le> st_secret_revision s \<longrightarrow> P (Inl CounterExhausted) (overflowed s))"
  by (simp add: advance_secret_def)

lemma post_advance_child [simp]:
  "post P (advance_child s) \<longleftrightarrow>
     (st_child_revision s < u64_max \<longrightarrow> P (Inr ()) (s\<lparr>st_child_revision := Suc (st_child_revision s)\<rparr>)) \<and>
     (u64_max \<le> st_child_revision s \<longrightarrow> P (Inl CounterExhausted) (overflowed s))"
  by (simp add: advance_child_def)

section \<open>Every operation keeps the invariant and only grows\<close>

text \<open>The changes that keep every ticket's obligations.\<close>

definition calm :: "State \<Rightarrow> State \<Rightarrow> bool" where
  "calm s s' \<longleftrightarrow> st_below s s' \<and>
     (st_reservation s' = None \<or> st_reservation s' = st_reservation s \<and> st_status s' = st_status s) \<and>
     (st_active s' = None \<or> st_active s' = st_active s \<and> st_published s' = st_published s)"

lemma st_below_refl [simp]: "st_below s s"
  by (simp add: st_below_def)

lemma calm_refl [simp]: "calm s s"
  by (simp add: calm_def)

lemma ticket_calm:
  assumes "ticket_ok s t" "calm s s'"
  shows "ticket_ok s' t"
proof -
  have le: "mt_id t \<le> st_mutation_id s'" "mt_generation t \<le> st_generation s'" "st_generation s \<le> st_generation s'"
    using assms by (auto simp: ticket_ok_def calm_def st_below_def)
  have "st_status s' = StReady" if "mt_kind t = Refresh" "st_reservation s' = Some (mt_id t)"
    using that assms by (auto simp: ticket_ok_def calm_def)
  moreover have "\<exists>p. st_published s' = Some p \<and> gen_of p = st_generation s'"
    if m: "st_active s' = Some m" "mu_id m = mt_id t" "mt_kind t = Refresh" "st_generation s' = mt_generation t" for m
  proof -
    have "st_active s = Some m" "st_published s' = st_published s" using m assms(2) by (auto simp: calm_def)
    moreover have "st_generation s = mt_generation t" using m(4) le(3) assms(1) by (auto simp: ticket_ok_def)
    ultimately show ?thesis using m assms(1) by (auto simp: ticket_ok_def)
  qed
  ultimately show ?thesis using le by (auto simp: ticket_ok_def)
qed

text \<open>An operation on the state, and one on the directory that touches only the state and retirements.\<close>

definition good :: "rtext \<Rightarrow> State \<Rightarrow> State \<Rightarrow> bool" where
  "good n s s' \<longleftrightarrow> st_inv n s' \<and> calm s s'"

definition frame_ok :: "Directory \<Rightarrow> Directory \<Rightarrow> bool" where
  "frame_ok d d' \<longleftrightarrow> di_epoch d' = di_epoch d \<and> di_daemon_id d' = di_daemon_id d \<and> di_native d' = di_native d \<and>
     heap_below (di_heap d) (di_heap d')"

lemma frame_ok_state [simp]: "frame_ok d (d\<lparr>di_state := s\<rparr>)" "frame_ok d d"
  "frame_ok d ((retire_native d)\<lparr>di_state := s\<rparr>)"
  by (simp_all add: frame_ok_def retire_native_def)

lemma retire_native_state [simp]: "di_state (retire_native d) = di_state d"
  by (simp add: retire_native_def)

lemma good_refl: "st_inv n s \<Longrightarrow> good n s s"
  by (simp add: good_def)

lemma good_overflowed: "st_inv n s \<Longrightarrow> good n s (overflowed s)"
  by (simp add: good_def overflowed_def st_inv_def calm_def st_below_def)

lemma ready_Inr: "ready s = Inr p \<longleftrightarrow> st_status s = StReady \<and> st_published s = Some p"
  by (auto simp: ready_def split: option.splits if_splits)

lemma ready_map: "map_sum id (\<lambda>_. ()) (ready s) = Inr () \<longleftrightarrow> st_status s = StReady \<and> st_published s \<noteq> None"
  by (auto simp: ready_def split: option.splits if_splits)

definition good_op :: "Directory \<Rightarrow> 'r \<times> Directory \<Rightarrow> bool" where
  "good_op d r \<longleftrightarrow>
     (st_inv (di_daemon_id d) (di_state d) \<longrightarrow>
      frame_ok d (snd r) \<and> good (di_daemon_id d) (di_state d) (di_state (snd r)))"

lemma good_opI:
  assumes "st_inv (di_daemon_id d) (di_state d) \<Longrightarrow>
    post (\<lambda>_ d'. frame_ok d d' \<and> good (di_daemon_id d) (di_state d) (di_state d')) r"
  shows "good_op d r"
  using assms by (simp add: good_op_def post_def)

lemmas good_defs = good_def st_inv_def calm_def st_below_def

lemma cancel_good: "good_op d (cancel_reservation t d)"
  by (rule good_opI) (simp add: cancel_reservation_def good_refl, simp add: good_defs)

lemma set_child_good: "good_op d (set_child_policy binding enabled d)"
  by (rule good_opI)
    (simp add: set_child_policy_def good_refl good_overflowed split: sum.split, simp add: good_defs)

lemma begin_child_good: "good_op d (begin_child_policy c d)"
  by (rule good_opI)
    (simp add: begin_child_policy_def good_refl good_overflowed ready_Inr split: sum.split, simp add: good_defs)

lemma finish_child_good: "good_op d (finish_child_policy t enabled d)"
  by (rule good_opI)
    (simp add: finish_child_policy_def good_refl split: sum.split, simp add: good_defs)

lemma mark_child_good: "good_op d (mark_child_policy_indeterminate t d)"
  by (rule good_opI)
    (simp add: mark_child_policy_indeterminate_def good_refl split: sum.split, auto simp add: good_defs)

lemma restore_child_good: "good_op d (restore_child_policy binding enabled d)"
  by (rule good_opI)
    (simp add: restore_child_policy_def good_refl good_overflowed child_idle_def split: sum.split option.split, simp add: good_defs)

lemma retire_good: "good_op d (directory_retire d)"
  by (rule good_opI) (simp add: directory_retire_def Let_def, simp add: good_defs)

lemma reject_good: "good_op d (reject_current_credential stamp d)"
  by (rule good_opI)
    (simp add: reject_current_credential_def good_refl good_overflowed Let_def current_stamp_def, simp add: good_defs le_SucI)

lemma backoff_good: "good_op d (record_backoff stamp until d)"
  by (rule good_opI) (simp add: record_backoff_def good_refl, simp add: good_defs)

text \<open>A settlement either keeps the mutation open or closes it.\<close>

definition settles_ok :: "rtext \<Rightarrow> State \<Rightarrow> bool \<Rightarrow> State \<Rightarrow> bool" where
  "settles_ok n s closed s' \<longleftrightarrow> (if closed then good n s (s'\<lparr>st_active := None\<rparr>) else good n s s')"

lemma new_binding_ok [simp]:
  "binding_ok n \<lparr>pb_binding = new_binding n cid v g, pb_verified = v\<rparr>"
  "gen_of \<lparr>pb_binding = new_binding n cid v g, pb_verified = v\<rparr> = g"
  by (simp_all add: binding_ok_def gen_of_def new_binding_def)

lemma publish_good:
  assumes inv: "st_inv n s" and m: "st_active s = Some m" "mu_id m = mt_id t" and t: "ticket_ok s t"
  shows "post (\<lambda>r s'. settles_ok n s (is_ok r) s') (publish n cid t v (mu_previous m) b compensated s)"
proof -
  have prev: "mu_previous m = st_published s"
    and st: "st_status s = StMutating \<or> st_status s = StIndeterminate" "st_reservation s = None"
    using inv m(1) by (auto simp: st_inv_def)
  have ref: "\<exists>p. st_published s = Some p \<and> gen_of p = st_generation s" if "mt_kind t = Refresh" "st_generation s = mt_generation t"
    using t m(1,2) that by (auto simp: ticket_ok_def)
  show ?thesis
  proof (cases "mt_kind t = Disconnect \<and> \<not> compensated")
    case True
    then show ?thesis using inv m(1) st by (simp add: publish_def settles_ok_def good_defs)
  next
    case False
    define same where "same = (case st_published s of Some p \<Rightarrow> pb_verified p = v | None \<Rightarrow> False)"
    define refresh where "refresh \<longleftrightarrow> mt_kind t = Refresh \<and> \<not> compensated \<and> st_generation s = mt_generation t"
    have pub: "publish n cid t v (mu_previous m) b compensated s =
      (if (mt_kind t = Refresh \<and> \<not> compensated \<or> compensated) \<and> \<not> same
         then and_then (advance_generation s) (\<lambda>_ s. (Inl Unverified, s\<lparr>st_status := StIndeterminate\<rparr>))
         else
           and_then (if compensated then advance_generation s else (Inr (), s)) (\<lambda>_ s1.
           and_then (advance_secret s1) (\<lambda>_ s2.
           and_then
             (if refresh
              then (case st_published s of Some p \<Rightarrow> (Inr (pb_binding p), s2) | None \<Rightarrow> (Inl Unverified, s2))
              else and_then (advance_child s2) (\<lambda>_ s3.
                     (Inr (new_binding n cid v (st_generation s3)),
                      s3\<lparr>st_child_enabled := same \<and> b, st_child_active := None\<rparr>)))
             (\<lambda>binding s4.
                (Inr (), s4\<lparr>st_published := Some \<lparr>pb_binding = binding, pb_verified = v\<rparr>, st_status := StReady,
                           st_backoff_until := (if refresh then st_backoff_until s4 else None)\<rparr>)))))"
      using False unfolding publish_def prev same_def refresh_def Let_def by (simp add: conj_assoc)
    show ?thesis
    proof (cases "refresh \<and> same")
      case True
      then obtain p where p: "st_published s = Some p" "gen_of p = st_generation s" "pb_verified p = v"
        using ref by (auto simp: refresh_def same_def split: option.splits)
      have "binding_ok n \<lparr>pb_binding = pb_binding p, pb_verified = v\<rparr> = binding_ok n p"
        "gen_of \<lparr>pb_binding = pb_binding p, pb_verified = v\<rparr> = gen_of p"
        using p(3) by (simp_all add: binding_ok_def gen_of_def)
      with True p inv m(1) st show ?thesis unfolding pub
        by (simp add: refresh_def settles_ok_def overflowed_def, simp add: good_defs)
    next
      case not_same: False
      show ?thesis
      proof (cases "(mt_kind t = Refresh \<and> \<not> compensated \<or> compensated) \<and> \<not> same")
        case True
        with inv m(1) st show ?thesis unfolding pub
          by (simp add: settles_ok_def overflowed_def, simp add: good_defs le_SucI)
      next
        case False
        with not_same have "\<not> refresh" by (auto simp: refresh_def)
        with False inv m(1) st show ?thesis unfolding pub
          by (simp add: settles_ok_def overflowed_def, simp add: good_defs le_SucI)
      qed
    qed
  qed
qed

lemma settle_good:
  assumes inv: "st_inv n s" and m: "st_active s = Some m" "mu_id m = mt_id t" and t: "ticket_ok s t"
  shows "post (\<lambda>r s'. settles_ok n s (case r of Inr closed \<Rightarrow> closed | Inl _ \<Rightarrow> False) s') (settle_state n cid t settled m s)"
proof -
  have st: "st_status s = StMutating \<or> st_status s = StIndeterminate" "st_reservation s = None"
    using inv m(1) by (auto simp: st_inv_def)
  have pub: "post (\<lambda>a s'. case a of Inl e \<Rightarrow> settles_ok n s False s' | Inr x \<Rightarrow> settles_ok n s True s')
      (publish n cid t v (mu_previous m) b compensated s)" for v b compensated
    using publish_good [OF inv m t, of cid v b compensated]
    by (cases "publish n cid t v (mu_previous m) b compensated s") (auto split: sum.split)
  show ?thesis
  proof (cases settled)
    case (SettledVerified v)
    then show ?thesis using pub [of v "mu_previous_child_enabled m" False]
      by (cases "publish n cid t v (mu_previous m) (mu_previous_child_enabled m) False s")
        (auto simp: settle_state_def and_then_def split: sum.splits)
  next
    case (SettledCompensated v)
    then show ?thesis using pub [of v "mu_previous_child_enabled m" True]
      by (cases "publish n cid t v (mu_previous m) (mu_previous_child_enabled m) True s")
        (auto simp: settle_state_def and_then_def split: sum.splits)
  qed (use inv m(1) st in \<open>simp_all add: settle_state_def settles_ok_def good_refl overflowed_def, simp_all add: good_defs le_SucI\<close>)
qed

lemma finish_good:
  assumes "ticket_ok (di_state d) t"
  shows "good_op d (finish_mutation cid t settled d)"
proof (rule good_opI)
  assume inv: "st_inv (di_daemon_id d) (di_state d)"
  show "post (\<lambda>_ d'. frame_ok d d' \<and> good (di_daemon_id d) (di_state d) (di_state d')) (finish_mutation cid t settled d)"
  proof (cases "st_active (di_state d)")
    case None
    then show ?thesis using inv by (simp add: finish_mutation_def good_refl)
  next
    case (Some m)
    show ?thesis
    proof (cases "mu_id m = mt_id t")
      case True
      obtain r s' where e: "settle_state (di_daemon_id d) cid t settled m (di_state d) = (r, s')" by fastforce
      with settle_good [OF inv Some True assms, of cid settled] Some inv show ?thesis
        by (cases r; cases "mt_epoch t \<noteq> di_epoch d \<or> mu_kind m \<noteq> mt_kind t";
            cases "settled \<noteq> SettledIndeterminate \<and> \<not> contexts_settled (di_heap d) (di_native d)")
          (auto simp: finish_mutation_def good_refl settles_ok_def and_then_def with_state_def split: if_splits)
    next
      case False
      then show ?thesis using Some inv by (simp add: finish_mutation_def good_refl)
    qed
  qed
qed

text \<open>Together: one step of a run.\<close>

definition keeps :: "RepositoryMutationTicket list \<Rightarrow> Directory \<Rightarrow> Directory \<Rightarrow> bool" where
  "keeps ts d d' \<longleftrightarrow> dir_inv ts d' \<and> dir_below d d'"

lemma good_op_keeps:
  assumes "dir_inv ts d" "good_op d r"
  shows "keeps ts d (snd r)"
  using assms ticket_calm by (auto simp: keeps_def good_op_def dir_inv_def dir_below_def frame_ok_def good_def calm_def)

lemma reserve_inv:
  assumes inv: "st_inv n s" and s': "s' = s\<lparr>st_mutation_id := Suc (st_mutation_id s), st_reservation := Some (Suc (st_mutation_id s))\<rparr>"
    and a: "st_active s = None" "st_status s \<noteq> StRetired" "st_mutation_id s < u64_max"
  shows "st_inv n s'" "st_below s s'" "ticket_ok s t \<Longrightarrow> ticket_ok s' t"
    "mt_id t = Suc (st_mutation_id s) \<Longrightarrow> mt_generation t = st_generation s \<Longrightarrow>
       (mt_kind t = Refresh \<longrightarrow> st_status s = StReady) \<Longrightarrow> ticket_ok s' t"
  using inv a unfolding s' by (simp_all add: st_inv_def st_below_def ticket_ok_def)

lemma reserve_keeps:
  assumes "dir_inv ts d"
  shows "post (\<lambda>r d'. keeps (case r of Inr t \<Rightarrow> ts @ [t] | Inl _ \<Rightarrow> ts) d d') (reserve_mutation kind d)"
proof -
  let ?s = "di_state d"
  have inv: "st_inv (di_daemon_id d) ?s" and ts: "\<forall>t \<in> set ts. mt_epoch t = di_epoch d \<and> ticket_ok ?s t"
    using assms by (simp_all add: dir_inv_def)
  have same: "keeps ts d d" using good_op_keeps [OF assms, of "((), d)"] inv by (simp add: good_op_def good_refl)
  have over: "keeps ts d (d\<lparr>di_state := overflowed ?s\<rparr>)"
    using good_op_keeps [OF assms, of "((), d\<lparr>di_state := overflowed ?s\<rparr>)"] good_overflowed [OF inv] by (simp add: good_op_def)
  let ?t = "\<lparr>mt_epoch = di_epoch d, mt_id = Suc (st_mutation_id ?s), mt_generation = st_generation ?s,
      mt_secret_revision = st_secret_revision ?s, mt_kind = kind\<rparr>"
  have "keeps (ts @ [?t]) d (d\<lparr>di_state := ?s\<lparr>st_mutation_id := Suc (st_mutation_id ?s), st_reservation := Some (Suc (st_mutation_id ?s))\<rparr>\<rparr>)"
    if a: "st_active ?s = None" "st_status ?s \<noteq> StRetired" "st_mutation_id ?s < u64_max" "kind = Refresh \<longrightarrow> st_status ?s = StReady"
    using reserve_inv [OF inv refl a(1-3)] ts a(4) by (simp add: keeps_def dir_inv_def dir_below_def)
  then show ?thesis
    using same over by (auto simp: reserve_mutation_def Let_def ready_map split: sum.split)
qed

lemma begin_inv:
  assumes inv: "st_inv n s" and own: "st_reservation s = Some (mt_id t)" "st_active s = None" "mt_generation t = st_generation s"
    and g: "mt_kind t = Refresh \<and> s1 = s \<or>
      mt_kind t \<noteq> Refresh \<and> st_generation s < u64_max \<and> s1 = s\<lparr>st_generation := Suc (st_generation s), st_child_active := None\<rparr>"
    and s': "s' = s1\<lparr>st_active := Some \<lparr>mu_id = mt_id t, mu_kind = mt_kind t, mu_previous = st_published s1,
        mu_previous_child_enabled = st_child_enabled s1\<rparr>, st_reservation := None, st_status := StMutating\<rparr>"
  shows "st_inv n s'" "st_below s s'" "ticket_ok s u \<Longrightarrow> ticket_ok s' u"
proof -
  have st: "st_status s \<noteq> StRetired" "mt_id t = st_mutation_id s" using inv own by (auto simp: st_inv_def)
  show "st_inv n s'" "st_below s s'" using inv own st g unfolding s'
    by (auto simp: st_inv_def st_below_def le_SucI)
  have "\<exists>p. st_published s = Some p \<and> gen_of p = st_generation s" if "mt_kind u = Refresh" "ticket_ok s u" "mt_id u = mt_id t"
    using that inv own(1) by (auto simp: ticket_ok_def st_inv_def)
  then show "ticket_ok s' u" if "ticket_ok s u" using that g own(3) unfolding s' by (auto simp: ticket_ok_def)
qed

lemma begin_keeps:
  assumes "dir_inv ts d" "t \<in> set ts"
  shows "keeps ts d (snd (begin_mutation t d))"
proof (cases "owns_reservation d t")
  case False
  have "good_op d (Inl StaleMutation :: unit cred, d)" by (simp add: good_op_def good_refl)
  with good_op_keeps [OF assms(1) this] False show ?thesis by (simp add: begin_mutation_def)
next
  case True
  let ?s = "di_state d"
  have inv: "st_inv (di_daemon_id d) ?s" and ts: "\<forall>t \<in> set ts. mt_epoch t = di_epoch d \<and> ticket_ok ?s t"
    using assms by (simp_all add: dir_inv_def)
  have own: "st_reservation ?s = Some (mt_id t)" "st_active ?s = None" "mt_generation t = st_generation ?s"
    using True by (simp_all add: owns_reservation_def Let_def)
  show ?thesis
  proof (cases "mt_kind t \<noteq> Refresh \<and> u64_max \<le> st_generation ?s")
    case overflow: True
    have over: "good_op d (Inl CounterExhausted :: unit cred, (retire_native d)\<lparr>di_state := overflowed ?s\<rparr>)"
      using good_overflowed [OF inv] by (simp add: good_op_def)
    have "begin_mutation t d = (Inl CounterExhausted, (retire_native d)\<lparr>di_state := overflowed ?s\<rparr>)"
      using True overflow by (simp add: begin_mutation_def Let_def advance_generation_def advance_def checked_add_u64_def
        and_then_def with_state_def overflowed_def)
    with good_op_keeps [OF assms(1) over] show ?thesis by simp
  next
    case False
    define s1 where "s1 = (if mt_kind t = Refresh then ?s else ?s\<lparr>st_generation := Suc (st_generation ?s), st_child_active := None\<rparr>)"
    have "begin_mutation t d = (Inr (), (retire_native d)\<lparr>di_state := s1\<lparr>st_active := Some \<lparr>mu_id = mt_id t,
        mu_kind = mt_kind t, mu_previous = st_published s1, mu_previous_child_enabled = st_child_enabled s1\<rparr>,
        st_reservation := None, st_status := StMutating\<rparr>\<rparr>)"
      using True False by (auto simp: begin_mutation_def Let_def advance_generation_def advance_def checked_add_u64_def
        and_then_def with_state_def s1_def)
    moreover have "mt_kind t = Refresh \<and> s1 = ?s \<or> mt_kind t \<noteq> Refresh \<and> st_generation ?s < u64_max \<and>
        s1 = ?s\<lparr>st_generation := Suc (st_generation ?s), st_child_active := None\<rparr>"
      using False by (auto simp: s1_def)
    ultimately show ?thesis using begin_inv [OF inv own _ refl] ts
      by (simp add: keeps_def dir_inv_def dir_below_def retire_native_def)
  qed
qed

lemma at_heap_keeps:
  assumes "dir_inv ts d" "\<And>n. native_below n (f n)"
  shows "keeps ts d (at_heap a f d)"
  using assms by (simp add: keeps_def at_heap_def dir_inv_def dir_below_def)

lemma native_keeps:
  assumes "dir_inv ts d" "\<forall>a \<in> set (di_native d). a \<in> set ns \<or> is_joined (di_heap d a)"
  shows "keeps ts d (d\<lparr>di_native := ns\<rparr>)"
  using assms by (simp add: keeps_def dir_inv_def dir_below_def)

lemma dir_below_refl [simp]: "dir_below d d"
  by (simp add: dir_below_def)

lemma is_joined_mono: "heap_below h h' \<Longrightarrow> is_joined (h a) \<Longrightarrow> is_joined (h' a)"
  by (simp add: heap_below_def native_below_def is_joined_def)

lemma st_below_trans: "st_below a b \<Longrightarrow> st_below b c \<Longrightarrow> st_below a c"
  by (auto simp: st_below_def)

lemma heap_below_trans: "heap_below a b \<Longrightarrow> heap_below b c \<Longrightarrow> heap_below a c"
  unfolding heap_below_def using native_below_trans by blast

lemma dir_below_trans: "dir_below a b \<Longrightarrow> dir_below b c \<Longrightarrow> dir_below a c"
proof -
  assume a: "dir_below a b" and b: "dir_below b c"
  have "x \<in> set (di_native c) \<or> is_joined (di_heap c x)" if "x \<in> set (di_native a)" for x
    using that a b is_joined_mono [of "di_heap b" "di_heap c" x] by (auto simp: dir_below_def)
  with a b st_below_trans [of "di_state a" "di_state b" "di_state c"] heap_below_trans [of "di_heap a" "di_heap b" "di_heap c"]
  show ?thesis by (simp add: dir_below_def)
qed

lemma keeps_trans: "keeps ts a b \<Longrightarrow> keeps ts b c \<Longrightarrow> keeps ts a c"
  unfolding keeps_def using dir_below_trans by blast

lemma observe_keeps: "dir_inv ts d \<Longrightarrow> keeps ts d (observe_response stamp backoff http_status d)"
proof -
  assume inv: "dir_inv ts d"
  define d1 where "d1 = (case backoff of Some until \<Rightarrow> snd (record_backoff stamp until d) | None \<Rightarrow> d)"
  have 1: "keeps ts d d1"
    using good_op_keeps [OF inv backoff_good] inv by (simp add: d1_def keeps_def split: option.split)
  then have "dir_inv ts d1" by (simp add: keeps_def)
  from good_op_keeps [OF this reject_good] have "keeps ts d1 (snd (reject_current_credential stamp d1))" .
  with 1 show ?thesis using keeps_trans by (auto simp: observe_response_def Let_def d1_def [symmetric])
qed

definition world_inv :: "World \<Rightarrow> bool" where
  "world_inv w \<longleftrightarrow> dir_inv (wo_tickets w) (wo_dir w)"

definition world_below :: "World \<Rightarrow> World \<Rightarrow> bool" where
  "world_below w w' \<longleftrightarrow> dir_below (wo_dir w) (wo_dir w') \<and> (\<exists>ts. wo_tickets w' = wo_tickets w @ ts)"

lemma on_ticket_keeps:
  assumes "world_inv w" "\<And>t. t \<in> set (wo_tickets w) \<Longrightarrow> keeps (wo_tickets w) (wo_dir w) (snd (f t (wo_dir w)))"
  shows "world_inv (on_ticket w i f) \<and> world_below w (on_ticket w i f)"
  using assms by (simp add: on_ticket_def world_inv_def world_below_def keeps_def)

lemma cred_step_keeps:
  assumes inv: "world_inv w"
  shows "world_inv (cred_step w x) \<and> world_below w (cred_step w x)"
proof -
  have dinv: "dir_inv (wo_tickets w) (wo_dir w)" using inv by (simp add: world_inv_def)
  have tk: "ticket_ok (di_state (wo_dir w)) t" if "t \<in> set (wo_tickets w)" for t using dinv that by (simp add: dir_inv_def)
  note ops = good_op_keeps [OF dinv]
  have step: "world_inv (w\<lparr>wo_dir := d\<rparr>) \<and> world_below w (w\<lparr>wo_dir := d\<rparr>)" if "keeps (wo_tickets w) (wo_dir w) d" for d
    using that by (simp add: world_inv_def world_below_def keeps_def)
  show ?thesis
  proof (cases x)
    case (CReserve kind)
    show ?thesis
    proof (cases "reserve_mutation kind (wo_dir w)")
      case (Pair r d)
      with reserve_keeps [OF dinv, of kind] show ?thesis
        by (cases r) (simp_all add: CReserve world_inv_def world_below_def keeps_def)
    qed
  next
    case (CCancel i)
    show ?thesis unfolding CCancel cred_step.simps by (rule on_ticket_keeps [OF inv]) (rule ops [OF cancel_good])
  next
    case (CBegin i)
    show ?thesis unfolding CBegin cred_step.simps by (rule on_ticket_keeps [OF inv]) (rule begin_keeps [OF dinv])
  next
    case (CFinish cid i settled)
    show ?thesis unfolding CFinish cred_step.simps by (rule on_ticket_keeps [OF inv]) (rule ops [OF finish_good [OF tk]])
  next
    case (CObserve stamp backoff http_status)
    show ?thesis unfolding CObserve cred_step.simps by (rule step) (rule observe_keeps [OF dinv])
  next
    case (CRetain a)
    show ?thesis unfolding CRetain cred_step.simps
      by (rule step) (rule native_keeps [OF dinv], auto simp: contexts_retain_def Let_def)
  next
    case CJoined
    show ?thesis unfolding CJoined cred_step.simps
      by (rule step) (rule native_keeps [OF dinv], simp add: contexts_joined_def)
  next
    case (CSetChild binding enabled)
    show ?thesis unfolding CSetChild cred_step.simps by (rule step) (rule ops [OF set_child_good])
  next
    case (CBeginChild c)
    show ?thesis unfolding CBeginChild cred_step.simps by (rule step) (rule ops [OF begin_child_good])
  next
    case (CFinishChild t enabled)
    show ?thesis unfolding CFinishChild cred_step.simps by (rule step) (rule ops [OF finish_child_good])
  next
    case (CMarkChild t)
    show ?thesis unfolding CMarkChild cred_step.simps by (rule step) (rule ops [OF mark_child_good])
  next
    case (CRestoreChild binding enabled)
    show ?thesis unfolding CRestoreChild cred_step.simps by (rule step) (rule ops [OF restore_child_good])
  next
    case CRetire
    show ?thesis unfolding CRetire cred_step.simps by (rule step) (rule ops [OF retire_good])
  next
    case (CBindResponse a session)
    show ?thesis unfolding CBindResponse cred_step.simps by (rule step) (rule at_heap_keeps [OF dinv], rule native_ops_below)
  next
    case (CRetireNative a)
    show ?thesis unfolding CRetireNative cred_step.simps by (rule step) (rule at_heap_keeps [OF dinv], rule native_ops_below)
  next
    case (CProducerFinished a)
    show ?thesis unfolding CProducerFinished cred_step.simps by (rule step) (rule at_heap_keeps [OF dinv], rule native_ops_below)
  next
    case (CDrive a peer_joined)
    show ?thesis unfolding CDrive cred_step.simps by (rule step) (rule at_heap_keeps [OF dinv], rule native_ops_below)
  qed
qed

interpretation credentials: step_monotone cred_step world_inv world_below
proof
  show "world_below s t \<Longrightarrow> world_below t u \<Longrightarrow> world_below s u" for s t u
    using dir_below_trans by (auto simp: world_below_def)
qed (use cred_step_keeps in \<open>simp_all add: world_below_def\<close>)

lemma world_new_inv: "world_inv (world_new epoch daemon_id)"
  by (simp add: world_inv_def world_new_def dir_inv_def directory_new_def st_inv_def)

section \<open>The fences\<close>

abbreviation cred_run :: "nat \<Rightarrow> rtext \<Rightarrow> cred_op list \<Rightarrow> World" where
  "cred_run epoch daemon_id ops \<equiv> foldl cred_step (world_new epoch daemon_id) ops"

text \<open>
  C14. In every run of the credential directory the counters stay within their width; a mutation is open
  exactly in the mutating and indeterminate states, holds the latest ticket and remembers the published
  connection; a reservation is always the latest ticket's and never coexists with an open mutation; a
  pending child-policy writer has the current revision and the policy disabled; what is published binds
  the daemon, the verified account and a generation not in the future, and in the ready state the
  current one.
\<close>

theorem credential_invariant: "world_inv (cred_run epoch daemon_id ops)"
  by (rule credentials.run_inv [OF world_new_inv])

lemma cred_run_below:
  assumes "cred_run epoch daemon_id ops = w"
  shows "dir_below (wo_dir w) (wo_dir (foldl cred_step w later))"
  using credentials.run_below [of w later] credentials.run_inv [OF world_new_inv, of epoch daemon_id ops] assms
  by (simp add: world_below_def)

text \<open>
  C12. Once the connection generation has moved past a binding, that binding is refused for ever: in every
  later state it is not current, credential checks, checkouts and child-policy work on it fail as
  retired, and a late response carrying it changes nothing.
\<close>

theorem old_generation_refused:
  assumes "cred_run epoch daemon_id ops = w"
    and "cs_connection_generation (cb_scope b) < st_generation (di_state (wo_dir w))"
    and "wo_dir (foldl cred_step w later) = d"
    and "ad_binding a = b" "ds_binding stamp = b" "cp_binding c = b"
  shows "\<not> binding_current d b \<and> check_current now a d = Inl Retired \<and>
    checkout_child_metadata b expected dispatch child_revision now d = Inl Retired \<and>
    child_policy_metadata b choice d = Inl Retired \<and>
    begin_child_policy c d = (Inl Retired, d) \<and> finish_child_policy c enabled d = (Inl Retired, d) \<and>
    observe_response stamp backoff http_status d = d"
proof -
  have "st_generation (di_state (wo_dir w)) \<le> st_generation (di_state d)"
    using cred_run_below [OF assms(1), of later] assms(3) by (simp add: dir_below_def st_below_def)
  then have "st_generation (di_state d) \<noteq> cs_connection_generation (cb_scope b)" using assms(2) by simp
  then show ?thesis using assms(4-6)
    by (simp add: binding_current_def check_current_def check_locked_def checkout_child_metadata_def child_policy_metadata_def
      begin_child_policy_def finish_child_policy_def owns_child_policy_def check_child_checkpoint_def observe_response_def
      record_backoff_def reject_current_credential_def current_stamp_def refreshing_stamp_def matches_stamp_def Let_def
      split: option.split)
qed

lemma check_locked_Inr:
  "check_locked now a d = Inr p \<Longrightarrow> st_status (di_state d) = StReady \<and> st_published (di_state d) = Some p \<and>
     pb_binding p = ad_binding a \<and> ad_epoch a = di_epoch d \<and>
     st_generation (di_state d) = cs_connection_generation (cb_scope (ad_binding a)) \<and>
     (ad_child_revision a \<noteq> None \<longrightarrow> ad_child_revision a = Some (st_child_revision (di_state d)) \<and> st_child_enabled (di_state d))"
  by (auto simp: check_locked_def binding_current_def ready_Inr Let_def split: if_splits sum.splits option.splits)

text \<open>
  C11. A secret is released only while the publication it was read for stands. Between the admission, the
  secret read and the release the directory may go through any steps; if the release succeeds, the
  snapshot is the one asked for, what is published has not changed since the read, the secret revision is
  still current, and the stamp handed out is current.
\<close>

theorem released_secret_current:
  assumes "cred_run epoch daemon_id ops = w"
    and "admit_credential b request (wo_dir w) = Inr a"
    and "foldl cred_step w ops1 = w1" and "acquire_expected now a (wo_dir w1) = Inr expected"
    and "foldl cred_step w1 ops2 = w2" and "acquire_release now' a expected snapshot (wo_dir w2) = Inr stamp"
  shows "snapshot = expected \<and> st_published (di_state (wo_dir w2)) = st_published (di_state (wo_dir w1)) \<and>
    st_secret_revision (di_state (wo_dir w2)) = sr_secret_revision expected \<and>
    ds_secret_revision stamp = sr_secret_revision expected \<and> ds_binding stamp = sr_binding expected \<and>
    current_stamp (wo_dir w2) stamp"
proof -
  have w1: "cred_run epoch daemon_id (ops @ ops1) = w1" using assms(1,3) by simp
  obtain p where p: "check_locked now a (wo_dir w1) = Inr p" and e: "expected = secret_request (di_state (wo_dir w1)) p"
    using assms(4) by (cases "check_locked now a (wo_dir w1)") (auto simp: acquire_expected_def)
  obtain q where q: "check_locked now' a (wo_dir w2) = Inr q" "snapshot = expected"
      "st_secret_revision (di_state (wo_dir w2)) = sr_secret_revision expected"
      "stamp = \<lparr>ds_epoch = di_epoch (wo_dir w2), ds_binding = ad_binding a, ds_secret_revision = sr_secret_revision expected,
         ds_child_revision = ad_child_revision a, ds_use_kind = ar_use_kind (ad_request a)\<rparr>"
    using assms(6) by (auto simp: acquire_release_def split: if_splits sum.splits)
  have below: "st_below (di_state (wo_dir w1)) (di_state (wo_dir w2))"
    using cred_run_below [OF w1, of ops2] assms(5) by (simp add: dir_below_def)
  have same: "st_secret_revision (di_state (wo_dir w2)) = st_secret_revision (di_state (wo_dir w1))"
    using q(3) e by (simp add: secret_request_def)
  have "st_published (di_state (wo_dir w2)) = st_published (di_state (wo_dir w1))"
    using below same check_locked_Inr [OF q(1)] by (auto simp: st_below_def)
  moreover have "ar_use_kind (ad_request a) = ChildGit \<longrightarrow> ad_child_revision a \<noteq> None"
    using assms(2) by (auto simp: admit_credential_def Let_def split: sum.splits if_splits)
  ultimately show ?thesis
    using q check_locked_Inr [OF q(1)] check_locked_Inr [OF p] e
    by (auto simp: current_stamp_def matches_stamp_def Let_def secret_request_def)
qed

text \<open>
  C13. A mutation settles only after every native context it retired has joined: whatever happens between
  the begin of a mutation and a settlement that is not indeterminate, if the settlement succeeds then
  each context the directory held at the begin has been joined by its peer.
\<close>

theorem settled_contexts_joined:
  assumes "cred_run epoch daemon_id ops = w" and "i < length (wo_tickets w)"
    and "fst (begin_mutation (wo_tickets w ! i) (wo_dir w)) = Inr ()"
    and "foldl cred_step (cred_step w (CBegin i)) later = w'"
    and "settled \<noteq> SettledIndeterminate" and "fst (finish_mutation connection_id t settled (wo_dir w')) = Inr r"
    and "a \<in> set (di_native (wo_dir w))"
  shows "is_joined (di_heap (wo_dir w') a)"
proof -
  let ?d = "wo_dir (cred_step w (CBegin i))"
  have d: "?d = snd (begin_mutation (wo_tickets w ! i) (wo_dir w))" using assms(2) by (simp add: on_ticket_def)
  have "post (\<lambda>r d. is_ok r \<longrightarrow> di_native d = di_native (wo_dir w) \<and> di_heap d = di_heap (retire_native (wo_dir w)))
    (begin_mutation (wo_tickets w ! i) (wo_dir w))"
    by (simp add: begin_mutation_def Let_def) (simp add: retire_native_def)
  then have "di_native ?d = di_native (wo_dir w)" "di_heap ?d = di_heap (retire_native (wo_dir w))"
    using assms(3) d by (auto simp: post_def)
  then have a: "a \<in> set (di_native ?d)" "na_retired (di_heap ?d a)"
    using assms(7) by (simp_all add: retire_native_def contexts_retire_def native_retire_def)
  have "cred_run epoch daemon_id (ops @ [CBegin i]) = cred_step w (CBegin i)" using assms(1) by simp
  from cred_run_below [OF this, of later] assms(4) have below: "dir_below ?d (wo_dir w')" by simp
  have "contexts_settled (di_heap (wo_dir w')) (di_native (wo_dir w'))"
    using assms(5,6) by (auto simp: finish_mutation_def split: option.splits if_splits)
  moreover have "na_retired (di_heap (wo_dir w') a)"
    using below a(2) by (auto simp: dir_below_def heap_below_def native_below_def)
  ultimately show ?thesis using below a(1)
    by (auto simp: dir_below_def contexts_settled_def list_all_iff is_joined_def)
qed

section \<open>A sample run\<close>

definition demo_account :: VerifiedRepositoryAccount where
  "demo_account = \<lparr>va_descriptor = \<lparr>gd_instance = lit ''https://gitlab.com'', gd_endpoint = lit ''https://gitlab.com''\<rparr>,
     va_account_id = lit ''7'', va_source = GitlabSecretSlot\<rparr>"

definition demo_binding :: RepositoryConnectionBinding where
  "demo_binding = new_binding (lit ''d'') (lit ''c1'') demo_account 1"

definition demo_connect :: "cred_op list" where
  "demo_connect = [CReserve Replace, CBegin 0, CFinish (lit ''c1'') 0 (SettledVerified demo_account), CRetain 3, CReserve Replace]"

definition demo_state :: State where
  "demo_state = \<lparr>st_status = StReady, st_published = Some \<lparr>pb_binding = demo_binding, pb_verified = demo_account\<rparr>,
     st_generation = 1, st_secret_revision = 1, st_child_revision = 1, st_child_enabled = False, st_child_active = None,
     st_mutation_id = 2, st_reservation = Some 2, st_active = None, st_backoff_until = None\<rparr>"

definition demo_world :: World where
  "demo_world = \<lparr>wo_dir = \<lparr>di_epoch = 1, di_daemon_id = lit ''d'', di_state = demo_state, di_native = [3], di_heap = (\<lambda>_. native_new)\<rparr>,
     wo_tickets = [\<lparr>mt_epoch = 1, mt_id = 1, mt_generation = 0, mt_secret_revision = 0, mt_kind = Replace\<rparr>,
       \<lparr>mt_epoch = 1, mt_id = 2, mt_generation = 1, mt_secret_revision = 1, mt_kind = Replace\<rparr>]\<rparr>"

lemma demo_connect_run: "cred_run 1 (lit ''d'') demo_connect = demo_world"
proof -
  let ?t1 = "\<lparr>mt_epoch = 1, mt_id = 1, mt_generation = 0, mt_secret_revision = 0, mt_kind = Replace\<rparr>"
  let ?w = "\<lambda>s ns ts. \<lparr>wo_dir = \<lparr>di_epoch = 1, di_daemon_id = lit ''d'', di_state = s, di_native = ns, di_heap = (\<lambda>_. native_new)\<rparr>, wo_tickets = ts\<rparr>"
  let ?s = "\<lambda>st pub gen rev cr mid res act. \<lparr>st_status = st, st_published = pub, st_generation = gen, st_secret_revision = rev, st_child_revision = cr,
     st_child_enabled = False, st_child_active = None, st_mutation_id = mid, st_reservation = res, st_active = act, st_backoff_until = None\<rparr>"
  let ?m = "\<lparr>mu_id = 1, mu_kind = Replace, mu_previous = None, mu_previous_child_enabled = False\<rparr>"
  let ?p = "\<lparr>pb_binding = demo_binding, pb_verified = demo_account\<rparr>"
  have 0: "world_new 1 (lit ''d'') = ?w (?s StUnverified None 0 0 0 0 None None) [] []"
    by (simp add: world_new_def directory_new_def)
  have 1: "cred_step (?w (?s StUnverified None 0 0 0 0 None None) [] []) (CReserve Replace) =
      ?w (?s StUnverified None 0 0 0 1 (Some 1) None) [] [?t1]"
    by (simp add: reserve_mutation_def with_state_def and_then_def advance_def checked_add_u64_def u64_max_def)
  have 2: "cred_step (?w (?s StUnverified None 0 0 0 1 (Some 1) None) [] [?t1]) (CBegin 0) =
      ?w (?s StMutating None 1 0 0 1 None (Some ?m)) [] [?t1]"
    by (simp add: on_ticket_def begin_mutation_def owns_reservation_def retire_native_def contexts_retire_def with_state_def
      and_then_def advance_generation_def advance_def checked_add_u64_def u64_max_def Let_def)
  have 3: "cred_step (?w (?s StMutating None 1 0 0 1 None (Some ?m)) [] [?t1]) (CFinish (lit ''c1'') 0 (SettledVerified demo_account)) =
      ?w (?s StReady (Some ?p) 1 1 1 1 None None) [] [?t1]"
    by (simp add: on_ticket_def finish_mutation_def settle_state_def publish_def contexts_settled_def with_state_def and_then_def
      advance_secret_def advance_child_def advance_def checked_add_u64_def u64_max_def demo_binding_def Let_def)
  have 4: "cred_step (?w (?s StReady (Some ?p) 1 1 1 1 None None) [] [?t1]) (CRetain 3) = ?w (?s StReady (Some ?p) 1 1 1 1 None None) [3] [?t1]"
    by (simp add: contexts_retain_def native_new_def)
  have 5: "cred_step (?w (?s StReady (Some ?p) 1 1 1 1 None None) [3] [?t1]) (CReserve Replace) = demo_world"
    by (simp add: reserve_mutation_def with_state_def and_then_def advance_def checked_add_u64_def u64_max_def demo_world_def demo_state_def)
  show ?thesis unfolding demo_connect_def foldl.simps 0 1 2 3 4 5 ..
qed

definition demo_begun :: World where
  "demo_begun = demo_world\<lparr>wo_dir := \<lparr>di_epoch = 1, di_daemon_id = lit ''d'',
     di_state = demo_state\<lparr>st_generation := 2, st_active := Some \<lparr>mu_id = 2, mu_kind = Replace, mu_previous = st_published demo_state,
       mu_previous_child_enabled = False\<rparr>, st_reservation := None, st_status := StMutating\<rparr>,
     di_native = [3], di_heap = (\<lambda>_. native_new)(3 := native_retire native_new)\<rparr>\<rparr>"

lemma demo_begin: "begin_mutation (wo_tickets demo_world ! 1) (wo_dir demo_world) = (Inr (), wo_dir demo_begun)"
  by (simp add: demo_world_def demo_begun_def demo_state_def begin_mutation_def owns_reservation_def retire_native_def
    contexts_retire_def with_state_def and_then_def advance_generation_def advance_def checked_add_u64_def u64_max_def Let_def fun_eq_iff)

lemma demo_begin_step: "cred_step demo_world (CBegin 1) = demo_begun"
  using demo_begin by (simp add: on_ticket_def) (simp add: demo_begun_def demo_world_def)

definition demo_request :: RepositoryAuthorityRequest where
  "demo_request = \<lparr>ar_execution = \<lparr>ex_daemon_id = lit ''d'', ex_authority_scope_id = lit ''s'', ex_authority_generation = 1\<rparr>,
     ar_target = \<lparr>rt_provider = Gitlab, rt_instance_base_url = lit ''https://gitlab.com'', rt_project_path = lit ''a/b''\<rparr>,
     ar_connection = cb_scope demo_binding, ar_use_kind = NativeRead,
     ar_allowed_transport = GitlabApi (va_descriptor demo_account)\<rparr>"

definition demo_admission :: RepositoryCredentialAdmission where
  "demo_admission = \<lparr>ad_epoch = 1, ad_binding = demo_binding, ad_descriptor = va_descriptor demo_account, ad_request = demo_request,
     ad_child_revision = None\<rparr>"

lemma demo_ready: "ready demo_state = Inr \<lparr>pb_binding = demo_binding, pb_verified = demo_account\<rparr>"
  by (simp add: ready_def demo_state_def)

lemma demo_admit: "admit_credential demo_binding demo_request (wo_dir demo_world) = Inr demo_admission"
proof -
  have "valid_project (lit ''a/b'')" by (simp add: valid_project_def lit_def is_project_char_def)
  then show ?thesis
    by (simp add: admit_credential_def demo_ready demo_request_def demo_admission_def demo_world_def Let_def)
      (simp add: demo_state_def demo_binding_def new_binding_def demo_account_def)
qed

lemma demo_check: "check_locked 0 demo_admission (wo_dir demo_world) = Inr \<lparr>pb_binding = demo_binding, pb_verified = demo_account\<rparr>"
  by (simp add: check_locked_def demo_ready demo_admission_def demo_world_def binding_current_def Let_def)
    (simp add: demo_state_def demo_binding_def new_binding_def instant_after_def)

theorem old_generation_refused_witness:
  "cs_connection_generation (cb_scope demo_binding) < st_generation (di_state (wo_dir demo_begun)) \<and>
   check_current 0 demo_admission (wo_dir (foldl cred_step demo_begun [CFinish (lit ''c2'') 1 SettledUnverified])) = Inl Retired"
proof -
  have r: "cred_run 1 (lit ''d'') (demo_connect @ [CBegin 1]) = demo_begun" by (simp only: foldl_append demo_connect_run foldl.simps demo_begin_step)
  have g: "cs_connection_generation (cb_scope demo_binding) < st_generation (di_state (wo_dir demo_begun))"
    by (simp add: demo_begun_def demo_state_def demo_binding_def new_binding_def)
  have a: "ad_binding demo_admission = demo_binding" by (simp add: demo_admission_def)
  show ?thesis
    using old_generation_refused [OF r g refl a, of "\<lparr>ds_epoch = 1, ds_binding = demo_binding, ds_secret_revision = 1,
        ds_child_revision = None, ds_use_kind = NativeRead\<rparr>" "\<lparr>cp_epoch = 1, cp_binding = demo_binding, cp_revision = 1\<rparr>"] g
    by (simp del: cred_step.simps foldl.simps)
qed

theorem released_secret_current_witness:
  "\<exists>stamp. acquire_release 0 demo_admission (secret_request demo_state \<lparr>pb_binding = demo_binding, pb_verified = demo_account\<rparr>)
     (secret_request demo_state \<lparr>pb_binding = demo_binding, pb_verified = demo_account\<rparr>) (wo_dir (foldl cred_step demo_world [CDrive 3 True])) = Inr stamp \<and>
   current_stamp (wo_dir (foldl cred_step demo_world [CDrive 3 True])) stamp"
proof -
  let ?e = "secret_request demo_state \<lparr>pb_binding = demo_binding, pb_verified = demo_account\<rparr>"
  have e: "acquire_expected 0 demo_admission (wo_dir demo_world) = Inr ?e"
    by (simp add: acquire_expected_def demo_check) (simp add: demo_world_def)
  have "foldl cred_step demo_world [CDrive 3 True] = demo_world"
    by (simp add: demo_world_def at_heap_def drive_def native_new_def fun_eq_iff)
  moreover obtain stamp where s: "acquire_release 0 demo_admission ?e ?e (wo_dir demo_world) = Inr stamp"
    by (simp add: acquire_release_def demo_check) (simp add: secret_request_def demo_world_def)
  ultimately show ?thesis
    using released_secret_current [OF demo_connect_run demo_admit, of "[]" demo_world 0 ?e "[CDrive 3 True]"] e
    by (simp del: cred_step.simps)
qed

theorem settled_contexts_joined_witness:
  "is_joined (di_heap (wo_dir (foldl cred_step demo_begun [CBindResponse 3 (lit ''s''), CDrive 3 True])) 3) \<and>
   fst (finish_mutation (lit ''c2'') (wo_tickets demo_begun ! 1) SettledUnverified
     (wo_dir (foldl cred_step demo_begun [CBindResponse 3 (lit ''s''), CDrive 3 True]))) = Inr None"
proof -
  have f: "fst (finish_mutation (lit ''c2'') (wo_tickets demo_begun ! 1) SettledUnverified
     (wo_dir (foldl cred_step demo_begun [CBindResponse 3 (lit ''s''), CDrive 3 True]))) = Inr None"
    by (simp add: demo_begun_def demo_world_def demo_state_def at_heap_def drive_def bind_response_def native_retire_def native_new_def
      finish_mutation_def settle_state_def contexts_settled_def with_state_def and_then_def advance_child_def advance_def
      checked_add_u64_def u64_max_def)
  have b: "fst (begin_mutation (wo_tickets demo_world ! 1) (wo_dir demo_world)) = Inr ()" by (simp only: demo_begin fst_conv)
  have "1 < length (wo_tickets demo_world)" "3 \<in> set (di_native (wo_dir demo_world))" by (simp_all add: demo_world_def)
  from settled_contexts_joined [OF demo_connect_run this(1) b, unfolded demo_begin_step, OF refl _ f this(2)] f
  show ?thesis by (simp del: cred_step.simps foldl.simps)
qed

end
