(* ===== verification/FieldPaging.thy ===== *)
theory FieldPaging
  imports TextPaging
begin

text \<open>
  Paged reads of one large text: \<open>page_text_field\<close> of
  \<open>crates/intent-core/src/text_field_page.rs\<close> (one text field of a definition, served in parts) and
  \<open>page_message_block\<close> of \<open>crates/intent-core/src/message_block_page.rs\<close> (the body of a message block,
  served under a cap). A client follows the next offsets; the lemmas show that it gets the whole
  text, in a bounded number of requests, and that a served block stays within its cap.
\<close>

section \<open>Text fields\<close>

definition part_escaped_len :: "uchar \<Rightarrow> nat" where
  "part_escaped_len c =
     (if c \<in> {34, 92, 10, 13, 9, 8, 12} then 2 else if c < 32 then 6 else len_utf8 c)"

definition MIN_PART_JSON_BYTES :: nat where
  "MIN_PART_JSON_BYTES = 64 * 1024"

definition json_len :: "codec \<Rightarrow> json \<Rightarrow> nat" where
  "json_len cd value = length (to_vec cd value)"

fun prefix_walk :: "nat \<Rightarrow> nat \<Rightarrow> rtext \<Rightarrow> rtext" where
  "prefix_walk budget used [] = []"
| "prefix_walk budget used (c # t) =
     (if used + part_escaped_len c > budget then []
      else c # prefix_walk budget (used + part_escaped_len c) t)"

definition prefix_within_json_bytes :: "rtext \<Rightarrow> nat \<Rightarrow> rtext" where
  "prefix_within_json_bytes text budget = prefix_walk budget 0 text"

text \<open>The message of a refused offset: the field, the offset and the size of the field.\<close>

datatype FieldError = BadOffset string nat nat

definition ascii_upper :: "char \<Rightarrow> char" where
  "ascii_upper c =
     (if 97 \<le> (of_char c :: nat) \<and> (of_char c :: nat) \<le> 122 then char_of ((of_char c :: nat) - 32) else c)"

text \<open>
  The names of the markers; \<open>None\<close> is the panic of slicing the first byte off an empty name or off a
  name that starts with a longer character.
\<close>

fun field_markers :: "string \<Rightarrow> string list option" where
  "field_markers [] = None"
| "field_markers (c # s) =
     (if 128 \<le> (of_char c :: nat) then None
      else Some [(c # s) @ ''Truncated'', (c # s) @ ''Bytes'', (c # s) @ ''Offset'',
                 ''next'' @ (ascii_upper c # s) @ ''Offset''])"

definition field_text :: "json \<Rightarrow> string \<Rightarrow> rtext" where
  "field_text row field = (case get_str row field of Some t \<Rightarrow> t | None \<Rightarrow> [])"

definition insert_markers :: "jmap \<Rightarrow> string \<Rightarrow> string list \<Rightarrow> nat \<Rightarrow> nat \<Rightarrow> jmap" where
  "insert_markers m field ms full offset =
     obj_insert (ms ! 3) (jnat full) (obj_insert (ms ! 2) (jnat offset)
       (obj_insert (ms ! 1) (jnat full) (obj_insert (ms ! 0) (JBool True)
         (obj_insert field (JStr []) m))))"

definition field_part :: "rtext \<Rightarrow> nat \<Rightarrow> rtext" where
  "field_part rest room =
     (let part = prefix_within_json_bytes rest room in
      if part = [] then (case rest of [] \<Rightarrow> [] | c # _ \<Rightarrow> [c]) else part)"

definition serve_part :: "codec \<Rightarrow> jmap \<Rightarrow> string \<Rightarrow> string list \<Rightarrow> rtext \<Rightarrow> nat \<Rightarrow> nat \<Rightarrow> jmap" where
  "serve_part cd m field ms full_text offset budget =
     (let full = str_len full_text;
          obj = insert_markers m field ms full offset;
          room = max (budget - json_len cd (JObj obj)) MIN_PART_JSON_BYTES;
          part = field_part (bytes_from full_text offset) room;
          stop = offset + str_len part;
          obj = obj_insert field (JStr part) obj in
      if offset = 0 \<and> stop = full then foldl (\<lambda>o' key. obj_remove key o') obj ms
      else obj_insert (ms ! 3) (if stop < full then jnat stop else JNull) obj)"

definition page_text_field :: "codec \<Rightarrow> json \<Rightarrow> string \<Rightarrow> nat \<Rightarrow> nat \<Rightarrow> (FieldError, json) res option" where
  "page_text_field cd row field offset budget =
     (let full_text = field_text row field; full = str_len full_text in
      if 0 < offset \<and> (full \<le> offset \<or> \<not> is_char_boundary full_text offset)
      then Some (Inl (BadOffset field offset full))
      else if offset = 0 \<and> json_len cd row \<le> budget then Some (Inr row)
      else (case row of
              JObj m \<Rightarrow>
                map_option (\<lambda>ms. Inr (JObj (serve_part cd m field ms full_text offset budget)))
                  (field_markers field)
            | _ \<Rightarrow> Some (Inr row)))"

text \<open>
  A client that reads the whole field: it appends the parts and asks again while the row names a next
  offset. \<open>None\<close> is a refused request, or more than \<open>n\<close> requests.
\<close>

fun field_walk :: "codec \<Rightarrow> json \<Rightarrow> string \<Rightarrow> string \<Rightarrow> nat \<Rightarrow> nat \<Rightarrow> nat \<Rightarrow> rtext option" where
  "field_walk cd row field next_key budget 0 offset = None"
| "field_walk cd row field next_key budget (Suc n) offset =
     (case page_text_field cd row field offset budget of
        Some (Inr served) \<Rightarrow>
          (case cursor_u64 served next_key of
             Some next \<Rightarrow>
               map_option (\<lambda>rest. field_text served field @ rest)
                 (field_walk cd row field next_key budget n next)
           | None \<Rightarrow> Some (field_text served field))
      | _ \<Rightarrow> None)"

section \<open>Message blocks\<close>

definition MESSAGE_BLOCK_MAX_BYTES :: nat where
  "MESSAGE_BLOCK_MAX_BYTES = 480000"

definition MESSAGE_BLOCK_MIN_BYTES :: nat where
  "MESSAGE_BLOCK_MIN_BYTES = 4096"

record MessageBlockPage =
  mb_offset :: "nat option"
  mb_max_bytes :: "nat option"

definition page_cap :: "MessageBlockPage \<Rightarrow> nat" where
  "page_cap page =
     (case mb_max_bytes page of
        None \<Rightarrow> MESSAGE_BLOCK_MAX_BYTES
      | Some b \<Rightarrow> max MESSAGE_BLOCK_MIN_BYTES (min b MESSAGE_BLOCK_MAX_BYTES))"

definition body_field :: "json \<Rightarrow> string option" where
  "body_field block =
     (case get_str block ''type'' of
        None \<Rightarrow> None
      | Some t \<Rightarrow>
          if t = lit ''text'' \<or> t = lit ''thinking'' then Some ''text''
          else if t = lit ''tool_use'' then Some ''input''
          else if t = lit ''tool_result'' then Some ''output''
          else if t = lit ''image'' then Some ''data''
          else None)"

definition serialized_len :: "codec \<Rightarrow> json \<Rightarrow> nat" where
  "serialized_len cd value = length (to_vec cd value)"

definition body_escaped_len :: "uchar \<Rightarrow> nat" where
  "body_escaped_len c =
     (if c \<in> {34, 92, 8, 12, 10, 13, 9} then 2 else if c < 32 then 6 else len_utf8 c)"

definition opt_label :: "string option \<Rightarrow> json" where
  "opt_label x = (case x of None \<Rightarrow> JNull | Some s \<Rightarrow> JStr (lit s))"

definition opt_usize :: "nat option \<Rightarrow> json" where
  "opt_usize x = (case x of None \<Rightarrow> JNull | Some n \<Rightarrow> jnat n)"

definition block_result ::
  "json \<Rightarrow> bool \<Rightarrow> string option \<Rightarrow> string option \<Rightarrow> nat option \<Rightarrow> nat option \<Rightarrow> json" where
  "block_result block truncated field encoding total_bytes next_offset =
     JObj [(''block'', block), (''truncated'', JBool truncated), (''field'', opt_label field),
       (''encoding'', opt_label encoding), (''totalBytes'', opt_usize total_bytes),
       (''nextOffset'', opt_usize next_offset)]"

definition keep_key :: "codec \<Rightarrow> json \<Rightarrow> nat \<Rightarrow> jmap \<Rightarrow> string \<Rightarrow> jmap" where
  "keep_key cd block cap out key =
     (case json_get block key of
        None \<Rightarrow> out
      | Some v \<Rightarrow>
          let out' = obj_insert key v out in
          if cap < serialized_len cd (JObj out') then obj_remove key out' else out')"

definition stub :: "codec \<Rightarrow> json \<Rightarrow> nat \<Rightarrow> json" where
  "stub cd block cap =
     block_result (JObj (foldl (keep_key cd block cap) [] [''id'', ''type''])) True None None None None"

datatype BlockError = OffsetUnsupported | PastEnd nat nat | NotBoundary nat

definition unpaged :: "codec \<Rightarrow> json \<Rightarrow> nat \<Rightarrow> nat \<Rightarrow> (BlockError, json) res" where
  "unpaged cd block offset cap =
     (if offset \<noteq> 0 then Inl OffsetUnsupported
      else if serialized_len cd block \<le> cap then Inr (block_result block False None None None None)
      else Inr (stub cd block cap))"

definition page_image :: "codec \<Rightarrow> json \<Rightarrow> nat \<Rightarrow> nat \<Rightarrow> (BlockError, json) res" where
  "page_image cd block offset cap =
     (case get_str block ''data'' of
        None \<Rightarrow> unpaged cd block offset cap
      | Some data \<Rightarrow>
          if offset \<noteq> 0 then Inl OffsetUnsupported
          else if serialized_len cd block \<le> cap
          then Inr (block_result block False (Some ''data'') None (Some (str_len data)) None)
          else let block =
                 (case block of
                    JObj m \<Rightarrow>
                      JObj (obj_insert ''dataBytes'' (jnat (str_len data))
                        (obj_insert ''dataTruncated'' (JBool True) (obj_remove ''data'' m)))
                  | _ \<Rightarrow> block) in
               if serialized_len cd block \<le> cap
               then Inr (block_result block True (Some ''data'') None (Some (str_len data)) None)
               else Inr (stub cd block cap))"

fun body_end :: "nat \<Rightarrow> nat \<Rightarrow> rtext \<Rightarrow> nat" where
  "body_end room stop [] = stop"
| "body_end room stop (c # t) =
     (if body_escaped_len c > room then stop
      else body_end (room - body_escaped_len c) (stop + len_utf8 c) t)"

definition body_text :: "codec \<Rightarrow> json \<Rightarrow> rtext \<times> string" where
  "body_text cd body = (case body of JStr s \<Rightarrow> (s, ''text'') | other \<Rightarrow> (to_text cd other, ''json''))"

definition page_body :: "codec \<Rightarrow> json \<Rightarrow> string \<Rightarrow> json \<Rightarrow> nat \<Rightarrow> nat \<Rightarrow> (BlockError, json) res" where
  "page_body cd block field body offset cap =
     (let (text, encoding) = body_text cd body;
          total = str_len text in
      if total < offset then Inl (PastEnd offset total)
      else if \<not> is_char_boundary text offset then Inl (NotBoundary offset)
      else if offset = 0 \<and> serialized_len cd block \<le> cap
      then Inr (block_result block False (Some field) (Some encoding) (Some total) None)
      else
        let block = json_insert field (JStr []) block;
            overhead = serialized_len cd block in
        if cap < overhead then Inr (stub cd block cap)
        else
          let stop = body_end (cap - overhead) offset (bytes_from text offset) in
          if stop = offset \<and> offset < total then Inr (stub cd block cap)
          else
            Inr (block_result
              (json_insert field (JStr (bytes_upto (bytes_from text offset) (stop - offset))) block)
              True (Some field) (Some encoding) (Some total) (if stop < total then Some stop else None)))"

definition page_message_block :: "codec \<Rightarrow> json \<Rightarrow> MessageBlockPage \<Rightarrow> (BlockError, json) res" where
  "page_message_block cd block page =
     (let cap = page_cap page;
          offset = (case mb_offset page of None \<Rightarrow> 0 | Some n \<Rightarrow> n);
          field = Option.bind (body_field block) (\<lambda>f. if json_get block f \<noteq> None then Some f else None) in
      if field = Some ''data'' then page_image cd block offset cap
      else (case field of
              None \<Rightarrow> unpaged cd block offset cap
            | Some f \<Rightarrow>
                (case json_get block f of
                   None \<Rightarrow> unpaged cd block offset cap
                 | Some body \<Rightarrow> page_body cd block f body offset cap)))"

text \<open>A client that reads the whole body: it appends the served parts of the body field.\<close>

definition served_block :: "json \<Rightarrow> json" where
  "served_block r = (case json_get r ''block'' of Some b \<Rightarrow> b | None \<Rightarrow> JNull)"

fun block_walk :: "codec \<Rightarrow> json \<Rightarrow> string \<Rightarrow> nat option \<Rightarrow> nat \<Rightarrow> nat \<Rightarrow> rtext option" where
  "block_walk cd block field max_bytes 0 offset = None"
| "block_walk cd block field max_bytes (Suc n) offset =
     (case page_message_block cd block \<lparr>mb_offset = Some offset, mb_max_bytes = max_bytes\<rparr> of
        Inl _ \<Rightarrow> None
      | Inr r \<Rightarrow>
          (case get_str (served_block r) field of
             None \<Rightarrow> None
           | Some part \<Rightarrow>
               (case cursor_u64 r ''nextOffset'' of
                  Some next \<Rightarrow>
                    map_option (\<lambda>rest. part @ rest) (block_walk cd block field max_bytes n next)
                | None \<Rightarrow> Some part)))"

section \<open>Parts of a text field\<close>

lemma part_escaped_len_eq [simp]: "part_escaped_len = json_escaped_len"
  by (simp add: fun_eq_iff part_escaped_len_def json_escaped_len_def)

lemma prefix_walk_props:
  "\<exists>rest. t = prefix_walk budget used t @ rest \<and>
     (used \<le> budget \<longrightarrow> used + escaped_len (prefix_walk budget used t) \<le> budget) \<and>
     (rest \<noteq> [] \<longrightarrow> budget < used + escaped_len (prefix_walk budget used t) + 6)"
proof (induction t arbitrary: used)
  case (Cons c t)
  show ?case
  proof (cases "used + json_escaped_len c > budget")
    case True
    then show ?thesis using json_escaped_len_bounds [of c] by simp
  next
    case False
    with Cons.IH [of "used + json_escaped_len c"] show ?thesis
      by (auto simp: add.assoc)
  qed
qed simp

lemma field_part_props:
  assumes "6 \<le> room"
  shows "\<exists>q. rest = field_part rest room @ q \<and> escaped_len (field_part rest room) \<le> room \<and>
     (q \<noteq> [] \<longrightarrow> room < escaped_len (field_part rest room) + 6)"
proof -
  obtain q where q: "rest = prefix_walk room 0 rest @ q"
      "escaped_len (prefix_walk room 0 rest) \<le> room"
      "q \<noteq> [] \<longrightarrow> room < escaped_len (prefix_walk room 0 rest) + 6"
    using prefix_walk_props [of rest room 0] by auto
  have "q = []" if "prefix_walk room 0 rest = []"
    using q(3) that assms by auto
  with q show ?thesis
    by (auto simp: field_part_def prefix_within_json_bytes_def Let_def)
qed

text \<open>The markers are distinct from each other and from the field: their lengths differ.\<close>

lemma field_markers_distinct:
  assumes "field_markers field = Some ms"
  shows "length ms = 4 \<and> distinct (field # ms)"
proof -
  from assms have ms: "map length ms = map (\<lambda>d. length field + d) [9, 5, 6, 10]"
    by (cases field) (auto split: if_splits)
  then have "distinct (map length (field # ms))" by simp
  moreover have "length ms = 4" using arg_cong [OF ms, of length] by simp
  ultimately show ?thesis using distinct_map [of length "field # ms"] by blast
qed

lemma list_of_4: "length ms = 4 \<Longrightarrow> ms = [ms ! 0, ms ! 1, ms ! 2, ms ! 3]"
  by (simp add: list_eq_iff_nth_eq less_Suc_eq numeral_eq_Suc)

lemma map_of_remove_all:
  "obj_wf m \<Longrightarrow> map_of (foldl (\<lambda>o' key. obj_remove key o') m ks) = (\<lambda>k. if k \<in> set ks then None else map_of m k)"
  by (induction ks arbitrary: m) (auto simp: fun_eq_iff)

text \<open>What a served part says: the part, the next offset, and every other member as it was.\<close>

lemma serve_part_members:
  fixes cd m field ms a rest budget
  defines "served \<equiv> map_of (serve_part cd m field ms (a @ rest) (str_len a) budget)"
  assumes wf: "obj_wf m" and ms: "field_markers field = Some ms"
  obtains part q where "rest = part @ q" and "q \<noteq> [] \<Longrightarrow> MIN_PART_JSON_BYTES < escaped_len part + 6"
    and "served field = Some (JStr part)"
    and "served (ms ! 3) =
      (if q \<noteq> [] then Some (jnat (str_len (a @ part))) else if a = [] then None else Some JNull)"
    and "\<And>k. k \<notin> set (field # ms) \<Longrightarrow> served k = map_of m k"
proof -
  let ?obj = "insert_markers m field ms (str_len (a @ rest)) (str_len a)"
  let ?room = "max (budget - json_len cd (JObj ?obj)) MIN_PART_JSON_BYTES"
  have room: "6 \<le> ?room" by (simp add: MIN_PART_JSON_BYTES_def le_max_iff_disj)
  obtain part q where pd: "field_part rest ?room = part" and q: "rest = part @ q"
    and big: "q \<noteq> [] \<Longrightarrow> ?room < escaped_len part + 6"
    using field_part_props [OF room] by blast
  obtain k0 k1 k2 k3 where ks: "ms = [k0, k1, k2, k3]" "distinct [field, k0, k1, k2, k3]"
    using field_markers_distinct [OF ms] list_of_4 [of ms] by metis
  let ?obj' = "obj_insert field (JStr part) ?obj"
  have stop: "str_len a = 0 \<longleftrightarrow> a = []" "str_len a + str_len part = str_len (a @ rest) \<longleftrightarrow> q = []"
    "str_len a + str_len part < str_len (a @ rest) \<longleftrightarrow> q \<noteq> []" "ms ! 3 = k3"
    unfolding q by (simp_all add: ks(1) zero_less_iff_neq_zero)
  have sp: "served = map_of (if a = [] \<and> q = [] then foldl (\<lambda>o' key. obj_remove key o') ?obj' ms
      else obj_insert k3 (if q \<noteq> [] then jnat (str_len a + str_len part) else JNull) ?obj')"
    unfolding served_def serve_part_def Let_def bytes_from_append pd stop
    by (cases "a = []"; simp add: q)
  show thesis
  proof (rule that [of part q])
    show "MIN_PART_JSON_BYTES < escaped_len part + 6" if "q \<noteq> []"
      using big [OF that] by simp
    show "served field = Some (JStr part)"
      using ks(2) by (auto simp: sp map_of_remove_all wf ks(1) insert_markers_def simp del: foldl.simps)
    show "served (ms ! 3) =
      (if q \<noteq> [] then Some (jnat (str_len (a @ part))) else if a = [] then None else Some JNull)"
      by (auto simp: sp map_of_remove_all wf ks(1) insert_markers_def simp del: foldl.simps)
    show "served k = map_of m k" if "k \<notin> set (field # ms)" for k
      using that by (auto simp: sp map_of_remove_all wf ks(1) insert_markers_def simp del: foldl.simps)
  qed (rule q)
qed

lemma page_text_field_at:
  assumes "map_of m field = Some (JStr (a @ rest))" "field_markers field = Some ms" "rest \<noteq> [] \<or> a = []"
  shows "page_text_field cd (JObj m) field (str_len a) budget =
    Some (Inr (if a = [] \<and> json_len cd (JObj m) \<le> budget then JObj m
               else JObj (serve_part cd m field ms (a @ rest) (str_len a) budget)))"
proof -
  have "field_text (JObj m) field = a @ rest"
    using assms(1) by (simp add: field_text_def get_str_def)
  with assms(2,3) show ?thesis
    by (auto simp: page_text_field_def Let_def)
qed

lemma page_text_field_part:
  assumes wf: "obj_wf m" and ms: "field_markers field = Some ms"
    and t: "map_of m field = Some (JStr (a @ rest))" "rest \<noteq> [] \<or> a = []"
    and big: "\<not> (a = [] \<and> json_len cd (JObj m) \<le> budget)"
  obtains r part q where "page_text_field cd (JObj m) field (str_len a) budget = Some (Inr r)"
    and "rest = part @ q" and "q \<noteq> [] \<Longrightarrow> MIN_PART_JSON_BYTES < escaped_len part + 6"
    and "json_get r field = Some (JStr part)"
    and "json_get r (ms ! 3) =
      (if q \<noteq> [] then Some (jnat (str_len (a @ part))) else if a = [] then None else Some JNull)"
    and "\<And>k. k \<notin> set (field # ms) \<Longrightarrow> json_get r k = map_of m k"
proof (rule serve_part_members [OF wf ms, where cd = cd and a = a and rest = rest and budget = budget])
  fix part q
  let ?m = "serve_part cd m field ms (a @ rest) (str_len a) budget"
  assume part: "rest = part @ q" "q \<noteq> [] \<Longrightarrow> MIN_PART_JSON_BYTES < escaped_len part + 6"
    "map_of ?m field = Some (JStr part)"
    "map_of ?m (ms ! 3) =
      (if q \<noteq> [] then Some (jnat (str_len (a @ part))) else if a = [] then None else Some JNull)"
    "\<And>k. k \<notin> set (field # ms) \<Longrightarrow> map_of ?m k = map_of m k"
  have page: "page_text_field cd (JObj m) field (str_len a) budget = Some (Inr (JObj ?m))"
    unfolding page_text_field_at [OF t(1) ms t(2)] using big by auto
  show thesis
    by (rule that [of "JObj ?m" part q]; (unfold json_get.simps)?) (fact page part)+
qed

lemma field_text_member: "json_get r field = Some (JStr t) \<Longrightarrow> field_text r field = t"
  by (simp add: field_text_def get_str_def)

text \<open>Each part but the last takes at least \<open>65531\<close> escaped bytes off what is left.\<close>

lemma field_walk_from:
  assumes wf: "obj_wf m" and ms: "field_markers field = Some ms" and free: "map_of m (ms ! 3) = None"
  shows "map_of m field = Some (JStr (a @ rest)) \<Longrightarrow> rest \<noteq> [] \<or> a = [] \<Longrightarrow> escaped_len rest div 65531 < n \<Longrightarrow>
    field_walk cd (JObj m) field (ms ! 3) budget n (str_len a) = Some rest"
proof (induction n arbitrary: a rest)
  case (Suc n)
  show ?case
  proof (cases "a = [] \<and> json_len cd (JObj m) \<le> budget")
    case True
    with Suc.prems(1) page_text_field_at [OF Suc.prems(1) ms Suc.prems(2), of cd budget] free show ?thesis
      by (simp add: cursor_u64_def field_text_member)
  next
    case False
    obtain r part q where r: "page_text_field cd (JObj m) field (str_len a) budget = Some (Inr r)"
      and part: "rest = part @ q" "q \<noteq> [] \<Longrightarrow> MIN_PART_JSON_BYTES < escaped_len part + 6"
      and get: "json_get r field = Some (JStr part)"
      and nxt: "json_get r (ms ! 3) =
        (if q \<noteq> [] then Some (jnat (str_len (a @ part))) else if a = [] then None else Some JNull)"
      using page_text_field_part [OF wf ms Suc.prems(1,2) False] by blast
    have step: "field_walk cd (JObj m) field (ms ! 3) budget n (str_len (a @ part)) = Some q" if "q \<noteq> []"
    proof (rule Suc.IH)
      have "escaped_len q + 65531 \<le> escaped_len rest"
        using part that by (simp add: MIN_PART_JSON_BYTES_def)
      then show "escaped_len q div 65531 < n" using Suc.prems(3) by simp
    qed (use Suc.prems(1) part that in auto)
    show ?thesis
      using step by (cases "q = []") (auto simp: r nxt part(1) cursor_u64_def field_text_member [OF get])
  qed
qed simp

section \<open>Parts of a message block\<close>

lemma body_escaped_len_eq [simp]: "body_escaped_len = json_escaped_len"
  by (auto simp: fun_eq_iff body_escaped_len_def json_escaped_len_def)

lemma body_end_props:
  "\<exists>p q. t = p @ q \<and> body_end room stop t = stop + str_len p \<and> escaped_len p \<le> room \<and>
     (q \<noteq> [] \<longrightarrow> room < escaped_len p + 6)"
proof (induction t arbitrary: room stop)
  case (Cons c t)
  show ?case
  proof (cases "room < json_escaped_len c")
    case True
    then show ?thesis using json_escaped_len_bounds [of c] by (intro exI [of _ "[]"] exI [of _ "c # t"]) simp
  next
    case False
    obtain p q where "t = p @ q" "body_end (room - json_escaped_len c) (stop + len_utf8 c) t = stop + len_utf8 c + str_len p"
        "escaped_len p \<le> room - json_escaped_len c" "q \<noteq> [] \<longrightarrow> room - json_escaped_len c < escaped_len p + 6"
      using Cons.IH [of "room - json_escaped_len c" "stop + len_utf8 c"] by blast
    with False show ?thesis by (intro exI [of _ "c # p"] exI [of _ q]) auto
  qed
qed simp

text \<open>A request for a part of the body: the whole block, a stub, or the next part and where it ends.\<close>

definition body_overhead :: "codec \<Rightarrow> jmap \<Rightarrow> string \<Rightarrow> nat" where
  "body_overhead cd m field = serialized_len cd (JObj (obj_insert field (JStr []) m))"

lemma page_body_part:
  assumes bt: "body_text cd body = (a @ rest, encoding)"
    and big: "\<not> (a = [] \<and> serialized_len cd (JObj m) \<le> cap)" and room: "body_overhead cd m field \<le> cap"
  obtains p q where "rest = p @ q" and "body_overhead cd m field + escaped_len p \<le> cap"
    and "q \<noteq> [] \<Longrightarrow> cap < body_overhead cd m field + escaped_len p + 6"
    and "page_body cd (JObj m) field body (str_len a) cap = Inr
      (if p = [] \<and> q \<noteq> [] then stub cd (JObj (obj_insert field (JStr []) m)) cap
       else block_result (JObj (obj_insert field (JStr p) m)) True (Some field) (Some encoding)
         (Some (str_len (a @ rest))) (if q \<noteq> [] then Some (str_len (a @ p)) else None))"
proof -
  let ?room = "cap - body_overhead cd m field"
  obtain p q where p: "rest = p @ q" "body_end ?room (str_len a) rest = str_len a + str_len p"
      "escaped_len p \<le> ?room" "q \<noteq> [] \<Longrightarrow> ?room < escaped_len p + 6"
    using body_end_props [of rest ?room "str_len a"] by blast
  have "page_body cd (JObj m) field body (str_len a) cap = Inr
      (if p = [] \<and> q \<noteq> [] then stub cd (JObj (obj_insert field (JStr []) m)) cap
       else block_result (JObj (obj_insert field (JStr p) m)) True (Some field) (Some encoding)
         (Some (str_len (a @ rest))) (if q \<noteq> [] then Some (str_len (a @ p)) else None))"
    using big room p(2) unfolding page_body_def bt p(1)
    by (auto simp: Let_def body_overhead_def zero_less_iff_neq_zero)
  with p room show thesis by (intro that [of p q]) auto
qed

lemma page_block_body:
  assumes "body_field (JObj m) = Some field" "field \<noteq> ''data''" "map_of m field = Some body"
  shows "page_message_block cd (JObj m) page =
    page_body cd (JObj m) field body (case mb_offset page of None \<Rightarrow> 0 | Some n \<Rightarrow> n) (page_cap page)"
  using assms by (simp add: page_message_block_def)

lemma block_result_fields [simp]:
  "served_block (block_result b tr f e tot nx) = b"
  "cursor_u64 (block_result b tr f e tot nx) ''nextOffset'' = nx"
  by (auto simp: block_result_def served_block_def cursor_u64_def opt_usize_def split: option.splits)

lemma block_walk_from:
  fixes cd m field mx
  defines "cap \<equiv> page_cap \<lparr>mb_offset = None, mb_max_bytes = mx\<rparr>"
  defines "room \<equiv> cap - body_overhead cd m field - 5"
  assumes block: "body_field (JObj m) = Some field" "field \<noteq> ''data''" "map_of m field = Some body"
    and big: "cap < serialized_len cd (JObj m)" and room: "body_overhead cd m field + 6 \<le> cap"
  shows "body_text cd body = (a @ rest, encoding) \<Longrightarrow> escaped_len rest div room < n \<Longrightarrow>
    block_walk cd (JObj m) field mx n (str_len a) = Some rest"
proof (induction n arbitrary: a rest)
  case (Suc n)
  have big': "\<not> (a = [] \<and> serialized_len cd (JObj m) \<le> cap)" using big by simp
  have over: "body_overhead cd m field \<le> cap" using room by simp
  obtain p q where p: "rest = p @ q" "q \<noteq> [] \<Longrightarrow> cap < body_overhead cd m field + escaped_len p + 6"
    and page: "page_body cd (JObj m) field body (str_len a) cap = Inr
      (if p = [] \<and> q \<noteq> [] then stub cd (JObj (obj_insert field (JStr []) m)) cap
       else block_result (JObj (obj_insert field (JStr p) m)) True (Some field) (Some encoding)
         (Some (str_len (a @ rest))) (if q \<noteq> [] then Some (str_len (a @ p)) else None))"
    using page_body_part [OF Suc.prems(1) big' over] by blast
  have some: "p \<noteq> []" if "q \<noteq> []" using p(2) [OF that] room by auto
  have step: "block_walk cd (JObj m) field mx n (str_len (a @ p)) = Some q" if "q \<noteq> []"
  proof (rule Suc.IH)
    have "escaped_len q + room \<le> escaped_len rest" "0 < room"
      using p that room by (auto simp: room_def)
    then have "escaped_len q div room < escaped_len rest div room"
      by (metis add_gr_0 div_add_self2 div_le_mono le_eq_less_or_eq less_add_one less_le_trans not_gr_zero)
    then show "escaped_len q div room < n" using Suc.prems(2) by simp
  qed (use Suc.prems(1) p in auto)
  have cap: "page_cap \<lparr>mb_offset = Some (str_len a), mb_max_bytes = mx\<rparr> = cap"
    by (simp add: cap_def page_cap_def)
  show ?case
    using some step by (cases "q = []") (auto simp: page_block_body [OF block] cap page p(1) get_str_def)
qed simp

lemma obj_remove_fresh: "k \<notin> fst ` set m \<Longrightarrow> obj_remove k (obj_insert k v m) = m"
  by (induction m) auto

text \<open>The stub keeps a member only while the stub still fits.\<close>

lemma keep_key_fits:
  assumes "serialized_len cd (JObj out) \<le> cap" "key \<notin> fst ` set out"
  shows "serialized_len cd (JObj (keep_key cd block cap out key)) \<le> cap \<and>
    fst ` set (keep_key cd block cap out key) \<subseteq> insert key (fst ` set out)"
  using assms by (auto simp: keep_key_def Let_def obj_remove_fresh split: option.split)

lemma stub_fits:
  assumes "serialized_len cd (JObj []) \<le> cap"
  shows "serialized_len cd (served_block (stub cd block cap)) \<le> cap"
proof -
  let ?out = "keep_key cd block cap [] ''id''"
  have out: "serialized_len cd (JObj ?out) \<le> cap" "fst ` set ?out \<subseteq> {''id''}"
    using keep_key_fits [OF assms, of "''id''" block] by simp_all
  then have "''type'' \<notin> fst ` set ?out" by auto
  with out show ?thesis
    using keep_key_fits [of cd ?out cap "''type''" block] by (simp add: stub_def)
qed

text \<open>One served part against the text of the field.\<close>

definition field_page_ok ::
  "jmap \<Rightarrow> string \<Rightarrow> string list \<Rightarrow> rtext \<Rightarrow> nat \<Rightarrow> (FieldError, json) res option \<Rightarrow> bool" where
  "field_page_ok m field ms t offset res =
     (case res of
        None \<Rightarrow> False
      | Some (Inl e) \<Rightarrow>
          e = BadOffset field offset (str_len t) \<and> 0 < offset \<and> \<not> (is_char_boundary t offset \<and> offset < str_len t)
      | Some (Inr r) \<Rightarrow>
          (offset = 0 \<or> is_char_boundary t offset \<and> offset < str_len t) \<and>
          (\<exists>part q. bytes_from t offset = part @ q \<and> json_get r field = Some (JStr part) \<and>
             json_get r (ms ! 3) =
               (if q \<noteq> [] then Some (jnat (offset + str_len part))
                else if offset = 0 then None else Some JNull) \<and>
             (q \<noteq> [] \<longrightarrow> 65531 \<le> escaped_len part)) \<and>
          (\<forall>k. k \<notin> set (field # ms) \<longrightarrow> json_get r k = map_of m k))"

lemma field_page_served:
  assumes wf: "obj_wf m" and ms: "field_markers field = Some ms" and free: "map_of m (ms ! 3) = None"
    and t: "map_of m field = Some (JStr (a @ rest))" "rest \<noteq> [] \<or> a = []"
  shows "field_page_ok m field ms (a @ rest) (str_len a) (page_text_field cd (JObj m) field (str_len a) budget)"
proof (cases "a = [] \<and> json_len cd (JObj m) \<le> budget")
  case True
  with t free page_text_field_at [OF t(1) ms t(2), of cd budget] show ?thesis
    by (auto simp: field_page_ok_def)
next
  case False
  obtain r part q where r: "page_text_field cd (JObj m) field (str_len a) budget = Some (Inr r)"
    and part: "rest = part @ q" "q \<noteq> [] \<Longrightarrow> MIN_PART_JSON_BYTES < escaped_len part + 6"
    and get: "json_get r field = Some (JStr part)"
    and nxt: "json_get r (ms ! 3) =
      (if q \<noteq> [] then Some (jnat (str_len (a @ part))) else if a = [] then None else Some JNull)"
    and other: "\<And>k. k \<notin> set (field # ms) \<Longrightarrow> json_get r k = map_of m k"
    using page_text_field_part [OF wf ms t False] by blast
  have "a = [] \<or> str_len a < str_len (a @ rest)" using t(2) by (auto simp: zero_less_iff_neq_zero)
  then show ?thesis
    unfolding field_page_ok_def r option.case sum.case
    by (intro conjI exI [of _ part] exI [of _ q] allI impI)
      (use part nxt get other in \<open>auto simp: MIN_PART_JSON_BYTES_def\<close>)
qed

text \<open>
  The serialiser's documented size of a string: its characters, the quotes and controls escaped, so
  replacing an empty string member by \<open>t\<close> adds the escaped size of \<open>t\<close>; an empty object is two bytes.
\<close>

definition string_sized :: "codec \<Rightarrow> bool" where
  "string_sized cd \<longleftrightarrow> length (to_vec cd (JObj [])) = 2 \<and>
     (\<forall>m k t. length (to_vec cd (JObj (obj_insert k (JStr t) m))) =
        length (to_vec cd (JObj (obj_insert k (JStr []) m))) + escaped_len t)"

definition page_within :: "codec \<Rightarrow> nat \<Rightarrow> (BlockError, json) res \<Rightarrow> bool" where
  "page_within cd cap res =
     (case res of Inl _ \<Rightarrow> True | Inr r \<Rightarrow> serialized_len cd (served_block r) \<le> cap)"

definition page_typed :: "json \<Rightarrow> nat \<Rightarrow> (BlockError, json) res \<Rightarrow> bool" where
  "page_typed block offset res =
     (case res of
        Inl e \<Rightarrow> 0 < offset
      | Inr r \<Rightarrow>
          (\<exists>b truncated f e total next. r = block_result b truncated f e total next \<and>
             f \<in> {None, Some ''text'', Some ''input'', Some ''output'', Some ''data''} \<and>
             e \<in> {None, Some ''text'', Some ''json''} \<and>
             (truncated \<or> b = block \<and> offset = 0 \<and> next = None) \<and>
             (case next of
                None \<Rightarrow> True
              | Some n \<Rightarrow>
                  offset < n \<and> f \<notin> {None, Some ''data''} \<and> e \<noteq> None \<and>
                  (case total of None \<Rightarrow> False | Some t \<Rightarrow> n < t))))"

lemma page_within_simps [simp]:
  "page_within cd cap (Inl err)"
  "page_within cd cap (Inr (block_result b tr f e tot nx)) \<longleftrightarrow> serialized_len cd b \<le> cap"
  by (simp_all add: page_within_def)

lemma page_typedI:
  assumes "f \<in> {None, Some ''text'', Some ''input'', Some ''output'', Some ''data''}" "e \<in> {None, Some ''text'', Some ''json''}"
    and "truncated \<or> b = block \<and> offset = 0 \<and> next = None"
    and "\<And>n. next = Some n \<Longrightarrow> offset < n \<and> f \<notin> {None, Some ''data''} \<and> e \<noteq> None \<and> (\<exists>t. tot = Some t \<and> n < t)"
  shows "page_typed block offset (Inr (block_result b truncated f e tot next))"
  unfolding page_typed_def sum.case
  by (intro exI conjI, rule refl, rule assms(1), rule assms(2), rule assms(3)) (use assms(4) in \<open>auto split: option.splits\<close>)

lemma page_typed_simps [simp]:
  "page_typed block offset (Inl e) \<longleftrightarrow> 0 < offset"
  "page_typed block offset (Inr (stub cd block' cap))"
  by (simp_all add: page_typed_def [of _ _ "Inl _"]) (auto simp: stub_def intro!: page_typedI)

lemma body_field_cases: "body_field block \<in> {None, Some ''text'', Some ''input'', Some ''output'', Some ''data''}"
  by (auto simp: body_field_def split: option.splits)

lemma page_cap_bounds: "MESSAGE_BLOCK_MIN_BYTES \<le> page_cap page \<and> page_cap page \<le> MESSAGE_BLOCK_MAX_BYTES"
  by (auto simp: page_cap_def MESSAGE_BLOCK_MIN_BYTES_def MESSAGE_BLOCK_MAX_BYTES_def split: option.splits)

lemma stub_within: "serialized_len cd (JObj []) \<le> cap \<Longrightarrow> page_within cd cap (Inr (stub cd block cap))"
  by (simp add: page_within_def stub_fits)

lemma unpaged_ok:
  "page_typed block offset (unpaged cd block offset cap) \<and>
   (serialized_len cd (JObj []) \<le> cap \<longrightarrow> page_within cd cap (unpaged cd block offset cap))"
  by (auto simp: unpaged_def stub_within intro!: page_typedI)

lemma page_image_ok:
  "page_typed block offset (page_image cd block offset cap) \<and>
   (serialized_len cd (JObj []) \<le> cap \<longrightarrow> page_within cd cap (page_image cd block offset cap))"
  using unpaged_ok [of block offset cd cap]
  by (auto simp: page_image_def Let_def stub_within intro!: page_typedI split: option.split)

lemma page_body_ok:
  assumes field: "Some field \<in> {Some ''text'', Some ''input'', Some ''output''}"
  shows "page_typed (JObj m) offset (page_body cd (JObj m) field body offset cap) \<and>
    (string_sized cd \<longrightarrow> serialized_len cd (JObj []) \<le> cap \<longrightarrow>
       page_within cd cap (page_body cd (JObj m) field body offset cap))"
proof -
  obtain t enc where bt: "body_text cd body = (t, enc)" by fastforce
  have enc: "enc \<in> {''text'', ''json''}"
    using bt by (auto simp: body_text_def split: json.splits)
  show ?thesis
  proof (cases "is_char_boundary t offset \<and> \<not> (offset = 0 \<and> serialized_len cd (JObj m) \<le> cap) \<and> body_overhead cd m field \<le> cap")
    case True
    then obtain a rest where t: "t = a @ rest" "offset = str_len a" by (auto simp: is_char_boundary_iff)
    from True t have big: "\<not> (a = [] \<and> serialized_len cd (JObj m) \<le> cap)" and over: "body_overhead cd m field \<le> cap"
      by auto
    obtain p q where p: "body_overhead cd m field + escaped_len p \<le> cap" "rest = p @ q"
      and page: "page_body cd (JObj m) field body (str_len a) cap = Inr
        (if p = [] \<and> q \<noteq> [] then stub cd (JObj (obj_insert field (JStr []) m)) cap
         else block_result (JObj (obj_insert field (JStr p) m)) True (Some field) (Some enc)
           (Some (str_len (a @ rest))) (if q \<noteq> [] then Some (str_len (a @ p)) else None))"
      using page_body_part [OF bt [unfolded t] big over] by blast
    have "serialized_len cd (JObj (obj_insert field (JStr p) m)) = body_overhead cd m field + escaped_len p"
      if "string_sized cd"
      using that unfolding string_sized_def serialized_len_def body_overhead_def by blast
    then have fits: "serialized_len cd (JObj (obj_insert field (JStr p) m)) \<le> cap" if "string_sized cd"
      using p(1) that by simp
    show ?thesis
    proof (cases "p = [] \<and> q \<noteq> []")
      case True
      then show ?thesis
        unfolding t(2) page by (simp add: stub_within)
    next
      case False
      then have next_in: "str_len a < str_len (a @ p) \<and> str_len (a @ p) < str_len (a @ rest)" if "q \<noteq> []"
        using that p(2) by (auto simp: zero_less_iff_neq_zero)
      show ?thesis
        unfolding t(2) page if_not_P [OF False] page_within_simps
        by (intro conjI impI fits page_typedI) (use field enc next_in in \<open>auto split: if_splits simp del: str_len_append\<close>)
    qed
  next
    case False
    then have "\<not> is_char_boundary t offset \<or> offset = 0 \<and> serialized_len cd (JObj m) \<le> cap \<or> cap < body_overhead cd m field"
      by auto
    with enc field show ?thesis
      by (cases "is_char_boundary t offset"; cases "offset = 0")
        (auto simp: page_body_def bt Let_def body_overhead_def stub_within intro!: page_typedI dest: is_char_boundary_le)
  qed
qed

lemma page_message_block_ok:
  "page_typed block (case mb_offset page of None \<Rightarrow> 0 | Some n \<Rightarrow> n) (page_message_block cd block page) \<and>
   (string_sized cd \<longrightarrow> serialized_len cd (JObj []) \<le> page_cap page \<longrightarrow>
      page_within cd (page_cap page) (page_message_block cd block page))"
proof (cases "Option.bind (body_field block) (\<lambda>f. if json_get block f \<noteq> None then Some f else None)")
  case None
  then show ?thesis using unpaged_ok by (simp add: page_message_block_def del: bind_eq_None_conv)
next
  case (Some f)
  then obtain m body where block: "block = JObj m" and get: "json_get block f = Some body" and bf: "body_field block = Some f"
    by (cases block) (auto split: if_splits Option.bind_splits)
  show ?thesis
  proof (cases "f = ''data''")
    case True
    then show ?thesis using Some page_image_ok by (simp add: page_message_block_def)
  next
    case False
    then have "Some f \<in> {Some ''text'', Some ''input'', Some ''output''}"
      using body_field_cases [of block] bf by simp
    with False Some get show ?thesis
      using page_body_ok by (simp add: page_message_block_def block)
  qed
qed

text \<open>An example serialiser: strings at their escaped size, other members four bytes.\<close>

definition member_size :: "json \<Rightarrow> nat" where
  "member_size v = (case v of JStr t \<Rightarrow> 2 + escaped_len t | _ \<Rightarrow> 4)"

definition sized_codec :: codec where
  "sized_codec = plain_codec\<lparr>to_vec := (\<lambda>v. replicate
     (case v of JObj m \<Rightarrow> 2 + (\<Sum>(k, v) \<leftarrow> m. length k + 4 + member_size v) | _ \<Rightarrow> member_size v) 0)\<rparr>"

lemma sized_codec_insert:
  "(\<Sum>(k, v) \<leftarrow> obj_insert k (JStr t) m. length k + 4 + member_size v) =
   (\<Sum>(k, v) \<leftarrow> obj_insert k (JStr []) m. length k + 4 + member_size v) + escaped_len t"
  by (induction m) (auto simp: member_size_def)

lemma sized_codec_sized: "string_sized sized_codec"
  unfolding string_sized_def
proof (intro conjI allI)
  fix m k t
  show "length (to_vec sized_codec (JObj (obj_insert k (JStr t) m))) =
    length (to_vec sized_codec (JObj (obj_insert k (JStr []) m))) + escaped_len t"
    using sized_codec_insert [of k t m] by (simp add: sized_codec_def)
qed (simp add: sized_codec_def)

lemma escaped_len_replicate [simp]: "escaped_len (replicate n c) = n * json_escaped_len c"
  by (simp add: escaped_len_def sum_list_replicate)

definition demo_block :: jmap where
  "demo_block = [(''type'', JStr (lit ''text'')), (''text'', JStr (replicate 5000 97))]"

definition demo_definition :: jmap where
  "demo_definition = [(''name'', JStr (lit ''build'')), (''code'', JStr (replicate 70000 97))]"

lemma demo_definition_facts:
  "obj_wf demo_definition" "map_of demo_definition ''code'' = Some (JStr (replicate 70000 97))"
  "map_of demo_definition ''nextCodeOffset'' = None"
  by (simp_all add: demo_definition_def obj_wf_def)

lemma demo_markers:
  "field_markers ''code'' = Some [''codeTruncated'', ''codeBytes'', ''codeOffset'', ''nextCodeOffset'']"
  by code_simp

lemma demo_block_facts:
  "body_field (JObj demo_block) = Some ''text''" "map_of demo_block ''text'' = Some (JStr (replicate 5000 97))"
  "page_cap \<lparr>mb_offset = x, mb_max_bytes = Some 4096\<rparr> = 4096"
  "serialized_len sized_codec (JObj demo_block) = 5026" "body_overhead sized_codec demo_block ''text'' = 26"
  by (simp_all add: demo_block_def body_field_def get_str_def page_cap_def serialized_len_def body_overhead_def
      sized_codec_def member_size_def lit_def json_escaped_len_def len_utf8_def
      MESSAGE_BLOCK_MIN_BYTES_def MESSAGE_BLOCK_MAX_BYTES_def)

section \<open>Properties\<close>

text \<open>
  C19. Reading a text field part by part ends and rebuilds the field: whatever the budget and the other
  fields, a client that follows the next offsets from the start is never refused and gets the text
  back exactly, within one request per \<open>65531\<close> bytes of its JSON-escaped size, plus one.
\<close>

theorem field_walk_bounded:
  assumes "obj_wf m" "map_of m field = Some (JStr t)" "field_markers field = Some ms" "map_of m (ms ! 3) = None"
  shows "field_walk cd (JObj m) field (ms ! 3) budget (Suc (escaped_len t div 65531)) 0 = Some t"
  using field_walk_from [OF assms(1,3,4), of "[]" t] assms(2) by (simp del: field_walk.simps)

theorem field_walk_bounded_witness:
  "obj_wf demo_definition \<and>
   field_walk sized_codec (JObj demo_definition) ''code'' ''nextCodeOffset'' 1000 2 0 = Some (replicate 70000 97)"
  using field_walk_bounded [of demo_definition "''code''" "replicate 70000 97"
      "[''codeTruncated'', ''codeBytes'', ''codeOffset'', ''nextCodeOffset'']" sized_codec 1000]
  by (simp add: demo_definition_facts demo_markers json_escaped_len_def len_utf8_def numeral_2_eq_2
      del: field_walk.simps field_markers.simps)

text \<open>
  C22. One part of a text field is exactly the stretch of the field at the offset asked for: an offset
  is refused exactly when it is not 0 and not a character boundary inside the field; otherwise the
  served row holds the text from that offset on, whole or cut after at least \<open>65531\<close> escaped bytes with
  the offset of the cut as the next offset, and every member other than the field and its markers is
  unchanged. The call never panics.
\<close>

theorem text_field_page_exact:
  assumes "obj_wf m" "map_of m field = Some (JStr t)" "field_markers field = Some ms" "map_of m (ms ! 3) = None"
  shows "field_page_ok m field ms t offset (page_text_field cd (JObj m) field offset budget)"
proof (cases "0 < offset \<and> \<not> (is_char_boundary t offset \<and> offset < str_len t)")
  case True
  with assms(2) show ?thesis
    by (auto simp: page_text_field_def field_page_ok_def field_text_def get_str_def Let_def)
next
  case False
  then obtain a rest where "t = a @ rest" "offset = str_len a" "rest \<noteq> [] \<or> a = []"
    by (cases "offset = 0") (fastforce simp: is_char_boundary_iff)+
  with field_page_served [OF assms(1,3,4), of a rest] assms(2) show ?thesis by simp
qed

theorem text_field_page_exact_witness:
  "obj_wf demo_definition \<and>
   field_page_ok demo_definition ''code'' [''codeTruncated'', ''codeBytes'', ''codeOffset'', ''nextCodeOffset'']
     (replicate 70000 97) 17 (page_text_field sized_codec (JObj demo_definition) ''code'' 17 1000)"
  using text_field_page_exact [of demo_definition "''code''" "replicate 70000 97"
      "[''codeTruncated'', ''codeBytes'', ''codeOffset'', ''nextCodeOffset'']" 17 sized_codec 1000]
  by (simp add: demo_definition_facts demo_markers del: field_markers.simps)

text \<open>
  C20. Reading the body of a block too large for one reply ends and rebuilds the body: when the block
  without its body leaves room for one character, every request makes progress, no stub is served, and
  the parts concatenate to the body text (its own text, or its JSON), within one request per room
  less five bytes of its escaped size, plus one.
\<close>

theorem block_walk_rebuilds:
  assumes "body_field (JObj m) = Some field" "field \<noteq> ''data''" "map_of m field = Some body"
    and "page_cap \<lparr>mb_offset = None, mb_max_bytes = mx\<rparr> < serialized_len cd (JObj m)"
    and "body_overhead cd m field + 6 \<le> page_cap \<lparr>mb_offset = None, mb_max_bytes = mx\<rparr>"
  shows "block_walk cd (JObj m) field mx
    (Suc (escaped_len (fst (body_text cd body)) div
       (page_cap \<lparr>mb_offset = None, mb_max_bytes = mx\<rparr> - body_overhead cd m field - 5))) 0 =
    Some (fst (body_text cd body))"
  using block_walk_from [OF assms, of "[]"] by (simp add: prod_eq_iff del: block_walk.simps)

theorem block_walk_rebuilds_witness:
  "block_walk sized_codec (JObj demo_block) ''text'' (Some 4096) 2 0 = Some (replicate 5000 97)"
  using block_walk_rebuilds [of demo_block "''text''" "JStr (replicate 5000 97)" "Some 4096" sized_codec]
  by (simp add: demo_block_facts body_text_def json_escaped_len_def len_utf8_def numeral_2_eq_2
      del: block_walk.simps)

text \<open>
  C21. Every served block stays within the cap of its request, on every branch: whole, cut to a part,
  an image without its data, or a stub.
\<close>

theorem block_page_within_cap:
  assumes "string_sized cd"
  shows "page_within cd (page_cap page) (page_message_block cd block page)"
  using page_message_block_ok [of block page cd] page_cap_bounds [of page]
    conjunct1 [OF assms [unfolded string_sized_def]] assms
  by (simp add: serialized_len_def MESSAGE_BLOCK_MIN_BYTES_def)

theorem block_page_within_cap_witness:
  "page_within sized_codec 4096
     (page_message_block sized_codec (JObj demo_block) \<lparr>mb_offset = Some 17, mb_max_bytes = Some 4096\<rparr>)"
  using block_page_within_cap [OF sized_codec_sized, of "\<lparr>mb_offset = Some 17, mb_max_bytes = Some 4096\<rparr>" "JObj demo_block"]
  by (simp add: demo_block_facts)

text \<open>
  C23. Every answer of the block read has its documented type: the six members in their order, with
  \<open>truncated\<close> a boolean, \<open>field\<close> a body field or null and \<open>encoding\<close> \<open>text\<close>, \<open>json\<close> or null; an
  untruncated answer is the block itself, at offset 0 and with no next offset; and a next offset lies
  strictly between the offset asked for and the total. Offset 0 is never refused.
\<close>

theorem block_page_type:
  "page_typed block (case mb_offset page of None \<Rightarrow> 0 | Some n \<Rightarrow> n) (page_message_block cd block page)"
  using page_message_block_ok by blast

end
