(* ===== verification/Spec2Isabelle.thy ===== *)
theory Spec2Isabelle
  imports TerminalStream TextPaging ListPaging NoteMerge Observation ReadyDelta AgentWorkers
    CredentialFences FieldPaging
begin

text \<open>
  A verification development of \<open>intentd\<close>, the daemon that runs coding agents for a desktop
  application (Rust, \<open>crates/\<close>). The daemon spawns agents and terminals, stores their state, and
  serves it to clients over a socket as JSON-RPC answers and pushed events. The theories model the parts
  whose correctness is a matter of their own logic: what is kept of a stream, what is merged, paged or
  cut before it is sent, which tasks may run, and which late answer still counts.

  \<^bold>\<open>How the parts interact.\<close> A terminal's bytes fill a scrollback ring (\<open>Scrollback\<close>), are cut
  into lines for the script monitors (\<open>LineDecoder\<close>) and are published as events (\<open>TerminalStream\<close>);
  a slow client's events and chat deltas wait in a conflation buffer (\<open>Conflate\<close>,
  \<open>ConflateItems\<close>). Answers to reads are paged and cut to a byte budget (\<open>Pagination\<close>,
  \<open>TextPaging\<close>, \<open>ListPaging\<close>, \<open>FieldPaging\<close>). Agents are scheduled from a snapshot of the task graph
  (\<open>CriticalPath\<close>, \<open>Batch\<close>, \<open>ReadyDelta\<close>), report their own asynchronous workers (\<open>WorkerFrames\<close>,
  \<open>WorkerProjection\<close>, \<open>AgentWorkers\<close>) and edit notes concurrently (\<open>NoteMerge\<close>). Reads of external
  repositories go through an eligibility policy (\<open>Observation\<close>) and a credential directory with native
  contexts to retire (\<open>NativeContexts\<close>, \<open>CredentialDirectory\<close>, \<open>CredentialFences\<close>).

  \<^bold>\<open>Conventions.\<close> A struct is a record, an enum a datatype, an operation one function with the state
  passed explicitly. A panic is \<open>None\<close>, an error \<open>Inl\<close>. Text is the list of its code points and
  \<open>str_len\<close> its UTF-8 size; machine integers are natural numbers whose checked, saturating or
  wrapping arithmetic at 64 bits is written out (\<open>Prelude\<close>). JSON objects are association lists in
  insertion order (\<open>Json\<close>). A mutex-protected component is a step function on its state: an
  interleaving of calls is a list of steps, run by \<open>run_opt\<close> (\<open>Transition\<close>), whose locales
  \<open>step_invariant\<close>, \<open>step_monotone\<close> and \<open>partial_simulation\<close> hold the inductions once; each stateful
  component interprets them on its own step function. Clocks, fresh identifiers and answers of peers are
  arguments of the steps. Base64, JSON serialisation and the line diff are parameters; the hypotheses
  \<open>codec_ok\<close>, \<open>queue_codec_ok\<close>, \<open>string_sized\<close> and \<open>valid_ops\<close> state what the code relies on, and
  each theorem that has one has a witness with a concrete instance.

  \<^bold>\<open>The theories.\<close>

  \<^item> \<open>Scrollback\<close>: the ring of \<open>intent-pty/src/scrollback.rs\<close> with its newline index and byte counts. It
  refines the plain history of the stream: positioned snapshots are its last bytes at their absolute
  offsets, line windows read through the index are exact, the size stays within the budget, and no
  operation panics before \<open>2^64\<close> bytes.

  \<^item> \<open>Conflate\<close> and \<open>ConflateItems\<close>: the egress buffer of \<open>intent-transport/src/conflate.rs\<close>, first over
  any mergeable item, then for bus events and chat deltas (\<open>events.rs\<close>, \<open>subscriptions.rs\<close>). Popped and
  pending frames are the accepted pushes grouped by key, nothing lost and nothing reordered inside a
  key, and a merged terminal frame carries the cursor of exactly its bytes.

  \<^item> \<open>LineDecoder\<close>: \<open>intent-core/src/script_output.rs\<close>, the byte-wise decoder of output lines. It
  never panics, stays within its bounds, and reports exactly the lines of a text without escapes.

  \<^item> \<open>TerminalStream\<close>: \<open>publish_output\<close> of \<open>intent-pty/src/host.rs\<close> and \<open>emit_data\<close> of
  \<open>intent-svc-runtime/src/terminal_ops.rs\<close>, and the composition of ring, events and conflation: a
  client that replays its frames onto a snapshot shows the stream, nothing twice and nothing missing.

  \<^item> \<open>Pagination\<close>, \<open>TextPaging\<close>, \<open>ListPaging\<close>: \<open>intent-services/src/pagination.rs\<close>. Walks over
  tokens end and return every row or line once, byte-budgeted pages are as wide as allowed, tails and
  rows fit their budgets, keyset tokens are bound to their scope.

  \<^item> \<open>FieldPaging\<close>: \<open>intent-core/src/text_field_page.rs\<close> and \<open>message_block_page.rs\<close>. Parts rebuild
  the text in a bounded number of requests, a served block is within its cap and well typed.

  \<^item> \<open>NoteMerge\<close>: \<open>intent-services/src/note_merge.rs\<close>, the three-way merge and the checkbox repair.

  \<^item> \<open>CriticalPath\<close>, \<open>Batch\<close>, \<open>ReadyDelta\<close>: \<open>agent_ops/batch.rs\<close>, \<open>agent_ops/ready_delta.rs\<close> and the
  effort table. The Kahn pass computes longest chains, a classified batch is a conflict-free schedule
  independent of hash order, and the delta lists exactly the tasks a completion released.

  \<^item> \<open>WorkerFrames\<close>, \<open>WorkerProjection\<close>, \<open>AgentWorkers\<close>: \<open>intent-acp/src/workers.rs\<close> and
  \<open>intent-services/src/agent_workers.rs\<close>: reading the frames, the bounded projection of one agent, and
  the registry whose fences guard a stop request.

  \<^item> \<open>Observation\<close>: \<open>intent-services/src/observation_policy.rs\<close>: which response is accepted and which
  retained read may be served, under any interleaving of requests, denials and retirements.

  \<^item> \<open>NativeContexts\<close>, \<open>CredentialDirectory\<close>, \<open>CredentialFences\<close>: the synchronous transitions of
  \<open>intent-services/src/repository_credentials\<close> (state, checkout, acquire) and of
  \<open>repository_admission/lifecycle/native_allocation.rs\<close>. Whatever interleaves, an old generation is
  refused for ever, a released secret is the current one, and a mutation settles only when the contexts
  it retired have joined.

  \<^bold>\<open>Bounds and fuel.\<close> One function of the model has fuel: a byte pushed into the line decoder may
  push the bytes of a wrong sequence again, and \<open>push_depth\<close> allows five nested calls, of which two
  are ever made. Otherwise fuel appears only in the client loops that follow tokens or offsets (\<open>walk_back\<close>, \<open>text_walk\<close>,
  \<open>queue_walk\<close>, \<open>field_walk\<close>, \<open>block_walk\<close>); each theorem names an amount for which the loop returns, so it is also
  the bound on the number of requests.

  \<^bold>\<open>Not modelled.\<close> The SQLite stores, sockets, TLS, the RPC router and authentication; child processes,
  terminals and the agent protocol's transport; HTTP clients of code hosts, issue and error trackers; git;
  providers' configuration, remote machines, file transfer, search, voice and the script host; process
  start-up. These are I/O around the components above, or wrappers of engines outside the sources. Of
  the modelled components, the asynchronous drivers (waiting, time-outs, wake-ups of channels) and the
  destinations a released credential is sent to are left out: their effect on the shared state is
  the step function, their timing is the choice of the interleaving.
\<close>

end
